(* ===== verification/Prelude.thy ===== *)
theory Prelude
  imports Main "HOL-Library.Word"
begin

text \<open>
  Shared vocabulary of the development: the machine types of types.h, the outcome type
  of kernel code (a value, a panic, or going to sleep on a channel), sequencing of such
  outcomes, the first-match scan that every table loop of the kernel is, and the lemmas
  on lists, words and byte memories that the components share.
\<close>

section \<open>Machine types\<close>

type_synonym uint = "32 word"
type_synonym ushort = "16 word"
type_synonym uchar = "8 word"

text \<open>Byte-addressed memory, and a C pointer to bytes seen as the bytes from it onwards.\<close>

type_synonym mem = "uint \<Rightarrow> uchar"
type_synonym cptr = "nat \<Rightarrow> uchar"

named_theorems kdefs \<open>definitions unfolded when an operation is executed symbolically\<close>

section \<open>Outcomes of kernel code\<close>

text \<open>
  The sleep channels of the kernel are addresses of kernel objects (a process slot, a
  buffer, the log, an inode slot, the two counters of a pipe, the tick counter, the
  console input record). Distinct objects have distinct addresses, so a channel is the
  object's name.
\<close>

datatype chan =
    ChanProc nat
  | ChanBuf nat
  | ChanLog
  | ChanInode nat
  | ChanPipeRead uint
  | ChanPipeWrite uint
  | ChanTicks
  | ChanInput

text \<open>
  A kernel operation returns a value (\<open>Done\<close>), stops the machine (\<open>Panic\<close>), or gives
  up the processor in \<open>sleep(chan, lock)\<close> (\<open>Sleep\<close>). Every sleep of the kernel is
  inside a loop that re-evaluates its condition after the wakeup, so an operation that
  returned \<open>Sleep\<close> is resumed by running it again.
\<close>

datatype ('a, 's) kres = Done 'a 's | Panic string | Sleep chan 's

fun kbind :: "('a, 's) kres \<Rightarrow> ('a \<Rightarrow> 's \<Rightarrow> ('b, 's) kres) \<Rightarrow> ('b, 's) kres" where
  "kbind (Done a s) f = f a s"
| "kbind (Panic m) f = Panic m"
| "kbind (Sleep c s) f = Sleep c s"

lemma kbind_cong [fundef_cong]:
  assumes "r = r'" and "\<And>a s. r' = Done a s \<Longrightarrow> f a s = g a s"
  shows "kbind r f = kbind r' g"
  using assms by (cases r') auto

lemma kbind_eq_Done [simp]:
  "kbind r f = Done b t \<longleftrightarrow> (\<exists>a s. r = Done a s \<and> f a s = Done b t)"
  by (cases r) auto

lemma kbind_eq_Panic [simp]:
  "kbind r f = Panic m \<longleftrightarrow> r = Panic m \<or> (\<exists>a s. r = Done a s \<and> f a s = Panic m)"
  by (cases r) auto

lemma kbind_eq_Sleep [simp]:
  "kbind r f = Sleep c t \<longleftrightarrow> r = Sleep c t \<or> (\<exists>a s. r = Done a s \<and> f a s = Sleep c t)"
  by (cases r) auto

lemma kbind_assoc: "kbind (kbind r f) g = kbind r (\<lambda>a s. kbind (f a s) g)"
  by (cases r) auto

lemma kbind_Done_right [simp]: "kbind r Done = r"
  by (cases r) auto

text \<open>Every state an outcome carries satisfies a predicate: the shape of invariant proofs.\<close>

fun kall :: "('s \<Rightarrow> bool) \<Rightarrow> ('a, 's) kres \<Rightarrow> bool" where
  "kall P (Done a s) = P s"
| "kall P (Panic m) = True"
| "kall P (Sleep c s) = P s"

lemma kall_kbind [intro]:
  assumes "kall P r" and "\<And>a s. r = Done a s \<Longrightarrow> P s \<Longrightarrow> kall P (f a s)"
  shows "kall P (kbind r f)"
  using assms by (cases r) auto

section \<open>The first-match scan of a table\<close>

text \<open>
  \<open>for(p = table; p < &table[N]; p++) if(cond(p)) goto found;\<close>: the index of the first
  entry that satisfies the condition.
\<close>

fun find_idx :: "('a \<Rightarrow> bool) \<Rightarrow> 'a list \<Rightarrow> nat option" where
  "find_idx P [] = None"
| "find_idx P (x # xs) = (if P x then Some 0 else map_option Suc (find_idx P xs))"

lemma find_idx_None [simp]: "find_idx P xs = None \<longleftrightarrow> (\<forall>x \<in> set xs. \<not> P x)"
  by (induction xs) auto

lemma find_idx_Some:
  "find_idx P xs = Some i \<longleftrightarrow> i < length xs \<and> P (xs ! i) \<and> (\<forall>j < i. \<not> P (xs ! j))"
proof (induction xs arbitrary: i)
  case Nil
  then show ?case by simp
next
  case (Cons x xs)
  show ?case
  proof (cases i)
    case 0
    then show ?thesis by simp
  next
    case (Suc k)
    then show ?thesis by (auto simp: Cons.IH All_less_Suc2)
  qed
qed

lemma find_idx_SomeD:
  assumes "find_idx P xs = Some i"
  shows "i < length xs" and "P (xs ! i)"
  using assms by (simp_all add: find_idx_Some)

lemma find_idx_ex: "\<exists>x \<in> set xs. P x \<Longrightarrow> \<exists>i. find_idx P xs = Some i"
  by (metis find_idx_None not_Some_eq)

lemma find_idx_unique:
  assumes "i < length xs" and "P (xs ! i)" and "\<And>j. j < length xs \<Longrightarrow> P (xs ! j) \<Longrightarrow> j = i"
  shows "find_idx P xs = Some i"
  unfolding find_idx_Some using assms by (metis less_trans less_irrefl)

lemma nth_upd: "xs[i := x] ! j = (if i = j \<and> i < length xs then x else xs ! j)"
  by (cases "i < length xs") (simp_all add: nth_list_update list_update_beyond)

lemma shift_all: "(\<forall>j < k - i. P (i + j)) \<longleftrightarrow> (\<forall>j. i \<le> j \<longrightarrow> j < k \<longrightarrow> P (j :: nat))"
proof safe
  fix j assume "\<forall>j < k - i. P (i + j)" "i \<le> j" "j < k"
  then show "P j" by (auto dest!: spec [of _ "j - i"])
qed auto

lemma find_idx_replicate: "find_idx P (replicate n x) = (if n > 0 \<and> P x then Some 0 else None)"
  by (cases n) auto

lemma find_idx_append: "find_idx P (xs @ ys) =
    (case find_idx P xs of Some i \<Rightarrow> Some i | None \<Rightarrow> map_option (\<lambda>i. length xs + i) (find_idx P ys))"
  by (induction xs; cases "find_idx P ys") (auto split: option.splits simp del: find_idx_None)

section \<open>Words and natural numbers\<close>

lemma unat_lt32 [simp]: "unat (x :: uint) < 4294967296"
  using unsigned_less [of x] by simp

lemma unat_of_nat32: "n < 4294967296 \<Longrightarrow> unat (of_nat n :: uint) = n"
  by (simp add: unat_of_nat)

lemma unat_add_mod32: "unat (a + b :: uint) = (unat a + unat b) mod 2 ^ 32"
  by (simp add: unat_word_ariths)

lemma unat_add32: "unat a + unat b < 4294967296 \<Longrightarrow> unat (a + b :: uint) = unat a + unat b"
  by (simp add: unat_word_ariths)

lemma unat_add_of_nat32: "unat a + n < 4294967296 \<Longrightarrow> unat (a + of_nat n :: uint) = unat a + n"
  by (simp add: unat_word_ariths unat_of_nat)

text \<open>Rounding down to a page: masking off the low twelve bits.\<close>

lemma unat_page_round: "unat (and x (not 4095) :: uint) = unat x div 4096 * 4096"
proof -
  have m: "(4095 :: uint) = mask 12" by (simp add: mask_eq_exp_minus_1)
  have "and x (not 4095) = push_bit 12 (drop_bit 12 x)"
    unfolding m
    by (rule bit_word_eqI) (auto simp: bit_and_iff bit_not_iff bit_push_bit_iff bit_drop_bit_eq bit_mask_iff)
  also have "\<dots> = drop_bit 12 x * 4096" by (simp add: push_bit_eq_mult)
  also have "unat \<dots> = unat x div 4096 * 4096"
  proof -
    have "unat (drop_bit 12 x) = unat x div 4096" by (simp add: drop_bit_eq_div unat_div_distrib)
    moreover have "unat x div 4096 * 4096 \<le> unat x" by simp
    then have "unat x div 4096 * 4096 < 4294967296" using unat_lt32 [of x] by linarith
    ultimately show ?thesis by (simp add: unat_word_ariths)
  qed
  finally show ?thesis .
qed

lemma unat_page_round_neg: "unat (and x (- 4096) :: uint) = unat x div 4096 * 4096"
  using unat_page_round [of x] by simp

section \<open>Words in byte memory\<close>

definition get32 :: "mem \<Rightarrow> uint \<Rightarrow> uint" where
  "get32 m a = or (or (ucast (m a)) (push_bit 8 (ucast (m (a + 1)))))
                  (or (push_bit 16 (ucast (m (a + 2)))) (push_bit 24 (ucast (m (a + 3)))))"

definition put32 :: "mem \<Rightarrow> uint \<Rightarrow> uint \<Rightarrow> mem" where
  "put32 m a w = m(a := ucast w, a + 1 := ucast (drop_bit 8 w),
                   a + 2 := ucast (drop_bit 16 w), a + 3 := ucast (drop_bit 24 w))"

lemma word_add_numeral_neq [simp]:
  fixes a :: uint
  shows "a + 1 \<noteq> a" "a + 2 \<noteq> a" "a + 3 \<noteq> a" "a + 2 \<noteq> a + 1" "a + 3 \<noteq> a + 1" "a + 3 \<noteq> a + 2"
    "a \<noteq> a + 1" "a \<noteq> a + 2" "a \<noteq> a + 3" "a + 1 \<noteq> a + 2" "a + 1 \<noteq> a + 3" "a + 2 \<noteq> a + 3"
  by simp_all

lemma get32_put32_aux:
  fixes w :: uint
  shows "or (or (ucast (ucast w :: uchar)) (push_bit 8 (ucast (ucast (drop_bit 8 w) :: uchar))))
           (or (push_bit 16 (ucast (ucast (drop_bit 16 w) :: uchar)))
               (push_bit 24 (ucast (ucast (drop_bit 24 w) :: uchar)))) = w" (is "?l = w")
proof (rule bit_word_eqI)
  fix n assume n: "n < LENGTH(32)"
  consider "n < 8" | "8 \<le> n" "n < 16" | "16 \<le> n" "n < 24" | "24 \<le> n" by linarith
  then show "bit ?l n = bit w n"
    using n by cases (simp_all add: bit_or_iff bit_push_bit_iff bit_ucast_iff bit_drop_bit_eq less_diff_conv2)
qed

lemma get32_put32 [simp]: "get32 (put32 m a w) a = w"
  by (simp add: get32_def put32_def get32_put32_aux)

lemma get32_cong:
  "m a = m' a \<Longrightarrow> m (a + 1) = m' (a + 1) \<Longrightarrow> m (a + 2) = m' (a + 2) \<Longrightarrow> m (a + 3) = m' (a + 3)
    \<Longrightarrow> get32 m a = get32 m' a"
  by (simp add: get32_def)

lemma put32_other: "unat (b - a) \<ge> 4 \<Longrightarrow> put32 m a w b = m b"
  by (auto simp: put32_def)

section \<open>Signed machine integers\<close>

text \<open>A C \<open>int\<close> is an \<open>int\<close> here; \<open>s32\<close> is the wrap-around to 32 bits after an operation that may overflow.\<close>

definition s32 :: "int \<Rightarrow> int" where
  "s32 x = signed_take_bit 31 x"

lemma s32_id [simp]: "- (2 ^ 31) \<le> x \<Longrightarrow> x < 2 ^ 31 \<Longrightarrow> s32 x = x"
  by (simp add: s32_def signed_take_bit_int_eq_self)

lemma s32_range: "- (2 ^ 31) \<le> s32 x" "s32 x < 2 ^ 31"
  unfolding s32_def using signed_take_bit_int_greater_eq_minus_exp [of 31 x] signed_take_bit_int_less_exp [of 31 x]
  by simp_all

end
