(* ===== verification/Kstring.thy ===== *)
theory Kstring
  imports Prelude
begin

text \<open>
  The kernel's memory and string routines (string.c, with the string instructions of
  x86.h). Routines that move bytes between addresses work on the byte memory, so that
  overlap is visible; routines that read C strings take the bytes from the pointer on,
  and those that fill an array return its new contents.
\<close>

section \<open>memset and memmove\<close>

primrec stosb :: "nat \<Rightarrow> uint \<Rightarrow> uchar \<Rightarrow> mem \<Rightarrow> mem" where
  "stosb 0 a c m = m"
| "stosb (Suc k) a c m = stosb k (a + 1) c (m(a := c))"

primrec stosl :: "nat \<Rightarrow> uint \<Rightarrow> uint \<Rightarrow> mem \<Rightarrow> mem" where
  "stosl 0 a w m = m"
| "stosl (Suc k) a w m = stosl k (a + 4) w (put32 m a w)"

definition memset :: "uint \<Rightarrow> uint \<Rightarrow> uint \<Rightarrow> mem \<Rightarrow> mem" where
  "memset dst c n m =
     (if 4 dvd sint dst \<and> unat n mod 4 = 0
      then let c = and c 0xFF
           in stosl (unat n div 4) dst
                (or (or (or (push_bit 24 c) (push_bit 16 c)) (push_bit 8 c)) c) m
      else stosb (unat n) dst (ucast c) m)"

primrec copy_down :: "nat \<Rightarrow> uint \<Rightarrow> uint \<Rightarrow> mem \<Rightarrow> mem" where
  "copy_down 0 d s m = m"
| "copy_down (Suc k) d s m = copy_down k (d - 1) (s - 1) (m(d - 1 := m (s - 1)))"

primrec copy_up :: "nat \<Rightarrow> uint \<Rightarrow> uint \<Rightarrow> mem \<Rightarrow> mem" where
  "copy_up 0 d s m = m"
| "copy_up (Suc k) d s m = copy_up k (d + 1) (s + 1) (m(d := m s))"

definition memmove :: "uint \<Rightarrow> uint \<Rightarrow> uint \<Rightarrow> mem \<Rightarrow> mem" where
  "memmove dst src n m =
     (if src < dst \<and> src + n > dst then copy_down (unat n) (dst + n) (src + n) m
      else copy_up (unat n) dst src m)"

section \<open>Comparison and copying of C strings\<close>

primrec memcmp :: "cptr \<Rightarrow> cptr \<Rightarrow> nat \<Rightarrow> int" where
  "memcmp s1 s2 0 = 0"
| "memcmp s1 s2 (Suc n) =
     (if s1 0 \<noteq> s2 0 then uint (s1 0) - uint (s2 0)
      else memcmp (\<lambda>i. s1 (Suc i)) (\<lambda>i. s2 (Suc i)) n)"

primrec strncmp :: "cptr \<Rightarrow> cptr \<Rightarrow> nat \<Rightarrow> int" where
  "strncmp p q 0 = 0"
| "strncmp p q (Suc n) =
     (if p 0 \<noteq> 0 \<and> p 0 = q 0 then strncmp (\<lambda>i. p (Suc i)) (\<lambda>i. q (Suc i)) n
      else uint (p 0) - uint (q 0))"

primrec strncpy_pad :: "nat \<Rightarrow> nat \<Rightarrow> cptr \<Rightarrow> cptr" where
  "strncpy_pad 0 i s = s"
| "strncpy_pad (Suc n) i s = strncpy_pad n (Suc i) (s(i := 0))"

primrec strncpy_loop :: "nat \<Rightarrow> nat \<Rightarrow> cptr \<Rightarrow> cptr \<Rightarrow> cptr" where
  "strncpy_loop 0 i s t = s"
| "strncpy_loop (Suc n) i s t =
     (if t i \<noteq> 0 then strncpy_loop n (Suc i) (s(i := t i)) t
      else strncpy_pad n (Suc i) (s(i := t i)))"

definition strncpy :: "cptr \<Rightarrow> cptr \<Rightarrow> int \<Rightarrow> cptr" where
  "strncpy s t n = strncpy_loop (nat n) 0 s t"

primrec safestrcpy_loop :: "nat \<Rightarrow> nat \<Rightarrow> cptr \<Rightarrow> cptr \<Rightarrow> cptr" where
  "safestrcpy_loop 0 i s t = s(i := 0)"
| "safestrcpy_loop (Suc n) i s t =
     (if t i \<noteq> 0 then safestrcpy_loop n (Suc i) (s(i := t i)) t
      else s(i := t i, Suc i := 0))"

definition safestrcpy :: "cptr \<Rightarrow> cptr \<Rightarrow> int \<Rightarrow> cptr" where
  "safestrcpy s t n = (if n \<le> 0 then s else safestrcpy_loop (nat n - 1) 0 s t)"

partial_function (option) strlen_loop :: "cptr \<Rightarrow> nat \<Rightarrow> nat option" where
  "strlen_loop s n = (if s n = 0 then Some n else strlen_loop s (n + 1))"

definition kstrlen :: "cptr \<Rightarrow> nat option" where
  "kstrlen s = strlen_loop s 0"

text \<open>The C string at a pointer, cut after \<open>n\<close> bytes: what \<open>strncmp\<close> compares.\<close>

definition cstrn :: "nat \<Rightarrow> cptr \<Rightarrow> uchar list" where
  "cstrn n p = takeWhile (\<lambda>c. c \<noteq> 0) (map p [0..<n])"

section \<open>Lemmas\<close>

lemma unat_minus_Suc: "x \<noteq> a \<Longrightarrow> unat (x - a) = Suc (unat (x - (a + 1 :: uint)))"
proof -
  assume "x \<noteq> a"
  then have "x - a \<noteq> 0" by simp
  then have "unat (x - a - 1) = unat (x - a) - 1" by (rule unat_minus_one)
  moreover have "unat (x - a) \<noteq> 0" using \<open>x - a \<noteq> 0\<close> by (simp only: unat_eq_zero) simp
  moreover have "x - (a + 1) = x - a - 1" by simp
  ultimately show ?thesis by presburger
qed

lemma stosb_eq: "k \<le> 2 ^ 32 \<Longrightarrow> stosb k a c m = (\<lambda>x. if unat (x - a) < k then c else m x)"
proof (induction k arbitrary: a m)
  case 0
  then show ?case by simp
next
  case (Suc k)
  then have IH: "stosb k (a + 1) c (m(a := c)) =
      (\<lambda>x. if unat (x - (a + 1)) < k then c else (m(a := c)) x)" by simp
  show ?case
  proof
    fix x
    show "stosb (Suc k) a c m x = (if unat (x - a) < Suc k then c else m x)"
      by (cases "x = a") (simp_all add: IH unat_minus_Suc)
  qed
qed

lemma put32_stosb:
  assumes "ucast w = c" "ucast (drop_bit 8 w) = c" "ucast (drop_bit 16 w) = c" "ucast (drop_bit 24 w) = c"
  shows "put32 m a w = stosb 4 a c m"
  using assms by (simp add: put32_def eval_nat_numeral algebra_simps)

lemma stosb_add: "stosb (j + k) a c m = stosb k (a + of_nat j) c (stosb j a c m)"
  by (induction j arbitrary: a m) (simp_all add: algebra_simps)

lemma stosl_stosb:
  assumes "ucast w = c" "ucast (drop_bit 8 w) = c" "ucast (drop_bit 16 w) = c" "ucast (drop_bit 24 w) = c"
  shows "stosl k a w m = stosb (4 * k) a c m"
proof (induction k arbitrary: a m)
  case 0
  then show ?case by simp
next
  case (Suc k)
  have "stosb (4 * Suc k) a c m = stosb (4 * k) (a + 4) c (stosb 4 a c m)"
    using stosb_add [of 4 "4 * k" a c m] by simp
  then show ?case using Suc.IH by (simp add: put32_stosb [OF assms])
qed

lemma spread_byte:
  fixes c :: uint
  defines "b \<equiv> and c 0xFF"
  defines "w \<equiv> or (or (or (push_bit 24 b) (push_bit 16 b)) (push_bit 8 b)) b"
  shows "ucast w = (ucast c :: uchar)" "ucast (drop_bit 8 w) = (ucast c :: uchar)"
    "ucast (drop_bit 16 w) = (ucast c :: uchar)" "ucast (drop_bit 24 w) = (ucast c :: uchar)"
proof -
  have ff: "(0xFF :: uint) = mask 8" by (simp add: mask_eq_exp_minus_1)
  note bits = bit_or_iff bit_and_iff bit_push_bit_iff bit_ucast_iff bit_drop_bit_eq bit_mask_iff
    less_diff_conv2
  show "ucast w = (ucast c :: uchar)" "ucast (drop_bit 8 w) = (ucast c :: uchar)"
    "ucast (drop_bit 16 w) = (ucast c :: uchar)" "ucast (drop_bit 24 w) = (ucast c :: uchar)"
    unfolding w_def b_def ff by (rule bit_word_eqI, auto simp: bits)+
qed

text \<open>
  A forward copy reads every source byte before it is overwritten when no byte is stored
  before a later one is read; a backward copy in the mirrored case.
\<close>

lemma copy_up_eq:
  assumes "k \<le> 2 ^ 32" and "\<And>i j. j < i \<Longrightarrow> i < k \<Longrightarrow> s + of_nat i \<noteq> d + of_nat j"
  shows "copy_up k d s m = (\<lambda>a. if unat (a - d) < k then m (s + (a - d)) else m a)"
  using assms
proof (induction k arbitrary: d s m)
  case 0
  then show ?case by simp
next
  case (Suc k)
  let ?m = "m(d := m s)"
  have IH: "copy_up k (d + 1) (s + 1) ?m =
      (\<lambda>a. if unat (a - (d + 1)) < k then ?m (s + 1 + (a - (d + 1))) else ?m a)"
  proof (rule Suc.IH)
    fix i j assume "j < i" "i < k"
    then have "s + of_nat (Suc i) \<noteq> d + of_nat (Suc j)" using Suc.prems(2) by blast
    then show "s + 1 + of_nat i \<noteq> d + 1 + of_nat j" by (simp add: algebra_simps)
  qed (use Suc.prems(1) in simp)
  show ?case
  proof
    fix a
    show "copy_up (Suc k) d s m a = (if unat (a - d) < Suc k then m (s + (a - d)) else m a)"
    proof (cases "a = d")
      case True
      have "s + (d - (d + 1)) + 1 = s" by simp
      then show ?thesis using True Suc.prems(1) by (simp add: IH) 
    next
      case False
      have "s + 1 + (a - (d + 1)) \<noteq> d" if "unat (a - (d + 1)) < k"
      proof -
        have "s + of_nat (Suc (unat (a - (d + 1)))) \<noteq> d + of_nat 0"
          using that Suc.prems(2) [of 0 "Suc (unat (a - (d + 1)))"] by simp
        then show ?thesis by (simp add: algebra_simps)
      qed
      moreover have "s + 1 + (a - (d + 1)) = s + (a - d)" by simp
      ultimately show ?thesis using False by (simp add: IH unat_minus_Suc)
    qed
  qed
qed

lemma copy_down_eq:
  assumes "k \<le> 2 ^ 32" and "\<And>i j. i < j \<Longrightarrow> j < k \<Longrightarrow> s + of_nat i \<noteq> d + of_nat j"
  shows "copy_down k (d + of_nat k) (s + of_nat k) m =
      (\<lambda>a. if unat (a - d) < k then m (s + (a - d)) else m a)"
  using assms
proof (induction k arbitrary: m)
  case 0
  then show ?case by simp
next
  case (Suc k)
  let ?m = "m(d + of_nat k := m (s + of_nat k))"
  have IH: "copy_down k (d + of_nat k) (s + of_nat k) ?m =
      (\<lambda>a. if unat (a - d) < k then ?m (s + (a - d)) else ?m a)"
    using Suc.prems by (intro Suc.IH) auto
  have step: "copy_down (Suc k) (d + of_nat (Suc k)) (s + of_nat (Suc k)) m =
      copy_down k (d + of_nat k) (s + of_nat k) ?m" by simp
  have uk: "unat (of_nat k :: uint) = k" using Suc.prems(1) by (intro unat_of_nat32) simp
  show ?case unfolding step IH
  proof
    fix a
    consider "unat (a - d) < k" | "unat (a - d) = k" | "unat (a - d) > k" by linarith
    then show "(if unat (a - d) < k then ?m (s + (a - d)) else ?m a) =
        (if unat (a - d) < Suc k then m (s + (a - d)) else m a)"
    proof cases
      case 1
      then have "s + of_nat (unat (a - d)) \<noteq> d + of_nat k" using Suc.prems(2) by blast
      with 1 show ?thesis by simp
    next
      case 2
      moreover have "a - d = of_nat (unat (a - d))" by simp
      ultimately have "a - d = of_nat k" by simp
      then have "a = d + of_nat k" by (simp add: diff_eq_eq algebra_simps)
      with 2 show ?thesis by simp
    next
      case 3
      then have "a \<noteq> d + of_nat k" using uk by auto
      with 3 show ?thesis by simp
    qed
  qed
qed

section \<open>Properties\<close>

text \<open>
  memset stores the low byte of its argument at exactly the \<open>n\<close> bytes from \<open>dst\<close> on
  and changes nothing else; the word-wise fast path (aligned destination and size) and the
  byte-wise path have the same effect.
\<close>

theorem memset_correct:
  "memset dst c n m = (\<lambda>a. if unat (a - dst) < unat n then ucast c else m a)"
proof (cases "4 dvd sint dst \<and> unat n mod 4 = 0")
  case True
  have "unat n \<le> 2 ^ 32" by (simp add: less_imp_le)
  moreover have "4 * (unat n div 4) = unat n" using True by auto
  ultimately show ?thesis using True
    unfolding memset_def Let_def stosl_stosb [OF spread_byte] by (simp add: stosb_eq)
next
  case False
  have "unat n \<le> 2 ^ 32" by (simp add: less_imp_le)
  with False show ?thesis unfolding memset_def by (simp only: if_False stosb_eq)
qed

lemma memmove_eq:
  assumes "unat src + unat n < 2 ^ 32" and "unat dst + unat n < 2 ^ 32"
  shows "memmove dst src n m = (\<lambda>a. if unat (a - dst) < unat n then m (src + (a - dst)) else m a)"
proof -
  have k: "unat n \<le> 2 ^ 32" using assms(1) by simp
  have at: "unat (b + of_nat i) = unat b + i" if "unat b + unat n < 2 ^ 32" "i \<le> unat n"
    for b :: uint and i
    using that by (intro unat_add_of_nat32) simp
  show ?thesis
  proof (cases "src < dst \<and> src + n > dst")
    case True
    have "copy_down (unat n) (dst + of_nat (unat n)) (src + of_nat (unat n)) m =
        (\<lambda>a. if unat (a - dst) < unat n then m (src + (a - dst)) else m a)"
    proof (rule copy_down_eq [OF k])
      fix i j assume ij: "i < j" "j < unat n"
      have "unat src < unat dst" using True by (simp add: word_less_nat_alt)
      then have "unat (src + of_nat i) < unat (dst + of_nat j)"
        using ij by (simp add: at [OF assms(1)] at [OF assms(2)])
      then show "src + of_nat i \<noteq> dst + of_nat j" by auto
    qed
    then show ?thesis using True by (simp add: memmove_def)
  next
    case False
    have "copy_up (unat n) dst src m =
        (\<lambda>a. if unat (a - dst) < unat n then m (src + (a - dst)) else m a)"
    proof (rule copy_up_eq [OF k])
      fix i j assume ij: "j < i" "i < unat n"
      have "unat dst \<le> unat src \<or> unat src + unat n \<le> unat dst"
        using False at [OF assms(1), of "unat n"] by (auto simp: word_less_nat_alt not_less)
      then have "unat (src + of_nat i) \<noteq> unat (dst + of_nat j)"
        using ij by (simp add: at [OF assms(1)] at [OF assms(2)]) linarith
      then show "src + of_nat i \<noteq> dst + of_nat j" by auto
    qed
    then show ?thesis using False unfolding memmove_def by (simp only: if_False)
  qed
qed

text \<open>
  C30. memmove leaves in the destination the bytes the source held before the call, however
  the two regions overlap, provided neither region wraps around the end of the address
  space; bytes outside the destination are unchanged.
\<close>

theorem memmove_correct:
  assumes "unat src + unat n < 2 ^ 32" and "unat dst + unat n < 2 ^ 32"
  shows "memmove dst src n m = (\<lambda>a. if unat (a - dst) < unat n then m (src + (a - dst)) else m a)"
  using assms by (rule memmove_eq)

theorem memmove_correct_witness:
  "memmove 0x1001 0x1000 3 (\<lambda>a. ucast a) 0x1002 = 1"
  using memmove_correct [of "0x1000" "3" "0x1001"] by simp


lemma memcmp_eq_0: "memcmp p q n = 0 \<longleftrightarrow> (\<forall>i < n. p i = q i)"
  by (induction n arbitrary: p q) (auto simp: All_less_Suc2 word_uint_eq_iff)

lemma cstrn_Suc: "cstrn (Suc n) p = (if p 0 = 0 then [] else p 0 # cstrn n (\<lambda>i. p (Suc i)))"
proof -
  have "[0..<Suc n] = 0 # map Suc [0..<n]"
    by (simp add: upt_conv_Cons map_Suc_upt del: upt_Suc)
  then have "map p [0..<Suc n] = p 0 # map (\<lambda>i. p (Suc i)) [0..<n]"
    by (simp add: comp_def del: upt_Suc)
  then show ?thesis by (simp add: cstrn_def del: upt_Suc)
qed

lemma cstrn_0 [simp]: "cstrn 0 p = []"
  by (simp add: cstrn_def)

lemma length_cstrn: "length (cstrn n p) \<le> n"
  unfolding cstrn_def by (rule order.trans [OF length_takeWhile_le]) simp

lemma strncmp_eq_0: "strncmp p q n = 0 \<longleftrightarrow> cstrn n p = cstrn n q"
  by (induction n arbitrary: p q) (auto simp: cstrn_Suc word_uint_eq_iff)

lemma strncpy_pad_eq: "strncpy_pad n i s = (\<lambda>j. if i \<le> j \<and> j < i + n then 0 else s j)"
  by (induction n arbitrary: i s) (auto simp: fun_eq_iff)

lemma strncpy_loop_eq:
  assumes "\<forall>k < i. t k \<noteq> 0"
  shows "strncpy_loop n i s t =
    (\<lambda>j. if i \<le> j \<and> j < i + n then (if \<exists>k < j. t k = 0 then 0 else t j) else s j)"
  using assms
proof (induction n arbitrary: i s)
  case 0
  then show ?case by (auto simp: fun_eq_iff)
next
  case (Suc n)
  show ?case
  proof (cases "t i = 0")
    case True
    with Suc.prems have "(\<exists>k < j. t k = 0) \<longleftrightarrow> i < j \<or> (\<exists>k < j. i < k \<and> t k = 0)" for j
      by (metis linorder_neqE_nat)
    with True show ?thesis by (auto simp: fun_eq_iff strncpy_pad_eq)
  next
    case False
    with Suc.prems have "\<forall>k < Suc i. t k \<noteq> 0" by (simp add: less_Suc_eq)
    with False show ?thesis using Suc.prems by (auto simp: fun_eq_iff Suc.IH)
  qed
qed

lemma strncpy_eq:
  "strncpy s t n =
    (\<lambda>j. if j < nat n then (if \<exists>k < j. t k = 0 then 0 else t j) else s j)"
  by (simp add: strncpy_def strncpy_loop_eq)

lemma cstrn_strncpy: "cstrn (nat n) (strncpy s t n) = cstrn (nat n) t"
proof -
  have "cstrn k (\<lambda>j. if j < k then (if \<exists>i < j. t i = 0 then 0 else t j) else s j) = cstrn k t"
    for k s t
  proof (induction k arbitrary: s t)
    case 0
    then show ?case by simp
  next
    case (Suc k)
    show ?case
    proof (cases "t 0 = 0")
      case True
      then show ?thesis by (simp add: cstrn_Suc)
    next
      case False
      have "(\<lambda>j. if Suc j < Suc k then if \<exists>i<Suc j. t i = 0 then 0 else t (Suc j) else s (Suc j)) =
          (\<lambda>j. if j < k then if \<exists>i<j. t (Suc i) = 0 then 0 else t (Suc j) else s (Suc j))"
        using False by (auto simp: fun_eq_iff Ex_less_Suc2)
      with False show ?thesis
        using Suc.IH [of "\<lambda>j. t (Suc j)" "\<lambda>j. s (Suc j)"] by (simp add: cstrn_Suc)
    qed
  qed
  then show ?thesis by (simp add: strncpy_eq)
qed

lemma safestrcpy_loop_spec:
  "cstrn (Suc n) (\<lambda>j. safestrcpy_loop n i s t (i + j)) = cstrn n (\<lambda>j. t (i + j)) \<and>
   (\<exists>j \<le> n. safestrcpy_loop n i s t (i + j) = 0) \<and>
   (\<forall>j < i. safestrcpy_loop n i s t j = s j) \<and>
   (\<forall>j > i + n. safestrcpy_loop n i s t j = s j)"
proof (induction n arbitrary: i s)
  case 0
  then show ?case by (simp add: cstrn_Suc)
next
  case (Suc n)
  show ?case
  proof (cases "t i = 0")
    case True
    then show ?thesis by (auto simp: cstrn_Suc intro: exI [of _ 0])
  next
    case False
    define u where "u = s(i := t i)"
    define r where "r = safestrcpy_loop n (Suc i) u t"
    from Suc.IH [of "Suc i" u]
    have a: "cstrn (Suc n) (\<lambda>j. r (Suc (i + j))) = cstrn n (\<lambda>j. t (Suc (i + j)))"
      and b: "\<exists>j \<le> n. r (Suc (i + j)) = 0" and c: "\<forall>j < Suc i. r j = u j"
      and d: "\<forall>j > Suc i + n. r j = u j"
      by (simp_all add: r_def)
    have "\<exists>j \<le> Suc n. r (i + j) = 0" using b by (metis Suc_le_mono add_Suc_right)
    moreover have "r i = t i" using c by (simp add: u_def)
    moreover have "safestrcpy_loop (Suc n) i s t = r" using False by (simp add: r_def u_def)
    moreover have "\<forall>j < i. r j = s j" "\<forall>j > i + Suc n. r j = s j"
      using c d by (simp_all add: u_def)
    ultimately show ?thesis using False a
      by (simp add: cstrn_Suc [of "Suc n"] cstrn_Suc [of n "\<lambda>j. t (i + j)"])
  qed
qed

lemma strlen_loop_ex: "s (n + k) = 0 \<Longrightarrow> \<forall>j < k. s (n + j) \<noteq> 0 \<Longrightarrow> strlen_loop s n = Some (n + k)"
proof (induction k arbitrary: n)
  case 0
  then show ?case by (subst strlen_loop.simps) simp
next
  case (Suc k)
  have "strlen_loop s (n + 1) = Some (n + 1 + k)"
    using Suc.prems by (intro Suc.IH) auto
  moreover have "s n \<noteq> 0" using Suc.prems(2) by force
  ultimately show ?case by (subst strlen_loop.simps) simp
qed

lemma kstrlen_eq:
  assumes "s n = 0" and "\<forall>j < n. s j \<noteq> 0"
  shows "kstrlen s = Some n"
  using strlen_loop_ex [of s 0 n] assms by (simp add: kstrlen_def)

text \<open>
  safestrcpy with a positive size always leaves a NUL-terminated string in the array:
  the string is the source string cut to \<open>n - 1\<close> bytes, a NUL lies within the first \<open>n\<close>
  bytes, and no byte at or beyond \<open>n\<close> is touched.
\<close>

theorem safestrcpy_terminates_string:
  assumes "0 < n"
  shows "cstrn (nat n) (safestrcpy s t n) = cstrn (nat n - 1) t \<and>
    (\<exists>j < nat n. safestrcpy s t n j = 0) \<and> (\<forall>j \<ge> nat n. safestrcpy s t n j = s j)"
proof -
  obtain k where k: "nat n = Suc k" using assms by (cases "nat n") auto
  then have e: "safestrcpy s t n = safestrcpy_loop k 0 s t" using assms by (simp add: safestrcpy_def)
  from safestrcpy_loop_spec [of k 0 s t] show ?thesis
    unfolding e k by (auto simp: less_Suc_eq_le Suc_le_eq)
qed

theorem safestrcpy_terminates_string_witness:
  "(0 :: int) < 3 \<and> (\<exists>j < nat 3. safestrcpy (\<lambda>_. 7) (\<lambda>_. 9) 3 j = 0)"
  using safestrcpy_terminates_string [of 3 "\<lambda>_. 7" "\<lambda>_. 9"] by simp

end
