(* ===== verification/Kalloc.thy ===== *)
theory Kalloc
  imports Kstring
begin

text \<open>
  The physical page allocator (kalloc.c, with the constants of memlayout.h and mmu.h).
  Free pages are chained through their own first word, so the state is the byte memory
  and the head of the chain. The symbol \<open>end\<close>, placed by the linker script, is a
  parameter. The theory states the allocator's contract as a locale over an abstract
  pool of pages and discharges it for the chained list.
\<close>

section \<open>Constants\<close>

definition PGSIZE :: uint where "PGSIZE = 4096"
definition KERNBASE :: uint where "KERNBASE = 0x80000000"
definition PHYSTOP :: uint where "PHYSTOP = 0xE000000"

definition v2p :: "uint \<Rightarrow> uint" where "v2p a = a - KERNBASE"
definition p2v :: "uint \<Rightarrow> uint" where "p2v a = a + KERNBASE"

definition PGROUNDUP :: "uint \<Rightarrow> uint" where
  "PGROUNDUP sz = and (sz + PGSIZE - 1) (not (PGSIZE - 1))"
definition PGROUNDDOWN :: "uint \<Rightarrow> uint" where
  "PGROUNDDOWN a = and a (not (PGSIZE - 1))"

lemmas mem_consts = PGSIZE_def KERNBASE_def PHYSTOP_def v2p_def p2v_def

section \<open>State and operations\<close>

record kmem_state =
  memory :: mem
  use_lock :: bool
  freelist :: uint

definition kfree :: "uint \<Rightarrow> uint \<Rightarrow> 'x kmem_state_scheme \<Rightarrow> (unit, 'x kmem_state_scheme) kres" where
  "kfree kend v s =
     (if v mod PGSIZE \<noteq> 0 \<or> v < kend \<or> v2p v \<ge> PHYSTOP then Panic ''kfree''
      else let m = memset v 1 PGSIZE (memory s)
           in Done () (s\<lparr>memory := put32 m v (freelist s), freelist := v\<rparr>))"

definition kalloc :: "'x kmem_state_scheme \<Rightarrow> uint \<times> 'x kmem_state_scheme" where
  "kalloc s =
     (let r = freelist s
      in (r, if r \<noteq> 0 then s\<lparr>freelist := get32 (memory s) r\<rparr> else s))"

lemma kfree_DoneD:
  assumes "kfree kend v s = Done a t"
  shows "v mod PGSIZE = 0" "kend \<le> v" "v2p v < PHYSTOP"
  using assms by (auto simp: kfree_def split: if_splits)

text \<open>A page \<open>kfree\<close> accepts is below \<open>KERNBASE + PHYSTOP\<close>, so the next page address does not wrap.\<close>

lemma v2p_bound:
  assumes "v2p v < PHYSTOP"
  shows "0x80000000 \<le> unat v" "unat v < 0x8E000000"
proof -
  have "unat (v2p v) < 0xE000000" using assms by (simp add: PHYSTOP_def word_less_nat_alt)
  moreover have "unat (v2p v + KERNBASE) = (unat (v2p v) + 0x80000000) mod 2 ^ 32"
    by (simp only: unat_add_mod32) (simp add: KERNBASE_def)
  moreover have "v2p v + KERNBASE = v" by (simp add: v2p_def)
  ultimately show "0x80000000 \<le> unat v" "unat v < 0x8E000000" by simp_all
qed

function freerange_loop :: "uint \<Rightarrow> uint \<Rightarrow> uint \<Rightarrow> 'x kmem_state_scheme \<Rightarrow> (unit, 'x kmem_state_scheme) kres" where
  "freerange_loop kend p vend s =
     (if p + PGSIZE \<le> vend
      then kbind (kfree kend p s) (\<lambda>_ s'. freerange_loop kend (p + PGSIZE) vend s')
      else Done () s)"
  by pat_completeness auto
termination
proof (relation "measure (\<lambda>(kend, p, vend, s). 2 ^ 32 - unat p)")
  fix kend p vend :: uint and s s' :: "'x kmem_state_scheme" and u
  assume "kfree kend p s = Done u s'"
  then have "unat p < 0x8E000000" by (intro v2p_bound kfree_DoneD)
  then show "((kend, p + PGSIZE, vend, s'), kend, p, vend, s) \<in> measure (\<lambda>(kend, p, vend, s). 2 ^ 32 - unat p)"
    by (simp add: PGSIZE_def unat_word_ariths)
qed simp

declare freerange_loop.simps [simp del]

definition freerange :: "uint \<Rightarrow> uint \<Rightarrow> uint \<Rightarrow> 'x kmem_state_scheme \<Rightarrow> (unit, 'x kmem_state_scheme) kres" where
  "freerange kend vstart vend s = freerange_loop kend (PGROUNDUP vstart) vend s"

definition kinit1 :: "uint \<Rightarrow> uint \<Rightarrow> uint \<Rightarrow> 'x kmem_state_scheme \<Rightarrow> (unit, 'x kmem_state_scheme) kres" where
  "kinit1 kend vstart vend s = freerange kend vstart vend (s\<lparr>use_lock := False\<rparr>)"

definition kinit2 :: "uint \<Rightarrow> uint \<Rightarrow> uint \<Rightarrow> 'x kmem_state_scheme \<Rightarrow> (unit, 'x kmem_state_scheme) kres" where
  "kinit2 kend vstart vend s =
     kbind (freerange kend vstart vend s) (\<lambda>_ s'. Done () (s'\<lparr>use_lock := True\<rparr>))"

section \<open>The chain of free pages\<close>

definition page_ok :: "uint \<Rightarrow> uint \<Rightarrow> bool" where
  "page_ok kend v \<longleftrightarrow> v mod PGSIZE = 0 \<and> kend \<le> v \<and> v2p v < PHYSTOP"

definition in_page :: "uint \<Rightarrow> uint \<Rightarrow> bool" where
  "in_page v a \<longleftrightarrow> unat (a - v) < 4096"

primrec chain :: "mem \<Rightarrow> uint \<Rightarrow> uint list \<Rightarrow> bool" where
  "chain m p [] \<longleftrightarrow> p = 0"
| "chain m p (x # xs) \<longleftrightarrow> p = x \<and> chain m (get32 m x) xs"

definition kmem_rep :: "uint \<Rightarrow> 'x kmem_state_scheme \<Rightarrow> uint list \<Rightarrow> bool" where
  "kmem_rep kend s xs \<longleftrightarrow>
     chain (memory s) (freelist s) xs \<and> distinct xs \<and> (\<forall>x \<in> set xs. page_ok kend x)"

lemma page_ok_unat:
  assumes "page_ok kend v"
  shows "unat v mod 4096 = 0" "0x80000000 \<le> unat v" "unat v < 0x8E000000" "v \<noteq> 0"
proof -
  have "v2p v < PHYSTOP" using assms by (simp add: page_ok_def)
  note b = v2p_bound [OF this]
  show "0x80000000 \<le> unat v" "unat v < 0x8E000000" by (fact b)+
  show "v \<noteq> 0" using b(1) by auto
  have "unat (v mod PGSIZE) = 0" using assms by (simp add: page_ok_def)
  then show "unat v mod 4096 = 0" by (simp add: PGSIZE_def unat_mod)
qed

lemma in_page_div:
  assumes "page_ok kend v" and "in_page v a"
  shows "unat a div 4096 = unat v div 4096"
proof -
  note v = page_ok_unat [OF assms(1)]
  have "a = v + (a - v)" by simp
  then have "unat a = unat v + unat (a - v)"
    using v(3) assms(2) unat_add32 [of v "a - v"] by (simp add: in_page_def)
  moreover have "unat v = 4096 * (unat v div 4096)" using v(1) by auto
  ultimately show ?thesis using assms(2) by (simp add: in_page_def)
qed

lemma pages_disjoint:
  assumes "page_ok kend v" "page_ok kend w" "in_page v a" "in_page w a"
  shows "v = w"
proof -
  have "unat v div 4096 = unat w div 4096"
    using in_page_div [OF assms(1,3)] in_page_div [OF assms(2,4)] by simp
  moreover have "unat v = 4096 * (unat v div 4096)" "unat w = 4096 * (unat w div 4096)"
    using page_ok_unat(1) [OF assms(1)] page_ok_unat(1) [OF assms(2)] by auto
  ultimately have "unat v = unat w" by simp
  then show ?thesis by (simp add: word_unat_eq_iff)
qed

lemma in_page_first: "in_page v v" "in_page v (v + 1)" "in_page v (v + 2)" "in_page v (v + 3)"
  by (simp_all add: in_page_def)

lemma chain_cong: "(\<And>x. x \<in> set xs \<Longrightarrow> get32 m' x = get32 m x) \<Longrightarrow> chain m' p xs = chain m p xs"
  by (induction xs arbitrary: p) auto

text \<open>Freeing writes the freed page only.\<close>

lemma kfree_frame:
  assumes "kfree kend v s = Done u t" and "\<not> in_page v a"
  shows "memory t a = memory s a"
  using assms
  by (auto simp: kfree_def Let_def memset_correct in_page_def PGSIZE_def put32_other split: if_splits)

lemma get32_other_page:
  assumes "page_ok kend x" "page_ok kend v" "x \<noteq> v" "kfree kend v s = Done u t"
  shows "get32 (memory t) x = get32 (memory s) x"
proof -
  have "memory t a = memory s a" if "in_page x a" for a
    using kfree_frame [OF assms(4)] pages_disjoint [OF assms(1,2) that] assms(3) by blast
  then show ?thesis by (intro get32_cong) (simp_all add: in_page_first)
qed

lemma kfree_ok:
  assumes rep: "kmem_rep kend s xs" and ok: "page_ok kend v" and fresh: "v \<notin> set xs"
  shows "\<exists>t. kfree kend v s = Done () t \<and> kmem_rep kend t (v # xs)"
proof -
  define t where "t = s\<lparr>memory := put32 (memset v 1 PGSIZE (memory s)) v (freelist s), freelist := v\<rparr>"
  have d: "kfree kend v s = Done () t"
    using ok by (auto simp: kfree_def page_ok_def Let_def t_def)
  have "get32 (memory t) x = get32 (memory s) x" if "x \<in> set xs" for x
    using that rep ok fresh d by (intro get32_other_page [of kend]) (auto simp: kmem_rep_def)
  then have "chain (memory t) (freelist s) xs"
    using rep chain_cong [of xs "memory t" "memory s" "freelist s"] by (simp add: kmem_rep_def)
  then show ?thesis
    using rep ok fresh d by (intro exI [of _ t]) (simp add: kmem_rep_def t_def)
qed

lemma kalloc_ok:
  assumes "kmem_rep kend s xs"
  shows "kalloc s = (case xs of [] \<Rightarrow> (0, s) | x # _ \<Rightarrow> (x, s\<lparr>freelist := get32 (memory s) x\<rparr>))"
    and "kmem_rep kend (snd (kalloc s)) (tl xs)"
proof -
  have "freelist s \<noteq> 0" if "xs = x # ys" for x ys
    using assms that page_ok_unat(4) by (auto simp: kmem_rep_def)
  then show "kalloc s = (case xs of [] \<Rightarrow> (0, s) | x # _ \<Rightarrow> (x, s\<lparr>freelist := get32 (memory s) x\<rparr>))"
    and "kmem_rep kend (snd (kalloc s)) (tl xs)"
    using assms by (cases xs; auto simp: kalloc_def kmem_rep_def Let_def)+
qed

section \<open>The contract of a page pool\<close>

text \<open>\<open>n\<close> allocations in a row, and the pages they return.\<close>

primrec take_pages :: "('s \<Rightarrow> uint \<times> 's) \<Rightarrow> nat \<Rightarrow> 's \<Rightarrow> uint list \<times> 's" where
  "take_pages alloc 0 s = ([], s)"
| "take_pages alloc (Suc n) s =
     (let (x, t) = alloc s; (xs, u) = take_pages alloc n t in (x # xs, u))"

locale page_pool =
  fixes alloc :: "'s \<Rightarrow> uint \<times> 's"
    and free :: "uint \<Rightarrow> 's \<Rightarrow> (unit, 's) kres"
    and rep :: "'s \<Rightarrow> uint list \<Rightarrow> bool"
    and ok :: "uint \<Rightarrow> bool"
  assumes alloc_empty: "rep s [] \<Longrightarrow> alloc s = (0, s)"
    and alloc_page: "rep s (x # xs) \<Longrightarrow> \<exists>t. alloc s = (x, t) \<and> rep t xs"
    and free_page: "rep s xs \<Longrightarrow> ok v \<Longrightarrow> v \<notin> set xs \<Longrightarrow> \<exists>t. free v s = Done () t \<and> rep t (v # xs)"
    and free_bad: "\<not> ok v \<Longrightarrow> \<exists>msg. free v s = Panic msg"
    and rep_distinct: "rep s xs \<Longrightarrow> distinct xs"
    and rep_ok: "rep s xs \<Longrightarrow> x \<in> set xs \<Longrightarrow> ok x"
    and null_not_ok: "\<not> ok 0"
begin

lemma alloc_null_iff: "rep s xs \<Longrightarrow> fst (alloc s) = 0 \<longleftrightarrow> xs = []"
proof (cases xs)
  case (Cons x ys)
  assume r: "rep s xs"
  then have "ok x" using rep_ok Cons by simp
  moreover obtain t where "alloc s = (x, t)" using alloc_page r Cons by blast
  ultimately show ?thesis using null_not_ok Cons by auto
qed (simp add: alloc_empty)

lemma take_pages_rep:
  "rep s xs \<Longrightarrow> n \<le> length xs \<Longrightarrow> \<exists>t. take_pages alloc n s = (take n xs, t) \<and> rep t (drop n xs)"
proof (induction n arbitrary: s xs)
  case 0
  then show ?case by simp
next
  case (Suc n)
  then obtain x ys where xs: "xs = x # ys" by (cases xs) auto
  with Suc.prems obtain t where t: "alloc s = (x, t)" "rep t ys" using alloc_page by blast
  with Suc.IH [of t ys] Suc.prems xs show ?case by auto
qed

lemma take_pages_distinct:
  assumes "rep s xs" "n \<le> length xs" "take_pages alloc n s = (ps, t)"
  shows "distinct ps" "\<forall>p \<in> set ps. ok p" "\<exists>ys. rep t ys \<and> set ps \<inter> set ys = {} \<and> length ys = length xs - n"
proof -
  obtain u where "take_pages alloc n s = (take n xs, u)" "rep u (drop n xs)"
    using take_pages_rep [OF assms(1,2)] by blast
  then have e: "ps = take n xs" "rep t (drop n xs)" using assms(3) by auto
  have d: "distinct (take n xs @ drop n xs)" using rep_distinct [OF assms(1)] by simp
  then show "distinct ps" using e(1) by simp
  show "\<forall>p \<in> set ps. ok p" using e(1) rep_ok [OF assms(1)] in_set_takeD by fastforce
  show "\<exists>ys. rep t ys \<and> set ps \<inter> set ys = {} \<and> length ys = length xs - n"
    using e d by (intro exI [of _ "drop n xs"]) (simp only: distinct_append length_drop)
qed

lemma alloc_after_free:
  assumes "rep s xs" "ok v" "v \<notin> set xs"
  shows "\<exists>t u. free v s = Done () t \<and> alloc t = (v, u) \<and> rep u xs"
  using free_page [OF assms] alloc_page by blast

end

interpretation kpool: page_pool kalloc "kfree kend" "kmem_rep kend" "page_ok kend"
proof (unfold_locales, goal_cases)
  case (1 s)
  then show ?case using kalloc_ok(1) by fastforce
next
  case (2 s x xs)
  then show ?case using kalloc_ok [OF 2] by (intro exI [of _ "snd (kalloc s)"]) auto
next
  case (3 s xs v)
  then show ?case by (rule kfree_ok)
next
  case (4 v s)
  then have "v mod PGSIZE \<noteq> 0 \<or> v < kend \<or> v2p v \<ge> PHYSTOP"
    unfolding page_ok_def by (simp only: de_Morgan_conj not_le not_less) 
  then show ?case by (simp only: kfree_def if_True) blast
next
  case (5 s xs)
  then show ?case by (simp add: kmem_rep_def)
next
  case (6 s xs x)
  then show ?case by (simp add: kmem_rep_def)
next
  case 7
  then show ?case using page_ok_unat(4) by blast
qed


section \<open>Initialisation\<close>

text \<open>The pages of a region, in the order \<open>freerange\<close> visits them.\<close>

definition pages :: "uint \<Rightarrow> nat \<Rightarrow> uint list" where
  "pages p n = map (\<lambda>i. p + of_nat i * PGSIZE) [0..<n]"

lemma pages_Suc: "pages p (Suc n) = p # pages (p + PGSIZE) n"
proof -
  have "[0..<Suc n] = 0 # map Suc [0..<n]" by (simp add: upt_conv_Cons map_Suc_upt del: upt_Suc)
  then show ?thesis by (simp add: pages_def algebra_simps del: upt_Suc)
qed

lemma pages_two: "pages p 2 = [p, p + PGSIZE]"
  by (simp add: pages_def numeral_2_eq_2)

lemma page_ok_nth:
  assumes "unat p mod 4096 = 0" "0x80000000 \<le> unat p" "kend \<le> p" "unat p + 4096 \<le> 0x8E000000"
  shows "page_ok kend p"
proof -
  have "unat (p mod PGSIZE) = 0" using assms(1) by (simp add: PGSIZE_def unat_mod)
  moreover have "unat (v2p p) = unat p - 0x80000000"
    using assms(2) by (simp add: v2p_def KERNBASE_def unat_sub word_le_nat_alt)
  ultimately show ?thesis
    using assms by (simp add: page_ok_def PHYSTOP_def word_less_nat_alt unat_eq_zero del: unat_mod)
qed

lemma freerange_loop_ok:
  assumes "kmem_rep kend s xs" "unat p mod 4096 = 0" "0x80000000 \<le> unat p" "kend \<le> p"
    "unat vend \<le> 0x8E000000" "unat vend = unat p + n * 4096 + r" "r < 4096"
    "\<forall>x \<in> set xs. unat x < unat p"
  shows "\<exists>t. freerange_loop kend p vend s = Done () t \<and> kmem_rep kend t (rev (pages p n) @ xs)
    \<and> use_lock t = use_lock s"
  using assms
proof (induction n arbitrary: p s xs)
  case 0
  then have "\<not> p + PGSIZE \<le> vend" by (simp add: PGSIZE_def word_le_nat_alt unat_word_ariths)
  with 0 show ?case by (subst freerange_loop.simps) (simp add: pages_def)
next
  case (Suc n)
  have p4: "unat (p + PGSIZE) = unat p + 4096"
    using Suc.prems by (simp add: PGSIZE_def unat_word_ariths)
  have ok: "page_ok kend p" using Suc.prems by (intro page_ok_nth) simp_all
  have "p \<notin> set xs" using Suc.prems(8) by auto
  then obtain t where t: "kfree kend p s = Done () t" "kmem_rep kend t (p # xs)"
    using kfree_ok [OF Suc.prems(1) ok] by blast
  have lock: "use_lock t = use_lock s" using t(1) by (auto simp: kfree_def Let_def split: if_splits)
  have "p + PGSIZE \<le> vend" using Suc.prems by (simp add: word_le_nat_alt p4)
  moreover have "kend \<le> p + PGSIZE" using Suc.prems(4) p4 by (simp add: word_le_nat_alt)
  then have "\<exists>u. freerange_loop kend (p + PGSIZE) vend t = Done () u \<and>
      kmem_rep kend u (rev (pages (p + PGSIZE) n) @ p # xs) \<and> use_lock u = use_lock t"
    using Suc.prems t(2) by (intro Suc.IH) (auto simp: p4)
  ultimately show ?case using t lock by (subst freerange_loop.simps) (auto simp: pages_Suc)
qed

section \<open>Properties\<close>

text \<open>
  C33. The allocator never hands out a page twice: \<open>n\<close> successive calls of kalloc, when at
  least \<open>n\<close> pages are free, return \<open>n\<close> distinct page-aligned addresses between the end of the
  kernel and PHYSTOP, and none of them is still on the free list.
\<close>

theorem kalloc_distinct_pages:
  assumes "kmem_rep kend s xs" and "n \<le> length xs" and "take_pages kalloc n s = (ps, t)"
  shows "distinct ps \<and> (\<forall>p \<in> set ps. page_ok kend p) \<and>
    (\<exists>ys. kmem_rep kend t ys \<and> set ps \<inter> set ys = {} \<and> length ys = length xs - n)"
  using kpool.take_pages_distinct [OF assms] by blast

definition one_free_page :: kmem_state where
  "one_free_page = \<lparr>memory = (\<lambda>_. 0), use_lock = True, freelist = 0x80400000\<rparr>"

lemma one_free_page_rep: "kmem_rep 0x80100000 one_free_page [0x80400000]"
  by (simp add: kmem_rep_def one_free_page_def page_ok_def mem_consts get32_def)

theorem kalloc_distinct_pages_witness:
  "kmem_rep 0x80100000 one_free_page [0x80400000] \<and>
   fst (take_pages kalloc 1 one_free_page) = [0x80400000] \<and> page_ok 0x80100000 0x80400000"
  using kalloc_distinct_pages [OF one_free_page_rep, of 1 "[0x80400000]" "snd (kalloc one_free_page)"]
    one_free_page_rep
  by (simp add: kalloc_def one_free_page_def)

text \<open>
  Freeing a valid page that is not free makes it the next page allocated, and restores
  the free list; freeing an unaligned address, one below the end of the kernel or one at or
  above PHYSTOP panics.
\<close>

theorem kfree_then_kalloc:
  assumes "kmem_rep kend s xs" and "v \<notin> set xs"
  shows "if page_ok kend v
    then \<exists>t u. kfree kend v s = Done () t \<and> kalloc t = (v, u) \<and> kmem_rep kend u xs
    else kfree kend v s = Panic ''kfree''"
proof (cases "page_ok kend v")
  case True
  then show ?thesis using kpool.alloc_after_free [OF assms(1) True assms(2)] by simp
next
  case False
  then obtain msg where "kfree kend v s = Panic msg" using kpool.free_bad by blast
  then have "kfree kend v s = Panic ''kfree''" by (auto simp: kfree_def Let_def split: if_splits)
  with False show ?thesis by simp
qed

theorem kfree_then_kalloc_witness:
  "(\<exists>t u. kfree 0x80100000 0x80402000 one_free_page = Done () t \<and> kalloc t = (0x80402000, u)) \<and>
   kfree 0x80100000 0x80402004 one_free_page = Panic ''kfree''"
  using kfree_then_kalloc [OF one_free_page_rep, of "0x80402000"]
    kfree_then_kalloc [OF one_free_page_rep, of "0x80402004"]
  by (auto simp: page_ok_def mem_consts)

text \<open>
  Initialising the allocator with a region above the kernel and below PHYSTOP puts every
  whole page of the region, and nothing else, on the free list.
\<close>

theorem kinit1_frees_whole_pages:
  assumes "freelist s = 0" and "unat vstart + 4095 < 2 ^ 32" and "kend \<le> vstart"
    and "0x80000000 \<le> unat vstart" and "PGROUNDUP vstart \<le> vend" and "unat vend \<le> 0x8E000000"
  shows "\<exists>t. kinit1 kend vstart vend s = Done () t \<and>
    kmem_rep kend t (rev (pages (PGROUNDUP vstart) ((unat vend - unat (PGROUNDUP vstart)) div 4096)))"
proof -
  let ?p = "PGROUNDUP vstart" and ?s = "s\<lparr>use_lock := False\<rparr>"
  have "unat (vstart + 4095) = unat vstart + 4095" using assms(2) by (simp add: unat_word_ariths)
  moreover have "vstart + PGSIZE - 1 = vstart + 4095" by (simp add: PGSIZE_def)
  ultimately have up: "unat ?p = (unat vstart + 4095) div 4096 * 4096"
    by (simp add: PGROUNDUP_def PGSIZE_def unat_page_round_neg add.commute)
  then have ge: "unat vstart \<le> unat ?p" by simp
  have "unat ?p \<le> unat vend" using assms(5) by (simp add: word_le_nat_alt)
  then have "unat vend = unat ?p + (unat vend - unat ?p) div 4096 * 4096 + (unat vend - unat ?p) mod 4096"
    by simp
  moreover have "kmem_rep kend ?s []" using assms(1) by (simp add: kmem_rep_def)
  ultimately have "\<exists>t. freerange_loop kend ?p vend ?s = Done () t \<and>
      kmem_rep kend t (rev (pages ?p ((unat vend - unat ?p) div 4096)) @ []) \<and> use_lock t = use_lock ?s"
    using assms up ge
    by (intro freerange_loop_ok [where r = "(unat vend - unat ?p) mod 4096"]) (auto simp: word_le_nat_alt)
  then show ?thesis by (auto simp: kinit1_def freerange_def)
qed

theorem kinit1_frees_whole_pages_witness:
  "\<exists>t. kinit1 0x80100000 0x80400123 0x80403000 \<lparr>memory = (\<lambda>_. 0), use_lock = True, freelist = 0\<rparr> = Done () t
     \<and> kmem_rep 0x80100000 t [0x80402000, 0x80401000]"
  using kinit1_frees_whole_pages
    [of "\<lparr>memory = (\<lambda>_. 0), use_lock = True, freelist = 0\<rparr>" "0x80400123" "0x80100000" "0x80403000"]
  by (simp add: PGROUNDUP_def PGSIZE_def pages_two)

end
