(* ===== verification/Vm.thy ===== *)
theory Vm
  imports Kalloc
begin

text \<open>
  Page tables (vm.c with mmu.h and memlayout.h). A page directory and its page tables are
  pages of the byte memory: entries are read and written as 32-bit words at their kernel
  addresses, and pages come from and go back to the allocator of \<open>Kalloc\<close>. The linker
  symbol \<open>data\<close> is a parameter (\<open>kdata\<close>), like \<open>end\<close>. The
  segment descriptors (seginit) are not modelled; switchuvm and switchkvm are in \<open>Ptable\<close>.
\<close>

section \<open>Entries and indices\<close>

definition EXTMEM :: uint where "EXTMEM = 0x100000"
definition DEVSPACE :: uint where "DEVSPACE = 0xFE000000"
definition KERNLINK :: uint where "KERNLINK = KERNBASE + EXTMEM"

definition PTE_P :: uint where "PTE_P = 1"
definition PTE_W :: uint where "PTE_W = 2"
definition PTE_U :: uint where "PTE_U = 4"

definition PDX :: "uint \<Rightarrow> uint" where "PDX va = and (drop_bit 22 va) 0x3FF"
definition PTX :: "uint \<Rightarrow> uint" where "PTX va = and (drop_bit 12 va) 0x3FF"

definition PTE_ADDR :: "uint \<Rightarrow> uint" where "PTE_ADDR pte = and pte (not 0xFFF)"
definition PTE_FLAGS :: "uint \<Rightarrow> uint" where "PTE_FLAGS pte = and pte 0xFFF"

definition pte_present :: "uint \<Rightarrow> bool" where "pte_present pte \<longleftrightarrow> and pte PTE_P \<noteq> 0"

section \<open>Walking and mapping\<close>

definition walkpgdir :: "uint \<Rightarrow> uint \<Rightarrow> bool \<Rightarrow> 'x kmem_state_scheme \<Rightarrow> uint \<times> 'x kmem_state_scheme" where
  "walkpgdir pgdir va alloc s =
     (let pde = pgdir + 4 * PDX va;
          e = get32 (memory s) pde
      in if pte_present e then (p2v (PTE_ADDR e) + 4 * PTX va, s)
         else if \<not> alloc then (0, s)
         else let (pgtab, s1) = kalloc s
              in if pgtab = 0 then (0, s1)
                 else let m = memset pgtab 0 PGSIZE (memory s1);
                          m' = put32 m pde (or (or (or (v2p pgtab) PTE_P) PTE_W) PTE_U)
                      in (pgtab + 4 * PTX va, s1\<lparr>memory := m'\<rparr>))"

text \<open>
  The loop of mappages leaves when \<open>a == last\<close>; both are page aligned, so it runs
  \<open>(last - a) / PGSIZE\<close> more times after the first, which is the counter here.
\<close>

primrec mappages_loop :: "nat \<Rightarrow> uint \<Rightarrow> uint \<Rightarrow> uint \<Rightarrow> uint \<Rightarrow> 'x kmem_state_scheme
    \<Rightarrow> (int, 'x kmem_state_scheme) kres" where
  "mappages_loop 0 pgdir a pa perm s =
     (let (pte, s1) = walkpgdir pgdir a True s
      in if pte = 0 then Done (-1) s1
         else if pte_present (get32 (memory s1) pte) then Panic ''remap''
         else Done 0 (s1\<lparr>memory := put32 (memory s1) pte (or (or pa perm) PTE_P)\<rparr>))"
| "mappages_loop (Suc n) pgdir a pa perm s =
     (let (pte, s1) = walkpgdir pgdir a True s
      in if pte = 0 then Done (-1) s1
         else if pte_present (get32 (memory s1) pte) then Panic ''remap''
         else mappages_loop n pgdir (a + PGSIZE) (pa + PGSIZE) perm
                (s1\<lparr>memory := put32 (memory s1) pte (or (or pa perm) PTE_P)\<rparr>))"

definition mappages :: "uint \<Rightarrow> uint \<Rightarrow> uint \<Rightarrow> uint \<Rightarrow> uint \<Rightarrow> 'x kmem_state_scheme
    \<Rightarrow> (int, 'x kmem_state_scheme) kres" where
  "mappages pgdir va sz pa perm s =
     (let a = PGROUNDDOWN va;
          lst = PGROUNDDOWN (va + sz - 1)
      in mappages_loop (unat (lst - a) div 4096) pgdir a pa perm s)"

definition kmap :: "uint \<Rightarrow> (uint \<times> uint \<times> uint \<times> uint) list" where
  "kmap kdata =
     [(KERNBASE, 0, EXTMEM, PTE_W),
      (KERNLINK, v2p KERNLINK, v2p kdata, 0),
      (kdata, v2p kdata, PHYSTOP, PTE_W),
      (DEVSPACE, DEVSPACE, 0, PTE_W)]"

fun map_kmap :: "uint \<Rightarrow> (uint \<times> uint \<times> uint \<times> uint) list \<Rightarrow> 'x kmem_state_scheme
    \<Rightarrow> (uint, 'x kmem_state_scheme) kres" where
  "map_kmap pgdir [] s = Done pgdir s"
| "map_kmap pgdir ((virt, phys_start, phys_end, perm) # ks) s =
     kbind (mappages pgdir virt (phys_end - phys_start) phys_start perm s)
       (\<lambda>r s1. if r < 0 then Done 0 s1 else map_kmap pgdir ks s1)"

definition setupkvm :: "uint \<Rightarrow> 'x kmem_state_scheme \<Rightarrow> (uint, 'x kmem_state_scheme) kres" where
  "setupkvm kdata s =
     (let (pgdir, s1) = kalloc s
      in if pgdir = 0 then Done 0 s1
         else let s2 = s1\<lparr>memory := memset pgdir 0 PGSIZE (memory s1)\<rparr>
              in if p2v PHYSTOP > DEVSPACE then Panic ''PHYSTOP too high''
                 else map_kmap pgdir (kmap kdata) s2)"

section \<open>Growing, shrinking and freeing an address space\<close>

text \<open>
  The loop of deallocuvm visits at most one page per \<open>PGSIZE\<close> of \<open>oldsz\<close>; the first
  argument bounds the iterations. A missing page table makes it step
  \<open>NPTENTRIES\<close> pages at once.
\<close>

primrec deallocuvm_loop :: "nat \<Rightarrow> uint \<Rightarrow> uint \<Rightarrow> uint \<Rightarrow> uint \<Rightarrow> 'x kmem_state_scheme
    \<Rightarrow> (unit, 'x kmem_state_scheme) kres" where
  "deallocuvm_loop 0 kend pgdir a oldsz s = Done () s"
| "deallocuvm_loop (Suc n) kend pgdir a oldsz s =
     (if a < oldsz then
        let (pte, s1) = walkpgdir pgdir a False s
        in if pte = 0 then deallocuvm_loop n kend pgdir (a + 1023 * PGSIZE + PGSIZE) oldsz s1
           else let e = get32 (memory s1) pte
                in if pte_present e then
                     (let pa = PTE_ADDR e
                      in if pa = 0 then Panic ''kfree''
                         else kbind (kfree kend (p2v pa) s1)
                           (\<lambda>_ s2. deallocuvm_loop n kend pgdir (a + PGSIZE) oldsz
                                     (s2\<lparr>memory := put32 (memory s2) pte 0\<rparr>)))
                   else deallocuvm_loop n kend pgdir (a + PGSIZE) oldsz s1
      else Done () s)"

definition deallocuvm :: "uint \<Rightarrow> uint \<Rightarrow> uint \<Rightarrow> uint \<Rightarrow> 'x kmem_state_scheme
    \<Rightarrow> (uint, 'x kmem_state_scheme) kres" where
  "deallocuvm kend pgdir oldsz newsz s =
     (if newsz \<ge> oldsz then Done oldsz s
      else kbind (deallocuvm_loop (unat oldsz div 4096 + 1) kend pgdir (PGROUNDUP newsz) oldsz s)
             (\<lambda>_ s1. Done newsz s1))"

text \<open>allocuvm runs once per page of \<open>[PGROUNDUP(oldsz), newsz)\<close>; the result of mappages is dropped.\<close>

primrec allocuvm_loop :: "nat \<Rightarrow> uint \<Rightarrow> uint \<Rightarrow> uint \<Rightarrow> uint \<Rightarrow> uint \<Rightarrow> 'x kmem_state_scheme
    \<Rightarrow> (uint, 'x kmem_state_scheme) kres" where
  "allocuvm_loop 0 kend pgdir a oldsz newsz s = Done newsz s"
| "allocuvm_loop (Suc n) kend pgdir a oldsz newsz s =
     (let (mem, s1) = kalloc s
      in if mem = 0 then kbind (deallocuvm kend pgdir newsz oldsz s1) (\<lambda>_ s2. Done 0 s2)
         else let s2 = s1\<lparr>memory := memset mem 0 PGSIZE (memory s1)\<rparr>
              in kbind (mappages pgdir a PGSIZE (v2p mem) (or PTE_W PTE_U) s2)
                   (\<lambda>_ s3. allocuvm_loop n kend pgdir (a + PGSIZE) oldsz newsz s3))"

definition allocuvm :: "uint \<Rightarrow> uint \<Rightarrow> uint \<Rightarrow> uint \<Rightarrow> 'x kmem_state_scheme
    \<Rightarrow> (uint, 'x kmem_state_scheme) kres" where
  "allocuvm kend pgdir oldsz newsz s =
     (if newsz \<ge> KERNBASE then Done 0 s
      else if newsz < oldsz then Done oldsz s
      else let a = PGROUNDUP oldsz
           in allocuvm_loop (if a < newsz then (unat (newsz - a) + 4095) div 4096 else 0)
                kend pgdir a oldsz newsz s)"

primrec free_tables :: "nat \<Rightarrow> uint \<Rightarrow> uint \<Rightarrow> 'x kmem_state_scheme \<Rightarrow> (unit, 'x kmem_state_scheme) kres" where
  "free_tables 0 kend pgdir s = Done () s"
| "free_tables (Suc n) kend pgdir s =
     (let e = get32 (memory s) (pgdir + 4 * of_nat (1023 - n))
      in if pte_present e
         then kbind (kfree kend (p2v (PTE_ADDR e)) s) (\<lambda>_ s1. free_tables n kend pgdir s1)
         else free_tables n kend pgdir s)"

definition freevm :: "uint \<Rightarrow> uint \<Rightarrow> 'x kmem_state_scheme \<Rightarrow> (unit, 'x kmem_state_scheme) kres" where
  "freevm kend pgdir s =
     (if pgdir = 0 then Panic ''freevm: no pgdir''
      else kbind (deallocuvm kend pgdir KERNBASE 0 s)
        (\<lambda>_ s1. kbind (free_tables 1024 kend pgdir s1)
          (\<lambda>_ s2. kfree kend pgdir s2)))"

definition clearpteu :: "uint \<Rightarrow> uint \<Rightarrow> 'x kmem_state_scheme \<Rightarrow> (unit, 'x kmem_state_scheme) kres" where
  "clearpteu pgdir uva s =
     (let (pte, s1) = walkpgdir pgdir uva False s
      in if pte = 0 then Panic ''clearpteu''
         else Done () (s1\<lparr>memory := put32 (memory s1) pte (and (get32 (memory s1) pte) (not PTE_U))\<rparr>))"

section \<open>Copying\<close>

text \<open>copyuvm runs once per page of \<open>[0, sz)\<close>.\<close>

primrec copyuvm_loop :: "nat \<Rightarrow> uint \<Rightarrow> uint \<Rightarrow> uint \<Rightarrow> uint \<Rightarrow> 'x kmem_state_scheme
    \<Rightarrow> (uint, 'x kmem_state_scheme) kres" where
  "copyuvm_loop 0 kend d pgdir i s = Done d s"
| "copyuvm_loop (Suc n) kend d pgdir i s =
     (let (pte, s1) = walkpgdir pgdir i False s
      in if pte = 0 then Panic ''copyuvm: pte should exist''
         else let e = get32 (memory s1) pte
              in if \<not> pte_present e then Panic ''copyuvm: page not present''
                 else let pa = PTE_ADDR e;
                          flags = PTE_FLAGS e;
                          (mem, s2) = kalloc s1
                      in if mem = 0 then kbind (freevm kend d s2) (\<lambda>_ s3. Done 0 s3)
                         else let s3 = s2\<lparr>memory := memmove mem (p2v pa) PGSIZE (memory s2)\<rparr>
                              in kbind (mappages d i PGSIZE (v2p mem) flags s3)
                                   (\<lambda>r s4. if r < 0 then kbind (freevm kend d s4) (\<lambda>_ s5. Done 0 s5)
                                           else copyuvm_loop n kend d pgdir (i + PGSIZE) s4))"

definition copyuvm :: "uint \<Rightarrow> uint \<Rightarrow> uint \<Rightarrow> uint \<Rightarrow> 'x kmem_state_scheme
    \<Rightarrow> (uint, 'x kmem_state_scheme) kres" where
  "copyuvm kend kdata pgdir sz s =
     kbind (setupkvm kdata s)
       (\<lambda>d s1. if d = 0 then Done 0 s1
               else copyuvm_loop ((unat sz + 4095) div 4096) kend d pgdir 0 s1)"

definition uva2ka :: "uint \<Rightarrow> uint \<Rightarrow> 'x kmem_state_scheme \<Rightarrow> uint" where
  "uva2ka pgdir uva s =
     (let pte = fst (walkpgdir pgdir uva False s);
          e = get32 (memory s) pte
      in if and e PTE_P = 0 then 0
         else if and e PTE_U = 0 then 0
         else p2v (PTE_ADDR e))"

text \<open>Each round of copyout moves at least one byte, so \<open>len\<close> rounds are enough.\<close>

primrec copyout_loop :: "nat \<Rightarrow> uint \<Rightarrow> uint \<Rightarrow> uint \<Rightarrow> uint \<Rightarrow> 'x kmem_state_scheme
    \<Rightarrow> int \<times> 'x kmem_state_scheme" where
  "copyout_loop 0 pgdir va buf len s = (0, s)"
| "copyout_loop (Suc k) pgdir va buf len s =
     (if len > 0 then
        let va0 = PGROUNDDOWN va;
            pa0 = uva2ka pgdir va0 s
        in if pa0 = 0 then (-1, s)
           else let n = PGSIZE - (va - va0);
                    n = (if n > len then len else n);
                    s1 = s\<lparr>memory := memmove (pa0 + (va - va0)) buf n (memory s)\<rparr>
                in copyout_loop k pgdir (va0 + PGSIZE) (buf + n) (len - n) s1
      else (0, s))"

definition copyout :: "uint \<Rightarrow> uint \<Rightarrow> uint \<Rightarrow> uint \<Rightarrow> 'x kmem_state_scheme \<Rightarrow> int \<times> 'x kmem_state_scheme" where
  "copyout pgdir va p len s = copyout_loop (unat len) pgdir va p len s"

text \<open>inituvm maps one page at virtual address 0 and copies the init image into it.\<close>

primrec store_bytes :: "uint \<Rightarrow> uchar list \<Rightarrow> mem \<Rightarrow> mem" where
  "store_bytes a [] m = m"
| "store_bytes a (b # bs) m = store_bytes (a + 1) bs (m(a := b))"

definition inituvm :: "uint \<Rightarrow> uchar list \<Rightarrow> 'x kmem_state_scheme \<Rightarrow> (unit, 'x kmem_state_scheme) kres" where
  "inituvm pgdir init s =
     (if length init \<ge> 4096 then Panic ''inituvm: more than a page''
      else let (mem, s1) = kalloc s;
               s2 = s1\<lparr>memory := memset mem 0 PGSIZE (memory s1)\<rparr>
           in kbind (mappages pgdir 0 PGSIZE (v2p mem) (or PTE_W PTE_U) s2)
                (\<lambda>_ s3. Done () (s3\<lparr>memory := store_bytes mem init (memory s3)\<rparr>)))"

section \<open>Frames: the page-table code touches only memory and the free list\<close>

lemma kalloc_more: "kalloc s = (r, t) \<Longrightarrow> kmem_state.more t = kmem_state.more s"
  by (auto simp: kalloc_def Let_def)

lemma kfree_more: "kfree kend v s = Done u t \<Longrightarrow> kmem_state.more t = kmem_state.more s"
  by (auto simp: kfree_def Let_def split: if_splits)

lemma walkpgdir_more: "walkpgdir pgdir va al s = (r, t) \<Longrightarrow> kmem_state.more t = kmem_state.more s"
  by (auto simp: walkpgdir_def Let_def split: prod.splits if_splits dest: kalloc_more)

lemma mappages_loop_more:
  "mappages_loop n pgdir a pa perm s = Done r t \<Longrightarrow> kmem_state.more t = kmem_state.more s"
  by (induction n arbitrary: a pa s)
    (fastforce simp: Let_def split: prod.splits if_splits dest: walkpgdir_more)+

lemma mappages_more: "mappages pgdir va sz pa perm s = Done r t \<Longrightarrow> kmem_state.more t = kmem_state.more s"
  by (auto simp: mappages_def Let_def dest: mappages_loop_more)

lemma map_kmap_more: "map_kmap pgdir ks s = Done r t \<Longrightarrow> kmem_state.more t = kmem_state.more s"
  by (induction pgdir ks s arbitrary: r t rule: map_kmap.induct)
    (fastforce split: if_splits dest: mappages_more)+

lemma setupkvm_more: "setupkvm kdata s = Done r t \<Longrightarrow> kmem_state.more t = kmem_state.more s"
  by (auto simp: setupkvm_def Let_def split: prod.splits if_splits dest!: map_kmap_more kalloc_more)

lemma deallocuvm_loop_more:
  "deallocuvm_loop n kend pgdir a oldsz s = Done r t \<Longrightarrow> kmem_state.more t = kmem_state.more s"
  by (induction n arbitrary: a s)
    (fastforce simp: Let_def split: prod.splits if_splits dest: kfree_more walkpgdir_more)+

lemma deallocuvm_more: "deallocuvm kend pgdir oldsz newsz s = Done r t \<Longrightarrow> kmem_state.more t = kmem_state.more s"
  by (auto simp: deallocuvm_def split: if_splits dest: deallocuvm_loop_more simp del: deallocuvm_loop.simps)

lemma allocuvm_loop_more:
  "allocuvm_loop n kend pgdir a oldsz newsz s = Done r t \<Longrightarrow> kmem_state.more t = kmem_state.more s"
  by (induction n arbitrary: a s)
    (fastforce simp: Let_def split: prod.splits if_splits dest: kalloc_more mappages_more deallocuvm_more)+

lemma allocuvm_more: "allocuvm kend pgdir oldsz newsz s = Done r t \<Longrightarrow> kmem_state.more t = kmem_state.more s"
  by (auto simp: allocuvm_def Let_def split: if_splits dest: allocuvm_loop_more)

lemma free_tables_more: "free_tables n kend pgdir s = Done r t \<Longrightarrow> kmem_state.more t = kmem_state.more s"
  by (induction n arbitrary: s) (fastforce simp: Let_def split: if_splits dest: kfree_more)+

lemma freevm_more: "freevm kend pgdir s = Done r t \<Longrightarrow> kmem_state.more t = kmem_state.more s"
  by (auto simp: freevm_def split: if_splits dest!: kfree_more deallocuvm_more free_tables_more simp del: free_tables.simps)

lemma copyuvm_loop_more:
  "copyuvm_loop n kend d pgdir i s = Done r t \<Longrightarrow> kmem_state.more t = kmem_state.more s"
proof (induction n arbitrary: i s)
  case (Suc n)
  obtain pte s1 where w: "walkpgdir pgdir i False s = (pte, s1)" by (cases "walkpgdir pgdir i False s")
  obtain m s2 where k: "kalloc s1 = (m, s2)" by (cases "kalloc s1")
  have e: "kmem_state.more s2 = kmem_state.more s"
    using walkpgdir_more [OF w] kalloc_more [OF k] by simp
  show ?case using Suc.prems e
    by (auto simp: w k Let_def split: if_splits dest!: freevm_more mappages_more Suc.IH)
qed simp

lemma copyuvm_more: "copyuvm kend kdata pgdir sz s = Done r t \<Longrightarrow> kmem_state.more t = kmem_state.more s"
  by (auto simp: copyuvm_def split: if_splits dest!: setupkvm_more copyuvm_loop_more)

lemma inituvm_more: "inituvm pgdir init s = Done r t \<Longrightarrow> kmem_state.more t = kmem_state.more s"
  by (auto simp: inituvm_def Let_def split: prod.splits if_splits dest!: mappages_more kalloc_more)

lemma copyout_loop_more [simp]: "kmem_state.more (snd (copyout_loop k pgdir va buf len s)) = kmem_state.more s"
  by (induction k arbitrary: va buf len s) (auto simp: Let_def)

lemmas vm_more = kfree_more mappages_more setupkvm_more deallocuvm_more allocuvm_more freevm_more
  copyuvm_more inituvm_more

end
