(* ===== verification/Spinlock.thy ===== *)
theory Spinlock
  imports Prelude
begin

text \<open>
  Spin locks and interrupt nesting (spinlock.c). The per-processor part of \<open>struct cpu\<close>
  that the lock code uses is its interrupt flag and the nesting counters; a lock is its
  \<open>locked\<close> word and the processor recorded in it (the debugging fields \<open>name\<close> and \<open>pcs\<close>
  are not kept). \<open>acquire\<close> and \<open>release\<close> are given twice: as the functions a processor
  runs when the lock is free, and cut into their atomic memory accesses as a step relation
  of any number of processors, where the lock word and the owner field change separately.
\<close>

section \<open>Interrupt nesting\<close>

record cpu_state =
  ncli :: int
  intena :: bool
  iflag :: bool

definition pushcli :: "cpu_state \<Rightarrow> cpu_state" where
  "pushcli c =
     (let eflags = iflag c;
          c1 = c\<lparr>iflag := False\<rparr>;
          c2 = c1\<lparr>ncli := ncli c1 + 1\<rparr>
      in if ncli c1 = 0 then c2\<lparr>intena := eflags\<rparr> else c2)"

definition popcli :: "cpu_state \<Rightarrow> (unit, cpu_state) kres" where
  "popcli c =
     (if iflag c then Panic ''popcli - interruptible''
      else let c1 = c\<lparr>ncli := ncli c - 1\<rparr>
           in if ncli c1 < 0 then Panic ''popcli''
              else if ncli c1 = 0 \<and> intena c1 then Done () (c1\<lparr>iflag := True\<rparr>)
              else Done () c1)"

section \<open>The lock\<close>

record spinlock =
  locked :: bool
  lk_cpu :: "nat option"

record lock_state =
  the_lock :: spinlock
  the_cpu :: cpu_state

definition initlock :: "spinlock" where
  "initlock = \<lparr>locked = False, lk_cpu = None\<rparr>"

definition holding :: "nat \<Rightarrow> spinlock \<Rightarrow> bool" where
  "holding me lk \<longleftrightarrow> locked lk \<and> lk_cpu lk = Some me"

text \<open>
  \<open>acquire\<close> spins until the atomic exchange finds the lock free; \<open>None\<close> is spinning for as
  long as the lock word stays set.
\<close>

definition acquire :: "nat \<Rightarrow> lock_state \<Rightarrow> (unit, lock_state) kres option" where
  "acquire me s =
     (let c = pushcli (the_cpu s)
      in if holding me (the_lock s) then Some (Panic ''acquire'')
         else if locked (the_lock s) then None
         else Some (Done () (s\<lparr>the_cpu := c, the_lock := \<lparr>locked = True, lk_cpu = Some me\<rparr>\<rparr>)))"

definition release :: "nat \<Rightarrow> lock_state \<Rightarrow> (unit, lock_state) kres" where
  "release me s =
     (if \<not> holding me (the_lock s) then Panic ''release''
      else case popcli (the_cpu s) of
        Done _ c \<Rightarrow> Done () (s\<lparr>the_cpu := c, the_lock := \<lparr>locked = False, lk_cpu = None\<rparr>\<rparr>)
      | Panic m \<Rightarrow> Panic m
      | Sleep ch c \<Rightarrow> Sleep ch (s\<lparr>the_cpu := c\<rparr>))"

primrec pushcli_n :: "nat \<Rightarrow> cpu_state \<Rightarrow> cpu_state" where
  "pushcli_n 0 c = c"
| "pushcli_n (Suc n) c = pushcli_n n (pushcli c)"

primrec popcli_n :: "nat \<Rightarrow> cpu_state \<Rightarrow> (unit, cpu_state) kres" where
  "popcli_n 0 c = Done () c"
| "popcli_n (Suc n) c = kbind (popcli c) (\<lambda>_ c'. popcli_n n c')"

section \<open>Several processors and one lock\<close>

text \<open>
  Where a processor stands in its use of the lock. \<open>Want\<close> is inside \<open>acquire\<close> before the
  exchange succeeded, \<open>Got\<close> after it and before \<open>lk->cpu = cpu\<close>, \<open>Crit\<close> in the critical
  section, \<open>Leaving\<close> inside \<open>release\<close> after \<open>lk->cpu = 0\<close> and before the exchange that
  frees the word.
\<close>

datatype lock_pc = Out | Want | Got | Crit | Leaving

record lock_sys =
  lpc :: "nat \<Rightarrow> lock_pc"
  lk :: spinlock

definition lock_init :: lock_sys where
  "lock_init = \<lparr>lpc = (\<lambda>_. Out), lk = initlock\<rparr>"

inductive lock_step :: "lock_sys \<Rightarrow> lock_sys \<Rightarrow> bool" where
  enter: "lpc s i = Out \<Longrightarrow> \<not> holding i (lk s) \<Longrightarrow>
    lock_step s (s\<lparr>lpc := (lpc s)(i := Want)\<rparr>)"
| spin: "lpc s i = Want \<Longrightarrow> locked (lk s) \<Longrightarrow> lock_step s s"
| xchg_win: "lpc s i = Want \<Longrightarrow> \<not> locked (lk s) \<Longrightarrow>
    lock_step s (s\<lparr>lpc := (lpc s)(i := Got), lk := (lk s)\<lparr>locked := True\<rparr>\<rparr>)"
| set_cpu: "lpc s i = Got \<Longrightarrow>
    lock_step s (s\<lparr>lpc := (lpc s)(i := Crit), lk := (lk s)\<lparr>lk_cpu := Some i\<rparr>\<rparr>)"
| clear_cpu: "lpc s i = Crit \<Longrightarrow> holding i (lk s) \<Longrightarrow>
    lock_step s (s\<lparr>lpc := (lpc s)(i := Leaving), lk := (lk s)\<lparr>lk_cpu := None\<rparr>\<rparr>)"
| xchg_free: "lpc s i = Leaving \<Longrightarrow>
    lock_step s (s\<lparr>lpc := (lpc s)(i := Out), lk := (lk s)\<lparr>locked := False\<rparr>\<rparr>)"

inductive lock_reach :: "lock_sys \<Rightarrow> bool" where
  lock_start: "lock_reach lock_init"
| lock_next: "lock_reach s \<Longrightarrow> lock_step s t \<Longrightarrow> lock_reach t"

text \<open>A processor owns the lock word from the winning exchange to the freeing one.\<close>

definition owns :: "lock_sys \<Rightarrow> nat \<Rightarrow> bool" where
  "owns s i \<longleftrightarrow> lpc s i \<in> {Got, Crit, Leaving}"

definition owned_by :: "lock_sys \<Rightarrow> nat option \<Rightarrow> bool" where
  "owned_by s w \<longleftrightarrow>
     (\<forall>i. owns s i \<longleftrightarrow> w = Some i) \<and> (locked (lk s) \<longleftrightarrow> w \<noteq> None) \<and>
     (\<forall>i. lk_cpu (lk s) = Some i \<longleftrightarrow> lpc s i = Crit)"

definition lock_inv :: "lock_sys \<Rightarrow> bool" where
  "lock_inv s \<longleftrightarrow> (\<exists>w. owned_by s w)"

lemma lock_inv_init: "lock_inv lock_init"
  by (auto simp: lock_inv_def owned_by_def lock_init_def owns_def initlock_def)

lemma owns_upd [simp]:
  "owns (s\<lparr>lpc := (lpc s)(i := x)\<rparr>) j \<longleftrightarrow> (if j = i then x \<in> {Got, Crit, Leaving} else owns s j)"
  "owns (s\<lparr>lpc := (lpc s)(i := x), lk := l\<rparr>) j \<longleftrightarrow> (if j = i then x \<in> {Got, Crit, Leaving} else owns s j)"
  by (simp_all add: owns_def)

lemma owns_pc:
  "lpc s i = Out \<Longrightarrow> \<not> owns s i" "lpc s i = Want \<Longrightarrow> \<not> owns s i" "lpc s i = Got \<Longrightarrow> owns s i"
  "lpc s i = Crit \<Longrightarrow> owns s i" "lpc s i = Leaving \<Longrightarrow> owns s i"
  by (simp_all add: owns_def)

lemma owned_byD:
  assumes "owned_by s w"
  shows "owns s i \<longleftrightarrow> w = Some i" "locked (lk s) \<longleftrightarrow> w \<noteq> None" "lk_cpu (lk s) = Some i \<longleftrightarrow> lpc s i = Crit"
  using assms by (auto simp: owned_by_def)

lemma owned_by_Crit: "owned_by s w \<Longrightarrow> lpc s j = Crit \<Longrightarrow> w = Some j"
  using owned_byD(1) owns_pc(4) by blast

lemma lock_step_inv: "lock_step s t \<Longrightarrow> lock_inv s \<Longrightarrow> lock_inv t"
proof (induction rule: lock_step.induct)
  case (enter s i)
  then obtain w where w: "owned_by s w" by (auto simp: lock_inv_def)
  have "w \<noteq> Some i" using owned_byD(1) [OF w, of i] owns_pc(1) [OF enter(1)] by simp
  with w enter(1) have "owned_by (s\<lparr>lpc := (lpc s)(i := Want)\<rparr>) w"
    by (auto simp: owned_by_def)
  then show ?case by (auto simp: lock_inv_def)
next
  case (spin s i)
  then show ?case by simp
next
  case (xchg_win s i)
  then obtain w where w: "owned_by s w" by (auto simp: lock_inv_def)
  then have "w = None" using xchg_win by (simp add: owned_byD)
  with w xchg_win(1) have
    "owned_by (s\<lparr>lpc := (lpc s)(i := Got), lk := (lk s)\<lparr>locked := True\<rparr>\<rparr>) (Some i)"
    by (auto simp: owned_by_def)
  then show ?case by (auto simp: lock_inv_def)
next
  case (set_cpu s i)
  then obtain w where w: "owned_by s w" by (auto simp: lock_inv_def)
  then have e: "w = Some i" using owned_byD(1) [OF w, of i] owns_pc(3) [OF set_cpu(1)] by simp
  have "owned_by (s\<lparr>lpc := (lpc s)(i := Crit), lk := (lk s)\<lparr>lk_cpu := Some i\<rparr>\<rparr>) w"
    using w e owned_by_Crit [OF w] by (auto simp: owned_by_def)
  then show ?case by (auto simp: lock_inv_def)
next
  case (clear_cpu s i)
  then obtain w where w: "owned_by s w" by (auto simp: lock_inv_def)
  then have e: "w = Some i" using owned_by_Crit [OF w clear_cpu(1)] by simp
  have "owned_by (s\<lparr>lpc := (lpc s)(i := Leaving), lk := (lk s)\<lparr>lk_cpu := None\<rparr>\<rparr>) w"
    using w e owned_by_Crit [OF w] by (auto simp: owned_by_def)
  then show ?case by (auto simp: lock_inv_def)
next
  case (xchg_free s i)
  then obtain w where w: "owned_by s w" by (auto simp: lock_inv_def)
  then have e: "w = Some i" using owned_byD(1) [OF w, of i] owns_pc(5) [OF xchg_free(1)] by simp
  have "owned_by (s\<lparr>lpc := (lpc s)(i := Out), lk := (lk s)\<lparr>locked := False\<rparr>\<rparr>) None"
    using w e xchg_free(1) owned_by_Crit [OF w] by (auto simp: owned_by_def)
  then show ?case by (auto simp: lock_inv_def)
qed

lemma lock_reach_inv: "lock_reach s \<Longrightarrow> lock_inv s"
  by (induction rule: lock_reach.induct) (auto intro: lock_inv_init lock_step_inv)

lemma pushcli_popcli:
  assumes "0 < ncli c \<longrightarrow> \<not> iflag c" and "0 \<le> ncli c" and "ncli c = 0 \<longrightarrow> intena c = iflag c"
  shows "popcli (pushcli c) = Done () c"
  using assms by (cases c) (auto simp: pushcli_def popcli_def Let_def)

section \<open>Properties\<close>

text \<open>
  C28. In every interleaving of any number of processors over the individual memory accesses
  of acquire and release, at most one processor is between a successful exchange and the
  matching release, and the test holding, read at any moment, is true for a processor
  exactly while it is in its critical section.
\<close>

theorem spinlock_mutual_exclusion:
  assumes "lock_reach s"
  shows "(owns s i \<and> owns s j \<longrightarrow> i = j) \<and> (holding i (lk s) \<longleftrightarrow> lpc s i = Crit)"
proof -
  obtain w where w: "owned_by s w" using lock_reach_inv [OF assms] by (auto simp: lock_inv_def)
  then show ?thesis
    using owned_byD(1) [OF w] owned_byD(2,3) [OF w] owned_by_Crit [OF w] by (auto simp: holding_def)
qed

theorem spinlock_mutual_exclusion_witness:
  "\<exists>s. lock_reach s \<and> holding 3 (lk s)"
proof -
  let ?s1 = "lock_init\<lparr>lpc := (lpc lock_init)(3 := Want)\<rparr>"
  let ?s2 = "?s1\<lparr>lpc := (lpc ?s1)(3 := Got), lk := (lk ?s1)\<lparr>locked := True\<rparr>\<rparr>"
  let ?s3 = "?s2\<lparr>lpc := (lpc ?s2)(3 := Crit), lk := (lk ?s2)\<lparr>lk_cpu := Some 3\<rparr>\<rparr>"
  have "lock_reach ?s1"
    by (rule lock_next [OF lock_start enter]) (simp_all add: lock_init_def holding_def initlock_def)
  then have "lock_reach ?s2"
    by (rule lock_next [OF _ xchg_win]) (simp_all add: lock_init_def initlock_def)
  then have r: "lock_reach ?s3"
    by (rule lock_next [OF _ set_cpu]) simp
  have "lpc ?s3 3 = Crit" by simp
  with spinlock_mutual_exclusion [OF r, of 3 3] r show ?thesis by blast
qed

text \<open>
  pushcli and popcli nest: after any number of pushcli calls and as many popcli calls
  the processor is back in the state it started from, interrupts included, and no popcli
  panics.
\<close>

theorem pushcli_popcli_nest:
  assumes "ncli c = 0"
  shows "\<exists>c'. popcli_n n (pushcli_n n c) = Done () c' \<and> ncli c' = 0 \<and> iflag c' = iflag c"
proof (cases n)
  case 0
  then show ?thesis using assms by simp
next
  case (Suc k)
  have push: "pushcli_n m c = c\<lparr>ncli := ncli c + int m\<rparr>" if "0 < ncli c" "\<not> iflag c" for m c
    using that by (induction m arbitrary: c) (simp_all add: pushcli_def Let_def)
  have pop: "popcli_n m (c\<lparr>ncli := int m\<rparr>) = Done () (c\<lparr>ncli := 0, iflag := intena c\<rparr>)"
    if "\<not> iflag c" "0 < m" for m c
    using that
  proof (induction m)
    case (Suc m)
    then show ?case by (cases "m = 0") (auto simp: popcli_def Let_def)
  qed simp
  let ?c = "c\<lparr>ncli := 1, intena := iflag c, iflag := False\<rparr>"
  have "pushcli c = ?c" using assms by (simp add: pushcli_def Let_def)
  then have "pushcli_n n c = ?c\<lparr>ncli := int n\<rparr>" using push [of ?c k] Suc by simp
  then have "popcli_n n (pushcli_n n c) = Done () (?c\<lparr>ncli := 0, iflag := iflag c\<rparr>)"
    using pop [of ?c n] Suc by simp
  then show ?thesis by simp
qed

theorem pushcli_popcli_nest_witness:
  "\<exists>c'. popcli_n 2 (pushcli_n 2 \<lparr>ncli = 0, intena = False, iflag = True\<rparr>) = Done () c' \<and> iflag c'"
  using pushcli_popcli_nest [of "\<lparr>ncli = 0, intena = False, iflag = True\<rparr>" 2] by auto

end
