(* ===== verification/Ptable.thy ===== *)
theory Ptable
  imports Vm Spinlock
begin

text \<open>
  The process table (proc.c and proc.h): slots, sleep and wakeup, kill, the scheduler's
  choice, waitpid, growproc, and the calls this kernel adds (pstat, jobs, signal). A slot is
  the record \<open>proc\<close>; pointers to slots are indices, \<open>None\<close> the null pointer. The trap frame
  and the saved context live on the kernel stack page in memory, at the offsets of
  \<open>struct trapframe\<close> and \<open>struct context\<close>. Table scans under \<open>ptable.lock\<close> are atomic
  (see \<open>Spinlock\<close> for the lock itself). One processor is modelled: \<open>cur\<close> is its current
  process. The addresses of \<open>trapret\<close> and \<open>forkret\<close> are parameters, as is the address space
  \<open>um\<close> of the running process where the kernel dereferences user pointers.
\<close>

section \<open>State\<close>

definition NPROC :: nat where "NPROC = 64"
definition NOFILE :: nat where "NOFILE = 16"
definition SIGNUM :: nat where "SIGNUM = 32"
definition KSTACKSIZE :: uint where "KSTACKSIZE = 4096"

datatype procstate = UNUSED | EMBRYO | SLEEPING | RUNNABLE | RUNNING | ZOMBIE

record procstat =
  st_name :: "uchar list"
  st_sz :: uint
  st_nofile :: nat
  st_state :: procstate

record proc =
  p_sz :: uint
  p_pgdir :: uint
  p_kstack :: uint
  p_state :: procstate
  p_pid :: int
  p_parent :: "nat option"
  p_tf :: uint
  p_context :: uint
  p_chan :: "chan option"
  p_killed :: bool
  p_ofile :: "nat option list"
  p_cwd :: "nat option"
  p_name :: cptr
  p_exit_status :: int
  p_job :: uint
  p_pending :: int
  p_signal_handlers :: "uint list"

record ptable_state = kmem_state +
  procs :: "proc list"
  nextpid :: int
  initproc :: "nat option"
  cur :: "nat option"
  cr3 :: uint
  esp0 :: uint
  kpgdir :: uint

definition upd_proc :: "nat \<Rightarrow> (proc \<Rightarrow> proc) \<Rightarrow> 'x ptable_state_scheme \<Rightarrow> 'x ptable_state_scheme" where
  "upd_proc i f s = s\<lparr>procs := (procs s)[i := f (procs s ! i)]\<rparr>"

text \<open>The slot of the running process; only meaningful while one runs.\<close>

definition curproc :: "'x ptable_state_scheme \<Rightarrow> proc" where
  "curproc s = procs s ! the (cur s)"

definition on_cur :: "(proc \<Rightarrow> proc) \<Rightarrow> 'x ptable_state_scheme \<Rightarrow> 'x ptable_state_scheme" where
  "on_cur f s = upd_proc (the (cur s)) f s"

text \<open>Offsets in \<open>struct trapframe\<close> (76 bytes) and \<open>struct context\<close> (20 bytes).\<close>

definition TF_SIZE :: uint where "TF_SIZE = 76"
definition TF_EAX :: uint where "TF_EAX = 28"
definition TF_ES :: uint where "TF_ES = 40"
definition TF_DS :: uint where "TF_DS = 44"
definition TF_TRAPNO :: uint where "TF_TRAPNO = 48"
definition TF_EIP :: uint where "TF_EIP = 56"
definition TF_CS :: uint where "TF_CS = 60"
definition TF_EFLAGS :: uint where "TF_EFLAGS = 64"
definition TF_ESP :: uint where "TF_ESP = 68"
definition TF_SS :: uint where "TF_SS = 72"
definition CTX_SIZE :: uint where "CTX_SIZE = 20"
definition CTX_EIP :: uint where "CTX_EIP = 16"

section \<open>Allocating a slot\<close>

definition allocproc :: "uint \<Rightarrow> uint \<Rightarrow> 'x ptable_state_scheme \<Rightarrow> nat option \<times> 'x ptable_state_scheme" where
  "allocproc trapret forkret s =
     (case find_idx (\<lambda>p. p_state p = UNUSED) (procs s) of
        None \<Rightarrow> (None, s)
      | Some i \<Rightarrow>
          (let s1 = (upd_proc i (\<lambda>p. p\<lparr>p_state := EMBRYO, p_pid := nextpid s\<rparr>) s)\<lparr>nextpid := s32 (nextpid s + 1)\<rparr>;
               (k, s2) = kalloc s1;
               s3 = upd_proc i (\<lambda>p. p\<lparr>p_kstack := k\<rparr>) s2
           in if k = 0 then (None, upd_proc i (\<lambda>p. p\<lparr>p_state := UNUSED\<rparr>) s3)
              else let sp1 = k + KSTACKSIZE - TF_SIZE;
                       sp2 = sp1 - 4;
                       sp3 = sp2 - CTX_SIZE;
                       m1 = put32 (memory s3) sp2 trapret;
                       m2 = memset sp3 0 CTX_SIZE m1;
                       m3 = put32 m2 (sp3 + CTX_EIP) forkret
                   in (Some i, (upd_proc i (\<lambda>p. p\<lparr>p_tf := sp1, p_context := sp3\<rparr>) s3)\<lparr>memory := m3\<rparr>)))"

section \<open>Sleep, wakeup, kill\<close>

definition wakeup1 :: "chan option \<Rightarrow> 'x ptable_state_scheme \<Rightarrow> 'x ptable_state_scheme" where
  "wakeup1 c s =
     s\<lparr>procs := map (\<lambda>p. if p_state p = SLEEPING \<and> p_chan p = c then p\<lparr>p_state := RUNNABLE\<rparr> else p) (procs s)\<rparr>"

definition wakeup :: "chan \<Rightarrow> 'x ptable_state_scheme \<Rightarrow> 'x ptable_state_scheme" where
  "wakeup c s = wakeup1 (Some c) s"

text \<open>
  \<open>sleep_on\<close> is sleep up to the context switch; \<open>sleep_return\<close> is what it does when the
  process runs again.
\<close>

definition sleep_on :: "chan \<Rightarrow> 'x ptable_state_scheme \<Rightarrow> ('a, 'x ptable_state_scheme) kres" where
  "sleep_on c s =
     (case cur s of
        None \<Rightarrow> Panic ''sleep''
      | Some i \<Rightarrow> Sleep c (upd_proc i (\<lambda>p. p\<lparr>p_chan := Some c, p_state := SLEEPING\<rparr>) s))"

definition sleep_return :: "'x ptable_state_scheme \<Rightarrow> 'x ptable_state_scheme" where
  "sleep_return s = on_cur (\<lambda>p. p\<lparr>p_chan := None\<rparr>) s"

definition kill :: "int \<Rightarrow> 'x ptable_state_scheme \<Rightarrow> int \<times> 'x ptable_state_scheme" where
  "kill pid s =
     (case find_idx (\<lambda>p. p_pid p = pid) (procs s) of
        Some i \<Rightarrow>
          (0, upd_proc i (\<lambda>p. p\<lparr>p_killed := True,
                               p_state := (if p_state p = SLEEPING then RUNNABLE else p_state p)\<rparr>) s)
      | None \<Rightarrow> (-1, s))"

section \<open>The scheduler\<close>

definition switchuvm :: "nat \<Rightarrow> 'x ptable_state_scheme \<Rightarrow> (unit, 'x ptable_state_scheme) kres" where
  "switchuvm i s =
     (let s1 = s\<lparr>esp0 := p_kstack (curproc s) + KSTACKSIZE\<rparr>
      in if p_pgdir (procs s1 ! i) = 0 then Panic ''switchuvm: no pgdir''
         else Done () (s1\<lparr>cr3 := v2p (p_pgdir (procs s1 ! i))\<rparr>))"

definition switchkvm :: "'x ptable_state_scheme \<Rightarrow> 'x ptable_state_scheme" where
  "switchkvm s = s\<lparr>cr3 := v2p (kpgdir s)\<rparr>"

text \<open>
  The scheduler's loop over the table keeps its position across context switches:
  \<open>sched_pick i ps\<close> is the next runnable slot at or after position \<open>i\<close> of the pass, and
  \<open>sched_next\<close> goes on with a new pass when the current one finds none.
\<close>

definition sched_pick :: "nat \<Rightarrow> proc list \<Rightarrow> nat option" where
  "sched_pick i ps = map_option (\<lambda>k. i + k) (find_idx (\<lambda>p. p_state p = RUNNABLE) (drop i ps))"

definition sched_next :: "nat \<Rightarrow> proc list \<Rightarrow> nat option" where
  "sched_next i ps = (case sched_pick i ps of Some k \<Rightarrow> Some k | None \<Rightarrow> sched_pick 0 ps)"

definition sched_dispatch :: "nat \<Rightarrow> 'x ptable_state_scheme \<Rightarrow> (unit, 'x ptable_state_scheme) kres" where
  "sched_dispatch k s =
     kbind (switchuvm k (s\<lparr>cur := Some k\<rparr>))
       (\<lambda>_ s1. Done () (upd_proc k (\<lambda>p. p\<lparr>p_state := RUNNING\<rparr>) s1))"

definition sched_back :: "'x ptable_state_scheme \<Rightarrow> 'x ptable_state_scheme" where
  "sched_back s = (switchkvm s)\<lparr>cur := None\<rparr>"

text \<open>
  sched and yield also look at the lock and the processor's interrupt state: \<open>ls\<close> holds
  \<open>ptable.lock\<close> and the counters of processor \<open>me\<close>. The saved \<open>intena\<close> of sched is
  restored when the process runs again and does not appear here.
\<close>

definition sched :: "nat \<Rightarrow> lock_state \<Rightarrow> 'x ptable_state_scheme \<Rightarrow> (unit, 'x ptable_state_scheme) kres" where
  "sched me ls s =
     (if \<not> holding me (the_lock ls) then Panic ''sched ptable.lock''
      else if ncli (the_cpu ls) \<noteq> 1 then Panic ''sched locks''
      else if p_state (curproc s) = RUNNING then Panic ''sched running''
      else if iflag (the_cpu ls) then Panic ''sched interruptible''
      else Done () (sched_back s))"

definition yield :: "nat \<Rightarrow> lock_state \<Rightarrow> 'x ptable_state_scheme \<Rightarrow> (unit, 'x ptable_state_scheme) kres option" where
  "yield me ls s =
     (case acquire me ls of
        Some (Done _ ls1) \<Rightarrow> Some (sched me ls1 (on_cur (\<lambda>p. p\<lparr>p_state := RUNNABLE\<rparr>) s))
      | Some (Panic e) \<Rightarrow> Some (Panic e)
      | Some (Sleep c _) \<Rightarrow> Some (Sleep c s)
      | None \<Rightarrow> None)"

section \<open>growproc\<close>

definition growproc :: "uint \<Rightarrow> int \<Rightarrow> 'x ptable_state_scheme \<Rightarrow> (int, 'x ptable_state_scheme) kres" where
  "growproc kend n s =
     (let sz = p_sz (curproc s);
          pgdir = p_pgdir (curproc s);
          commit = (\<lambda>sz' s'. kbind (switchuvm (the (cur s')) (on_cur (\<lambda>p. p\<lparr>p_sz := sz'\<rparr>) s'))
                               (\<lambda>_ s2. Done 0 s2))
      in if n > 0 then
           kbind (allocuvm kend pgdir sz (sz + of_int n) s)
             (\<lambda>sz' s1. if sz' = 0 then Done (-1) s1 else commit sz' s1)
         else if n < 0 then
           kbind (deallocuvm kend pgdir sz (sz + of_int n) s)
             (\<lambda>sz' s1. if sz' = 0 then Done (-1) s1 else commit sz' s1)
         else commit sz s)"

section \<open>Waiting for children\<close>

text \<open>
  One pass of waitpid over the table: whether a matching child exists, and the first
  matching zombie.
\<close>

definition is_wanted :: "nat option \<Rightarrow> int \<Rightarrow> proc \<Rightarrow> bool" where
  "is_wanted me childPid p \<longleftrightarrow> p_parent p = me \<and> \<not> (childPid \<noteq> -1 \<and> childPid \<noteq> p_pid p)"

definition reap_slot :: "proc \<Rightarrow> proc" where
  "reap_slot p = p\<lparr>p_state := UNUSED, p_pid := 0, p_parent := None, p_name := (p_name p)(0 := 0),
                   p_killed := False, p_job := 0\<rparr>"

text \<open>
  The second component of the result is the store through the user pointer \<open>status\<close>. A
  null \<open>status\<close> makes the call return -1 when it finds a zombie, which it leaves in place.
\<close>

definition waitpid :: "uint \<Rightarrow> int \<Rightarrow> uint \<Rightarrow> 'x ptable_state_scheme
    \<Rightarrow> (int \<times> (uint \<times> int) option, 'x ptable_state_scheme) kres" where
  "waitpid kend childPid status s =
     (case find_idx (\<lambda>p. is_wanted (cur s) childPid p \<and> p_state p = ZOMBIE) (procs s) of
        Some i \<Rightarrow>
          (let p = procs s ! i
           in if status = 0 then Done (-1, None) s
              else kbind (kfree kend (p_kstack p) s)
                (\<lambda>_ s1. kbind (freevm kend (p_pgdir p) (upd_proc i (\<lambda>p. p\<lparr>p_kstack := 0\<rparr>) s1))
                  (\<lambda>_ s2. Done (p_pid p, Some (status, p_exit_status p)) (upd_proc i reap_slot s2))))
      | None \<Rightarrow>
          (let havekids = (\<exists>p \<in> set (procs s). is_wanted (cur s) childPid p)
           in if \<not> havekids \<or> p_killed (curproc s) then Done (-1, None) s
              else sleep_on (ChanProc (the (cur s))) s))"

definition wait :: "uint \<Rightarrow> uint \<Rightarrow> 'x ptable_state_scheme
    \<Rightarrow> (int \<times> (uint \<times> int) option, 'x ptable_state_scheme) kres" where
  "wait kend status s = waitpid kend (-1) status s"

text \<open>
  The part of exit that runs under \<open>ptable.lock\<close>: wake the parent, hand the children to
  init, become a zombie, enter the scheduler. \<open>reparent\<close> is the loop over the table.
\<close>

primrec reparent :: "nat \<Rightarrow> 'x ptable_state_scheme \<Rightarrow> 'x ptable_state_scheme" where
  "reparent 0 s = s"
| "reparent (Suc n) s =
     (let i = NPROC - Suc n;
          p = procs s ! i
      in reparent n
           (if p_parent p = cur s then
              (let s1 = upd_proc i (\<lambda>p. p\<lparr>p_parent := initproc s\<rparr>) s
               in if p_state p = ZOMBIE then wakeup1 (map_option ChanProc (initproc s1)) s1 else s1)
            else s))"

definition exit_tail :: "'x ptable_state_scheme \<Rightarrow> 'x ptable_state_scheme" where
  "exit_tail s =
     (let s1 = wakeup1 (map_option ChanProc (p_parent (curproc s))) s;
          s2 = reparent NPROC s1
      in sched_back (on_cur (\<lambda>p. p\<lparr>p_state := ZOMBIE\<rparr>) s2))"

section \<open>pstat, jobs and signals\<close>

definition num_open :: "proc \<Rightarrow> nat" where
  "num_open p = length (filter (\<lambda>f. f \<noteq> None) (take NOFILE (p_ofile p)))"

definition pstat :: "int \<Rightarrow> 'x ptable_state_scheme \<Rightarrow> int \<times> procstat option" where
  "pstat pid s =
     (case find_idx (\<lambda>p. p_pid p = pid) (procs s) of
        Some i \<Rightarrow>
          (let p = procs s ! i
           in (0, Some \<lparr>st_name = map (p_name p) [0..<16], st_sz = p_sz p,
                        st_nofile = num_open p, st_state = p_state p\<rparr>))
      | None \<Rightarrow> (-1, None))"

definition attachjob :: "int \<Rightarrow> uint \<Rightarrow> 'x ptable_state_scheme \<Rightarrow> int \<times> 'x ptable_state_scheme" where
  "attachjob pid job s =
     (case find_idx (\<lambda>p. p_pid p = pid) (procs s) of
        Some i \<Rightarrow> (pid, upd_proc i (\<lambda>p. p\<lparr>p_job := job\<rparr>) s)
      | None \<Rightarrow> (-1, s))"

definition getjob :: "int \<Rightarrow> int" where
  "getjob index = index"

text \<open>\<open>p->job->jid\<close>: the word at a user address, dereferenced with the current page table.\<close>

definition job_jid :: "mem \<Rightarrow> proc \<Rightarrow> uint" where
  "job_jid um p = get32 um (p_job p)"

definition isJobEmpty :: "mem \<Rightarrow> uint \<Rightarrow> 'x ptable_state_scheme \<Rightarrow> int" where
  "isJobEmpty um jid s =
     (case find_idx (\<lambda>p. job_jid um p = jid) (procs s) of Some i \<Rightarrow> 0 | None \<Rightarrow> 1)"

fun statusPrint :: "procstate \<Rightarrow> string" where
  "statusPrint UNUSED = ''UNUSED''"
| "statusPrint EMBRYO = ''EMBRYO''"
| "statusPrint SLEEPING = ''SLEEPING''"
| "statusPrint RUNNABLE = ''RUNNABLE''"
| "statusPrint RUNNING = ''RUNNING''"
| "statusPrint ZOMBIE = ''ZOMBIE''"

text \<open>
  printjob returns the count of the job's processes; what it prints is the header with the
  job's number, before the first process, and one line per process.
\<close>

datatype jobline = JobHead uint uint | JobProc int cptr uint nat string

fun printjob_loop :: "mem \<Rightarrow> uint \<Rightarrow> nat \<Rightarrow> proc list \<Rightarrow> nat \<times> jobline list" where
  "printjob_loop um jid count [] = (count, [])"
| "printjob_loop um jid count (p # ps) =
     (if job_jid um p = jid then
        (let line = JobProc (p_pid p) (p_name p) (p_sz p) (num_open p) (statusPrint (p_state p));
             (n, ls) = printjob_loop um jid (count + 1) ps
         in (n, (if count = 0 then [JobHead jid (p_job p + 8)] else []) @ line # ls))
      else printjob_loop um jid count ps)"

definition printjob :: "mem \<Rightarrow> uint \<Rightarrow> 'x ptable_state_scheme \<Rightarrow> nat \<times> jobline list" where
  "printjob um jid s = printjob_loop um jid 0 (procs s)"

text \<open>
  fg walks the table and waits for every process of the job whose pid is at least 3. While it
  sleeps in waitpid it keeps its place in the table and the pid it waits for: \<open>FgBlocked n pid\<close>
  says that \<open>n\<close> slots are left after the current one. \<open>status\<close> is the address of its local
  variable.
\<close>

datatype fg_result = FgDone int | FgBlocked nat int

definition fg_wait :: "(('x ptable_state_scheme \<Rightarrow> (fg_result, 'x ptable_state_scheme) kres)) \<Rightarrow> nat
    \<Rightarrow> uint \<Rightarrow> uint \<Rightarrow> int \<Rightarrow> 'x ptable_state_scheme \<Rightarrow> (fg_result, 'x ptable_state_scheme) kres" where
  "fg_wait rest n kend status pid s =
     (case waitpid kend pid status s of
        Done _ s1 \<Rightarrow> rest s1
      | Panic e \<Rightarrow> Panic e
      | Sleep c s1 \<Rightarrow> Done (FgBlocked n pid) s1)"

primrec fg_loop :: "nat \<Rightarrow> mem \<Rightarrow> uint \<Rightarrow> uint \<Rightarrow> uint \<Rightarrow> 'x ptable_state_scheme
    \<Rightarrow> (fg_result, 'x ptable_state_scheme) kres" where
  "fg_loop 0 um kend status jid s = Done (FgDone 0) s"
| "fg_loop (Suc n) um kend status jid s =
     (let p = procs s ! (NPROC - Suc n)
      in if p_pid p < 3 then fg_loop n um kend status jid s
         else if job_jid um p = jid
         then fg_wait (fg_loop n um kend status jid) n kend status (p_pid p) s
         else fg_loop n um kend status jid s)"

definition fg :: "mem \<Rightarrow> uint \<Rightarrow> uint \<Rightarrow> uint \<Rightarrow> 'x ptable_state_scheme
    \<Rightarrow> (fg_result, 'x ptable_state_scheme) kres" where
  "fg um kend status jid s = fg_loop NPROC um kend status jid s"

definition fg_resume :: "nat \<Rightarrow> int \<Rightarrow> mem \<Rightarrow> uint \<Rightarrow> uint \<Rightarrow> uint \<Rightarrow> 'x ptable_state_scheme
    \<Rightarrow> (fg_result, 'x ptable_state_scheme) kres" where
  "fg_resume n pid um kend status jid s =
     fg_wait (fg_loop n um kend status jid) n kend status pid (sleep_return s)"

definition signal :: "int \<Rightarrow> uint \<Rightarrow> 'x ptable_state_scheme \<Rightarrow> int \<times> 'x ptable_state_scheme" where
  "signal signum handler s =
     (if signum \<ge> 32 \<or> signum < 0 then (-1, s)
      else (sint (p_signal_handlers (curproc s) ! nat signum),
            on_cur (\<lambda>p. p\<lparr>p_signal_handlers := (p_signal_handlers p)[nat signum := handler]\<rparr>) s))"

section \<open>The table as a transition system\<close>

text \<open>
  One processor runs the operations above in any order. \<open>local\<close> covers everything that
  leaves pids, states and parents alone (exec, sbrk, file calls, attachjob, signal, page
  allocation). In \<open>fork_publish\<close>, \<open>fork_fail\<close> and \<open>userinit_publish\<close> a slot that
  allocproc returned becomes runnable or is given back, as at the end of fork and userinit.
\<close>

definition pview :: "proc \<Rightarrow> int \<times> procstate \<times> nat option" where
  "pview p = (p_pid p, p_state p, p_parent p)"

inductive pt_step :: "bool \<Rightarrow> 'x ptable_state_scheme \<Rightarrow> 'x ptable_state_scheme \<Rightarrow> bool" where
  st_alloc: "allocproc trapret forkret s = (r, t) \<Longrightarrow> pt_step True s t"
| st_fork_fail: "i < NPROC \<Longrightarrow> p_state (procs s ! i) = EMBRYO \<Longrightarrow>
    pt_step False s (upd_proc i (\<lambda>p. p\<lparr>p_kstack := 0, p_state := UNUSED\<rparr>) s)"
| st_fork_publish: "i < NPROC \<Longrightarrow> p_state (procs s ! i) = EMBRYO \<Longrightarrow> cur s = Some c \<Longrightarrow>
    pt_step False s (upd_proc i (\<lambda>p. p\<lparr>p_parent := cur s, p_state := RUNNABLE\<rparr>) s)"
| st_userinit_publish: "i < NPROC \<Longrightarrow> p_state (procs s ! i) = EMBRYO \<Longrightarrow> initproc s = None \<Longrightarrow>
    pt_step False s ((upd_proc i (\<lambda>p. p\<lparr>p_state := RUNNABLE\<rparr>) s)\<lparr>initproc := Some i\<rparr>)"
| st_wakeup: "pt_step False s (wakeup c s)"
| st_kill: "kill pid s = (r, t) \<Longrightarrow> pt_step False s t"
| st_dispatch: "cur s = None \<Longrightarrow> sched_next i (procs s) = Some k \<Longrightarrow> sched_dispatch k s = Done () t \<Longrightarrow>
    pt_step False s t"
| st_yield: "cur s = Some c \<Longrightarrow> yield me ls s = Some (Done () t) \<Longrightarrow> pt_step False s t"
| st_sleep: "sleep_on c s = (Sleep c t :: (unit, _) kres) \<Longrightarrow> pt_step False s (sched_back t)"
| st_waitpid: "cur s = Some c \<Longrightarrow> waitpid kend pid status s = Done r t \<Longrightarrow> pt_step False s t"
| st_exit: "cur s = Some c \<Longrightarrow> initproc s \<noteq> Some c \<Longrightarrow> pt_step False s (exit_tail s)"
| st_local: "map pview (procs t) = map pview (procs s) \<Longrightarrow> nextpid t = nextpid s \<Longrightarrow>
    initproc t = initproc s \<Longrightarrow> cur t = cur s \<Longrightarrow> pt_step False s t"

definition pt_empty :: "'x ptable_state_scheme \<Rightarrow> bool" where
  "pt_empty s \<longleftrightarrow> length (procs s) = NPROC \<and> (\<forall>p \<in> set (procs s). pview p = (0, UNUSED, None)) \<and>
     nextpid s = 1 \<and> initproc s = None \<and> cur s = None"

text \<open>\<open>pt_reach n s\<close>: \<open>s\<close> is reached from an empty table with \<open>n\<close> calls of allocproc.\<close>

inductive pt_reach :: "nat \<Rightarrow> 'x ptable_state_scheme \<Rightarrow> bool" where
  r_init: "pt_empty s \<Longrightarrow> pt_reach 0 s"
| r_step: "pt_reach n s \<Longrightarrow> pt_step b s t \<Longrightarrow> pt_reach (n + of_bool b) t"

section \<open>Invariant\<close>

definition alive :: "procstate \<Rightarrow> bool" where
  "alive st \<longleftrightarrow> st = SLEEPING \<or> st = RUNNABLE \<or> st = RUNNING"

definition slot_inv :: "'x ptable_state_scheme \<Rightarrow> nat \<Rightarrow> bool" where
  "slot_inv s i \<longleftrightarrow>
     (let p = procs s ! i
      in 0 \<le> p_pid p \<and> p_pid p < nextpid s \<and> (p_state p \<noteq> UNUSED \<longrightarrow> 0 < p_pid p) \<and>
         (p_state p = RUNNING \<longleftrightarrow> cur s = Some i) \<and>
         (case p_parent p of None \<Rightarrow> True
          | Some j \<Rightarrow> j < NPROC \<and> alive (p_state (procs s ! j)) \<and> (alive (p_state p) \<or> p_state p = ZOMBIE)))"

definition pids_ok :: "'x ptable_state_scheme \<Rightarrow> bool" where
  "pids_ok s \<longleftrightarrow> (\<forall>i < NPROC. \<forall>j < NPROC. i \<noteq> j \<longrightarrow> p_pid (procs s ! i) = p_pid (procs s ! j) \<longrightarrow>
     p_pid (procs s ! i) = 0)"

definition init_ok :: "'x ptable_state_scheme \<Rightarrow> bool" where
  "init_ok s \<longleftrightarrow>
     (case initproc s of
        None \<Rightarrow> (\<forall>i < NPROC. p_state (procs s ! i) = UNUSED \<or> p_state (procs s ! i) = EMBRYO)
      | Some k \<Rightarrow> k < NPROC \<and> alive (p_state (procs s ! k)))"

definition pt_inv :: "'x ptable_state_scheme \<Rightarrow> bool" where
  "pt_inv s \<longleftrightarrow> length (procs s) = NPROC \<and> (\<forall>i < NPROC. slot_inv s i) \<and> pids_ok s \<and> init_ok s \<and>
     (\<forall>c. cur s = Some c \<longrightarrow> c < NPROC)"

section \<open>Effects of the operations\<close>

lemma ptable_more_cong:
  assumes "kmem_state.more t = kmem_state.more s"
  shows "procs t = procs s" "nextpid t = nextpid s" "initproc t = initproc s" "cur t = cur s"
    "cr3 t = cr3 s" "esp0 t = esp0 s" "kpgdir t = kpgdir s"
  using assms by (cases s, cases t, simp)+

lemma procs_upd_proc [simp]: "procs (upd_proc i f s) = (procs s)[i := f (procs s ! i)]"
  by (simp add: upd_proc_def)

lemma upd_proc_sel [simp]:
  "nextpid (upd_proc i f s) = nextpid s" "initproc (upd_proc i f s) = initproc s"
  "cur (upd_proc i f s) = cur s" "memory (upd_proc i f s) = memory s"
  "freelist (upd_proc i f s) = freelist s"
  by (simp_all add: upd_proc_def)

lemma on_cur_sel [simp]:
  "nextpid (on_cur f s) = nextpid s" "initproc (on_cur f s) = initproc s" "cur (on_cur f s) = cur s"
  "procs (on_cur f s) = (procs s)[the (cur s) := f (curproc s)]"
  by (simp_all add: on_cur_def curproc_def)

lemma sched_back_sel [simp]:
  "procs (sched_back s) = procs s" "nextpid (sched_back s) = nextpid s"
  "initproc (sched_back s) = initproc s" "cur (sched_back s) = None"
  by (simp_all add: sched_back_def switchkvm_def)

lemma wakeup1_sel [simp]:
  "nextpid (wakeup1 c s) = nextpid s" "initproc (wakeup1 c s) = initproc s" "cur (wakeup1 c s) = cur s"
  "length (procs (wakeup1 c s)) = length (procs s)"
  by (simp_all add: wakeup1_def)

lemma wakeup1_nth:
  "i < length (procs s) \<Longrightarrow> procs (wakeup1 c s) ! i =
     (let p = procs s ! i in if p_state p = SLEEPING \<and> p_chan p = c then p\<lparr>p_state := RUNNABLE\<rparr> else p)"
  by (simp add: wakeup1_def Let_def)

text \<open>
  What the loop of exit does to each slot: the parent changes where it was the exiting
  process, and a sleeper may be woken.
\<close>

definition woken :: "proc \<Rightarrow> proc \<Rightarrow> bool" where
  "woken p q \<longleftrightarrow> q = p \<or> (p_state p = SLEEPING \<and> q = p\<lparr>p_state := RUNNABLE\<rparr>)"

lemma woken_refl [simp]: "woken p p"
  by (simp add: woken_def)

lemma woken_trans: "woken p q \<Longrightarrow> woken q r \<Longrightarrow> woken p r"
  by (auto simp: woken_def)

lemma wakeup1_woken: "i < length (procs s) \<Longrightarrow> woken (procs s ! i) (procs (wakeup1 c s) ! i)"
  by (simp add: wakeup1_nth woken_def Let_def)

lemma reparent_sel [simp]:
  "nextpid (reparent n s) = nextpid s" "initproc (reparent n s) = initproc s"
  "cur (reparent n s) = cur s" "length (procs (reparent n s)) = length (procs s)"
  by (induction n arbitrary: s) (simp_all add: Let_def)

definition adopt :: "'x ptable_state_scheme \<Rightarrow> proc \<Rightarrow> proc" where
  "adopt s p = (if p_parent p = cur s then p\<lparr>p_parent := initproc s\<rparr> else p)"

lemma woken_adopt: "woken p q \<Longrightarrow> woken (adopt s p) (adopt s q)"
  by (auto simp: woken_def adopt_def)

lemma reparent_nth:
  assumes "length (procs s) = NPROC" and "n \<le> NPROC" and "i < NPROC" and "cur s \<noteq> initproc s"
  shows "woken (if NPROC - n \<le> i then adopt s (procs s ! i) else procs s ! i) (procs (reparent n s) ! i)"
  using assms
proof (induction n arbitrary: s)
  case (Suc n)
  define k where "k = NPROC - Suc n"
  define p where "p = procs s ! k"
  define s1 where "s1 = (if p_parent p = cur s then
      (let s1 = upd_proc k (\<lambda>p. p\<lparr>p_parent := initproc s\<rparr>) s
       in if p_state p = ZOMBIE then wakeup1 (map_option ChanProc (initproc s1)) s1 else s1) else s)"
  have r: "reparent (Suc n) s = reparent n s1"
    by (simp add: s1_def p_def k_def Let_def)
  have sel: "length (procs s1) = NPROC" "cur s1 = cur s" "initproc s1 = initproc s"
    using Suc.prems(1) by (simp_all add: s1_def Let_def)
  have kl: "k < NPROC" "NPROC - n = Suc k" using Suc.prems(2) by (simp_all add: k_def)
  have ad: "adopt s1 = adopt s" by (rule ext) (simp add: adopt_def sel)
  have w: "woken (if k = i then adopt s (procs s ! i) else procs s ! i) (procs s1 ! i)"
  proof -
    define s2 where "s2 = upd_proc k (\<lambda>p. p\<lparr>p_parent := initproc s\<rparr>) s"
    have "woken (procs s2 ! i) (procs (wakeup1 c s2) ! i)" for c
      by (rule wakeup1_woken) (use Suc.prems in \<open>simp add: s2_def\<close>)
    moreover have "p_parent p = cur s \<Longrightarrow> procs s2 ! i = (if k = i then adopt s (procs s ! i) else procs s ! i)"
      using Suc.prems kl by (auto simp: s2_def adopt_def p_def nth_list_update)
    moreover have "p_parent p \<noteq> cur s \<Longrightarrow> k = i \<Longrightarrow> adopt s (procs s ! i) = procs s ! i"
      by (simp add: adopt_def p_def)
    ultimately show ?thesis unfolding s1_def s2_def [symmetric] Let_def by (auto split: if_splits)
  qed
  have "woken (if Suc k \<le> i then adopt s (procs s1 ! i) else procs s1 ! i) (procs (reparent n s1) ! i)"
    using Suc.IH [of s1] Suc.prems sel kl unfolding ad by simp
  moreover have "woken (if k \<le> i then adopt s (procs s ! i) else procs s ! i)
      (if Suc k \<le> i then adopt s (procs s1 ! i) else procs s1 ! i)"
    using w woken_adopt [OF w, of s] by (auto split: if_splits)
  ultimately show ?case unfolding r k_def [symmetric] by (rule woken_trans [rotated])
qed simp


text \<open>The view of each slot the invariant looks at, after each operation.\<close>

lemma waitpid_Done:
  assumes "waitpid kend pid status s = Done r t"
  shows "t = s \<and> r = (-1, None) \<or>
    (\<exists>i. find_idx (\<lambda>p. is_wanted (cur s) pid p \<and> p_state p = ZOMBIE) (procs s) = Some i \<and> status \<noteq> 0 \<and>
         r = (p_pid (procs s ! i), Some (status, p_exit_status (procs s ! i))) \<and>
         procs t = (procs s)[i := reap_slot ((procs s ! i)\<lparr>p_kstack := 0\<rparr>)] \<and>
         nextpid t = nextpid s \<and> initproc t = initproc s \<and> cur t = cur s)"
proof (cases "find_idx (\<lambda>p. is_wanted (cur s) pid p \<and> p_state p = ZOMBIE) (procs s)")
  case None
  show ?thesis using assms unfolding waitpid_def None option.case
    by (auto simp: Let_def sleep_on_def split: if_splits option.splits)
next
  case (Some i)
  have il: "i < length (procs s)" using Some by (rule find_idx_SomeD)
  show ?thesis
  proof (cases "status = 0")
    case True
    then show ?thesis using assms Some by (simp add: waitpid_def Let_def)
  next
    case False
    obtain s1 s2 where 1: "kfree kend (p_kstack (procs s ! i)) s = Done () s1"
      and 2: "freevm kend (p_pgdir (procs s ! i)) (upd_proc i (\<lambda>p. p\<lparr>p_kstack := 0\<rparr>) s1) = Done () s2"
      and t: "t = upd_proc i reap_slot s2"
      and r: "r = (p_pid (procs s ! i), Some (status, p_exit_status (procs s ! i)))"
      using assms Some False by (auto simp: waitpid_def Let_def)
    note m = ptable_more_cong [OF kfree_more [OF 1]] ptable_more_cong [OF freevm_more [OF 2]]
    show ?thesis using Some False r il by (auto simp: t m)
  qed
qed

lemma switchuvm_Done:
  assumes "switchuvm k s = Done u t"
  shows "procs t = procs s" "nextpid t = nextpid s" "initproc t = initproc s" "cur t = cur s"
  using assms by (auto simp: switchuvm_def Let_def split: if_splits)

lemma sched_dispatch_Done:
  assumes "sched_dispatch k s = Done u t"
  shows "procs t = (procs s)[k := (procs s ! k)\<lparr>p_state := RUNNING\<rparr>]" "nextpid t = nextpid s"
    "initproc t = initproc s" "cur t = Some k"
  using assms by (auto simp: sched_dispatch_def dest: switchuvm_Done)

lemma yield_Done:
  assumes "yield me ls s = Some (Done u t)"
  shows "t = sched_back (on_cur (\<lambda>p. p\<lparr>p_state := RUNNABLE\<rparr>) s)"
  using assms by (auto simp: yield_def sched_def split: option.splits kres.splits if_splits)

lemma allocproc_cases:
  assumes "allocproc trapret forkret s = (r, t)"
  shows "((\<forall>p \<in> set (procs s). p_state p \<noteq> UNUSED) \<and> r = None \<and> t = s) \<or>
    (\<exists>i k p. find_idx (\<lambda>p. p_state p = UNUSED) (procs s) = Some i \<and> fst (kalloc s) = k \<and>
       (r = None \<longleftrightarrow> k = 0) \<and> (r = Some i \<longleftrightarrow> k \<noteq> 0) \<and>
       procs t = (procs s)[i := p] \<and>
       p_state p = (if k = 0 then UNUSED else EMBRYO) \<and> p_pid p = nextpid s \<and>
       p_parent p = p_parent (procs s ! i) \<and> p_killed p = p_killed (procs s ! i) \<and> p_kstack p = k \<and>
       nextpid t = s32 (nextpid s + 1) \<and> initproc t = initproc s \<and> cur t = cur s)"
proof (cases "find_idx (\<lambda>p. p_state p = UNUSED) (procs s)")
  case None
  then have "\<forall>p \<in> set (procs s). p_state p \<noteq> UNUSED" by simp
  then show ?thesis using assms unfolding allocproc_def None option.case by simp
next
  case (Some i)
  have il: "i < length (procs s)" using Some by (rule find_idx_SomeD)
  define s1 where "s1 = (upd_proc i (\<lambda>p. p\<lparr>p_state := EMBRYO, p_pid := nextpid s\<rparr>) s)\<lparr>nextpid := s32 (nextpid s + 1)\<rparr>"
  obtain k s2 where k: "kalloc s1 = (k, s2)" by (cases "kalloc s1")
  have k': "fst (kalloc s) = k" using k by (auto simp: kalloc_def Let_def s1_def)
  note m = ptable_more_cong [OF kalloc_more [OF k]]
  define s3 where "s3 = upd_proc i (\<lambda>p. p\<lparr>p_kstack := k\<rparr>) s2"
  define q where "q = (procs s ! i)\<lparr>p_state := EMBRYO, p_pid := nextpid s, p_kstack := k\<rparr>"
  have 1: "procs s3 = (procs s)[i := q]" "nextpid s3 = s32 (nextpid s + 1)" "initproc s3 = initproc s" "cur s3 = cur s"
    using il by (simp_all add: s3_def m s1_def q_def)
  define m3 where "m3 = put32 (memset (k + KSTACKSIZE - TF_SIZE - 4 - CTX_SIZE) 0 CTX_SIZE
     (put32 (memory s3) (k + KSTACKSIZE - TF_SIZE - 4) trapret))
     (k + KSTACKSIZE - TF_SIZE - 4 - CTX_SIZE + CTX_EIP) forkret"
  have "allocproc trapret forkret s =
    (if k = 0 then (None, upd_proc i (\<lambda>p. p\<lparr>p_state := UNUSED\<rparr>) s3)
     else (Some i, (upd_proc i (\<lambda>p. p\<lparr>p_tf := k + KSTACKSIZE - TF_SIZE,
       p_context := k + KSTACKSIZE - TF_SIZE - 4 - CTX_SIZE\<rparr>) s3)\<lparr>memory := m3\<rparr>))"
    unfolding allocproc_def Some option.case s1_def [symmetric]
    by (simp only: Let_def k prod.case s3_def [symmetric] m3_def [symmetric])
  then show ?thesis using assms Some k' il
    by (auto simp: 1 q_def split: if_splits)
qed

section \<open>Preservation of the invariant\<close>

lemma pt_invD:
  assumes "pt_inv s"
  shows "length (procs s) = NPROC" "i < NPROC \<Longrightarrow> slot_inv s i" "pids_ok s" "init_ok s"
    "cur s = Some c \<Longrightarrow> c < NPROC"
  using assms by (simp_all add: pt_inv_def)

lemma slot_invD:
  assumes "slot_inv s i"
  shows "0 \<le> p_pid (procs s ! i)" "p_pid (procs s ! i) < nextpid s"
    "p_state (procs s ! i) \<noteq> UNUSED \<Longrightarrow> 0 < p_pid (procs s ! i)"
    "p_state (procs s ! i) = RUNNING \<longleftrightarrow> cur s = Some i"
    "p_parent (procs s ! i) = Some j \<Longrightarrow> j < NPROC"
    "p_parent (procs s ! i) = Some j \<Longrightarrow> alive (p_state (procs s ! j))"
    "p_parent (procs s ! i) = Some j \<Longrightarrow> alive (p_state (procs s ! i)) \<or> p_state (procs s ! i) = ZOMBIE"
  using assms by (simp_all add: slot_inv_def Let_def)

lemma alive_simps [simp]:
  "alive SLEEPING" "alive RUNNABLE" "alive RUNNING" "\<not> alive UNUSED" "\<not> alive EMBRYO" "\<not> alive ZOMBIE"
  by (simp_all add: alive_def)

lemma pt_cur:
  assumes "pt_inv s" "cur s = Some c"
  shows "c < NPROC" "p_state (procs s ! c) = RUNNING"
  using assms slot_invD(4) [OF pt_invD(2) [OF assms(1) pt_invD(5) [OF assms]]] by (simp_all add: pt_invD)

lemma pt_running: "pt_inv s \<Longrightarrow> i < NPROC \<Longrightarrow> p_state (procs s ! i) = RUNNING \<longleftrightarrow> cur s = Some i"
  by (blast dest: pt_invD(2) slot_invD(4))

text \<open>Steps that keep pids and parents and at most move a live process to another live state.\<close>

lemma pt_inv_gentle:
  assumes inv: "pt_inv s" and len: "length (procs t) = NPROC"
    and slot: "\<And>i. i < NPROC \<Longrightarrow> p_pid (procs t ! i) = p_pid (procs s ! i) \<and>
       p_parent (procs t ! i) = p_parent (procs s ! i) \<and>
       (p_state (procs t ! i) = p_state (procs s ! i) \<or>
        alive (p_state (procs t ! i)) \<and> alive (p_state (procs s ! i)))"
    and run: "\<And>i. i < NPROC \<Longrightarrow> p_state (procs t ! i) = RUNNING \<longleftrightarrow> cur t = Some i"
    and same: "nextpid t = nextpid s" "initproc t = initproc s"
    and c: "\<And>c. cur t = Some c \<Longrightarrow> c < NPROC"
  shows "pt_inv t"
proof -
  have al: "i < NPROC \<Longrightarrow> alive (p_state (procs t ! i)) = alive (p_state (procs s ! i))" for i
    using slot [of i] by auto
  have un: "i < NPROC \<Longrightarrow> p_state (procs t ! i) = UNUSED \<longleftrightarrow> p_state (procs s ! i) = UNUSED"
    and zo: "i < NPROC \<Longrightarrow> p_state (procs t ! i) = ZOMBIE \<longleftrightarrow> p_state (procs s ! i) = ZOMBIE" for i
    using slot [of i] by auto
  have "slot_inv t i" if "i < NPROC" for i
    unfolding slot_inv_def Let_def
    using slot_invD [OF pt_invD(2) [OF inv that]] slot [OF that] run [OF that] al [OF that] al un [OF that] zo [OF that] same
    by (auto split: option.splits)
  moreover have "pids_ok t" using pt_invD(3) [OF inv] slot by (simp add: pids_ok_def)
  moreover have "init_ok t"
    using pt_invD(4) [OF inv] slot al same by (fastforce simp: init_ok_def split: option.splits)
  ultimately show ?thesis using len c by (simp add: pt_inv_def)
qed

lemma pt_inv_wakeup1: "pt_inv s \<Longrightarrow> pt_inv (wakeup1 c s)"
  by (rule pt_inv_gentle) (auto simp: pt_invD wakeup1_nth Let_def pt_running dest: pt_cur)

lemma pt_inv_kill:
  assumes "pt_inv s" "kill pid s = (r, t)"
  shows "pt_inv t"
proof (cases "find_idx (\<lambda>p. p_pid p = pid) (procs s)")
  case None
  show ?thesis using assms unfolding kill_def None option.case by simp
next
  case (Some i)
  have "i < NPROC" using find_idx_SomeD(1) [OF Some] pt_invD(1) [OF assms(1)] by simp
  moreover have "p_state (procs s ! i) = SLEEPING \<longrightarrow> cur s \<noteq> Some i"
    using pt_cur [OF assms(1)] by auto
  ultimately show ?thesis using assms(2)
    by (intro pt_inv_gentle [OF assms(1)])
      (auto simp: kill_def Some nth_list_update pt_invD [OF assms(1)] pt_running [OF assms(1)] split: if_splits)
qed

lemma sched_next_SomeD:
  assumes "sched_next i ps = Some k"
  shows "k < length ps" "p_state (ps ! k) = RUNNABLE"
  using assms
  by (fastforce simp: sched_next_def sched_pick_def find_idx_Some split: option.splits)+

lemma pt_inv_dispatch:
  assumes "pt_inv s" "cur s = None" "sched_next i (procs s) = Some k" "sched_dispatch k s = Done () t"
  shows "pt_inv t"
  using assms sched_next_SomeD [OF assms(3)] sched_dispatch_Done [OF assms(4)]
  by (intro pt_inv_gentle [OF assms(1)])
    (auto simp: nth_list_update pt_invD pt_running)

lemma pt_inv_leave:
  assumes "pt_inv s" "cur s = Some c" "p_pid (f (curproc s)) = p_pid (curproc s)"
    "p_parent (f (curproc s)) = p_parent (curproc s)" "alive (p_state (f (curproc s)))"
    "p_state (f (curproc s)) \<noteq> RUNNING"
  shows "pt_inv (sched_back (on_cur f s))"
proof -
  have c: "c < NPROC" "p_state (procs s ! c) = RUNNING"
    using pt_cur [OF assms(1,2)] by simp_all
  have "p_state (procs s ! i) \<noteq> RUNNING" if "i < NPROC" "i \<noteq> c" for i
    using that assms(2) pt_running [OF assms(1) that(1)] by auto
  with c show ?thesis using assms
    by (intro pt_inv_gentle [OF assms(1)]) (auto simp: nth_list_update curproc_def pt_invD)
qed

lemma pt_inv_local:
  assumes "pt_inv s" "map pview (procs t) = map pview (procs s)" "nextpid t = nextpid s"
    "initproc t = initproc s" "cur t = cur s"
  shows "pt_inv t"
proof -
  have len: "length (procs t) = NPROC" using pt_invD(1) [OF assms(1)] map_eq_imp_length_eq [OF assms(2)] by simp
  have "pview (procs t ! i) = pview (procs s ! i)" if "i < NPROC" for i
    using arg_cong [OF assms(2), of "\<lambda>l. l ! i"] that len pt_invD(1) [OF assms(1)] by simp
  then show ?thesis using assms len
    by (intro pt_inv_gentle [OF assms(1)]) (auto simp: pview_def pt_invD pt_running)
qed

lemma nonalive_no_child:
  assumes "pt_inv s" "i < NPROC" "j < NPROC" "\<not> alive (p_state (procs s ! i))"
  shows "p_parent (procs s ! j) \<noteq> Some i"
  using assms slot_invD(6) [OF pt_invD(2)] by blast

lemma pt_inv_alloc:
  assumes inv: "pt_inv s" and np: "nextpid s < 2 ^ 31 - 1" "1 \<le> nextpid s" and a: "allocproc trapret forkret s = (r, t)"
  shows "pt_inv t"
proof -
  consider "t = s" | i p where "find_idx (\<lambda>p. p_state p = UNUSED) (procs s) = Some i" "procs t = (procs s)[i := p]"
    "p_state p = UNUSED \<or> p_state p = EMBRYO" "p_pid p = nextpid s" "p_parent p = p_parent (procs s ! i)"
    "nextpid t = s32 (nextpid s + 1)" "initproc t = initproc s" "cur t = cur s"
    using allocproc_cases [OF a] by (metis (no_types, lifting))
  then show ?thesis
  proof cases
    case 1
    then show ?thesis using inv by simp
  next
    case 2
    have i: "i < NPROC" "p_state (procs s ! i) = UNUSED"
      using find_idx_SomeD [OF 2(1)] pt_invD(1) [OF inv] by simp_all
    have np': "nextpid t = nextpid s + 1" using 2(6) np by simp
    have nop: "p_parent (procs s ! i) = None"
      using slot_invD(7) [OF pt_invD(2) [OF inv i(1)]] i(2) by (cases "p_parent (procs s ! i)") auto
    have nc: "cur s \<noteq> Some i" using slot_invD(4) [OF pt_invD(2) [OF inv i(1)]] i(2) by simp
    have nch: "j < NPROC \<Longrightarrow> p_parent (procs s ! j) \<noteq> Some i" for j
      using nonalive_no_child [OF inv i(1)] i(2) by simp
    have old: "j < NPROC \<Longrightarrow> p_pid (procs s ! j) < nextpid s" for j
      using slot_invD(2) [OF pt_invD(2) [OF inv]] by simp
    have len: "length (procs s) = NPROC" using inv by (rule pt_invD)
    have "slot_inv t j" if "j < NPROC" for j
      unfolding slot_inv_def Let_def 2 np'
      using slot_invD [OF pt_invD(2) [OF inv that]] nch [OF that] nop nc i np 2(3-5) len
      by (auto simp: nth_list_update split: option.splits)
    moreover have "pids_ok t"
      unfolding pids_ok_def 2 using pt_invD(3) [OF inv] i len old
      by (auto simp: nth_list_update pids_ok_def 2(4)) (metis less_irrefl)+
    moreover have "init_ok t"
      using pt_invD(4) [OF inv] i len 2(3) unfolding init_ok_def 2
      by (auto simp: nth_list_update split: option.splits)
    ultimately show ?thesis using len pt_invD(5) [OF inv] by (simp add: pt_inv_def 2)
  qed
qed


lemma pt_inv_fork_fail:
  assumes inv: "pt_inv s" and i: "i < NPROC" "p_state (procs s ! i) = EMBRYO"
  shows "pt_inv (upd_proc i (\<lambda>p. p\<lparr>p_kstack := 0, p_state := UNUSED\<rparr>) s)"
proof -
  let ?t = "upd_proc i (\<lambda>p. p\<lparr>p_kstack := 0, p_state := UNUSED\<rparr>) s"
  have len: "length (procs s) = NPROC" using inv by (rule pt_invD)
  have nop: "p_parent (procs s ! i) = None"
    using slot_invD(7) [OF pt_invD(2) [OF inv i(1)]] i(2) by (cases "p_parent (procs s ! i)") auto
  have nch: "j < NPROC \<Longrightarrow> p_parent (procs s ! j) \<noteq> Some i" for j
    using nonalive_no_child [OF inv i(1)] i(2) by simp
  have "slot_inv ?t j" if "j < NPROC" for j
    unfolding slot_inv_def Let_def
    using slot_invD [OF pt_invD(2) [OF inv that]] nch [OF that] nop i len
    by (auto simp: nth_list_update split: option.splits)
  moreover have "pids_ok ?t"
    using pt_invD(3) [OF inv] i len by (auto simp: nth_list_update pids_ok_def)
  moreover have "init_ok ?t"
    using pt_invD(4) [OF inv] i len by (auto simp: init_ok_def nth_list_update split: option.splits)
  ultimately show ?thesis using len pt_invD(5) [OF inv] by (simp add: pt_inv_def)
qed

text \<open>A slot in state EMBRYO becomes runnable, with a live process or nobody as its parent.\<close>

lemma pt_inv_publish:
  assumes inv: "pt_inv s" and i: "i < NPROC" "p_state (procs s ! i) = EMBRYO"
    and t: "procs t = (procs s)[i := (procs s ! i)\<lparr>p_parent := q, p_state := RUNNABLE\<rparr>]"
      "nextpid t = nextpid s" "cur t = cur s"
    and q: "\<And>j. q = Some j \<Longrightarrow> j < NPROC \<and> alive (p_state (procs s ! j))"
    and ip: "initproc t = Some k" "k < NPROC" "k = i \<or> alive (p_state (procs s ! k))"
  shows "pt_inv t"
proof -
  have len: "length (procs s) = NPROC" using inv by (rule pt_invD)
  have nch: "j < NPROC \<Longrightarrow> p_parent (procs s ! j) \<noteq> Some i" for j
    using nonalive_no_child [OF inv i(1)] i(2) by simp
  have qi: "q \<noteq> Some i" using q i(2) by auto
  have "slot_inv t j" if "j < NPROC" for j
    unfolding slot_inv_def Let_def t
    using slot_invD [OF pt_invD(2) [OF inv that]] nch [OF that] i len q qi
    by (auto simp: nth_list_update split: option.splits)
  moreover have "pids_ok t"
    using pt_invD(3) [OF inv] i len by (auto simp: nth_list_update pids_ok_def t)
  moreover have "init_ok t"
    using ip i len by (auto simp: init_ok_def nth_list_update t)
  ultimately show ?thesis using len pt_invD(5) [OF inv] by (simp add: pt_inv_def t)
qed

lemma pt_inv_reap:
  assumes inv: "pt_inv s" and i: "i < NPROC" "p_state (procs s ! i) = ZOMBIE"
    and t: "procs t = (procs s)[i := reap_slot ((procs s ! i)\<lparr>p_kstack := 0\<rparr>)]"
      "nextpid t = nextpid s" "initproc t = initproc s" "cur t = cur s" and np: "0 < nextpid s"
  shows "pt_inv t"
proof -
  have len: "length (procs s) = NPROC" using inv by (rule pt_invD)
  have nch: "j < NPROC \<Longrightarrow> p_parent (procs s ! j) \<noteq> Some i" for j
    using nonalive_no_child [OF inv i(1)] i(2) by simp
  have "slot_inv t j" if "j < NPROC" for j
    unfolding slot_inv_def Let_def t
    using slot_invD [OF pt_invD(2) [OF inv that]] nch [OF that] i len np
    by (auto simp: nth_list_update reap_slot_def split: option.splits)
  moreover have "pids_ok t"
    using pt_invD(3) [OF inv] i len by (auto simp: nth_list_update pids_ok_def t reap_slot_def)
  moreover have "init_ok t"
    using pt_invD(4) [OF inv] i len by (fastforce simp: init_ok_def nth_list_update t split: option.splits)
  ultimately show ?thesis using len pt_invD(5) [OF inv] by (simp add: pt_inv_def t)
qed

text \<open>Every slot after the locked part of exit.\<close>

lemma exit_tail_slot:
  assumes len: "length (procs s) = NPROC" and c: "cur s = Some c" "c < NPROC" and ip: "initproc s \<noteq> Some c"
    and i: "i < NPROC"
  obtains q where "woken (adopt s (procs s ! i)) q"
    "procs (exit_tail s) ! i = (if i = c then q\<lparr>p_state := ZOMBIE\<rparr> else q)"
proof -
  define s1 where "s1 = wakeup1 (map_option ChanProc (p_parent (curproc s))) s"
  have sel: "length (procs s1) = NPROC" "cur s1 = Some c" "initproc s1 = initproc s"
    using len c by (simp_all add: s1_def)
  have "woken (adopt s1 (procs s1 ! i)) (procs (reparent NPROC s1) ! i)"
    using reparent_nth [of s1 NPROC i] sel i ip by simp
  moreover have "woken (procs s ! i) (procs s1 ! i)"
    unfolding s1_def by (rule wakeup1_woken) (simp add: len i)
  moreover have "adopt s1 = adopt s" by (rule ext) (simp add: adopt_def sel c)
  ultimately have "woken (adopt s (procs s ! i)) (procs (reparent NPROC s1) ! i)"
    using woken_adopt woken_trans by metis
  moreover have "exit_tail s = sched_back (on_cur (\<lambda>p. p\<lparr>p_state := ZOMBIE\<rparr>) (reparent NPROC s1))"
    by (simp only: exit_tail_def Let_def s1_def)
  ultimately show thesis
    by (intro that) (use sel c i in \<open>auto simp: nth_list_update curproc_def\<close>)
qed

lemma exit_tail_sel [simp]:
  "nextpid (exit_tail s) = nextpid s" "initproc (exit_tail s) = initproc s" "cur (exit_tail s) = None"
  "length (procs (exit_tail s)) = length (procs s)"
  by (simp_all add: exit_tail_def Let_def)

lemma pt_inv_exit:
  assumes inv: "pt_inv s" and c: "cur s = Some c" and ip: "initproc s \<noteq> Some c"
  shows "pt_inv (exit_tail s)"
proof -
  let ?t = "exit_tail s"
  have len: "length (procs s) = NPROC" using inv by (rule pt_invD)
  note cl = pt_cur [OF inv c]
  obtain k where k: "initproc s = Some k" "k < NPROC" "alive (p_state (procs s ! k))" "k \<noteq> c"
    using pt_invD(4) [OF inv] cl ip by (fastforce simp: init_ok_def split: option.splits)
  have sl: "p_pid (procs ?t ! i) = p_pid (procs s ! i) \<and>
      p_parent (procs ?t ! i) = (if p_parent (procs s ! i) = Some c then Some k else p_parent (procs s ! i)) \<and>
      p_state (procs ?t ! i) =
        (if i = c then ZOMBIE else if p_state (procs ?t ! i) = RUNNABLE \<and> p_state (procs s ! i) = SLEEPING
         then RUNNABLE else p_state (procs s ! i))" if i: "i < NPROC" for i
    by (rule exit_tail_slot [OF len c cl(1) ip i]) (auto simp: woken_def adopt_def c k)
  have al: "alive (p_state (procs ?t ! i)) \<longleftrightarrow> i \<noteq> c \<and> alive (p_state (procs s ! i))" if "i < NPROC" for i
    using sl [OF that] cl by (auto split: if_splits)
  have "slot_inv ?t i" if i: "i < NPROC" for i
  proof -
    have "p_state (procs ?t ! i) \<noteq> RUNNING"
      using sl [OF i] pt_running [OF inv i] c by (auto split: if_splits)
    moreover have "p_state (procs ?t ! i) \<noteq> UNUSED \<longrightarrow> p_state (procs s ! i) \<noteq> UNUSED"
      using sl [OF i] cl by (auto split: if_splits)
    moreover have "p_state (procs s ! i) = ZOMBIE \<longrightarrow> p_state (procs ?t ! i) = ZOMBIE"
      using sl [OF i] by (auto split: if_splits)
    moreover have "i = c \<longrightarrow> p_state (procs ?t ! i) = ZOMBIE" using sl [OF i] by presburger
    ultimately show ?thesis
      unfolding slot_inv_def Let_def
      using slot_invD [OF pt_invD(2) [OF inv i]] sl [OF i] al k(2-4) i
      by (auto split: option.splits)
  qed
  moreover have "pids_ok ?t" using pt_invD(3) [OF inv] sl by (simp add: pids_ok_def)
  moreover have "init_ok ?t" using k al by (simp add: init_ok_def)
  ultimately show ?thesis using len by (simp add: pt_inv_def)
qed


lemma pt_step_inv:
  assumes "pt_step b s t" "pt_inv s" "1 \<le> nextpid s" "b \<Longrightarrow> nextpid s < 2 ^ 31 - 1"
  shows "pt_inv t \<and> nextpid s \<le> nextpid t \<and> nextpid t \<le> nextpid s + of_bool b"
  using assms
proof (cases rule: pt_step.cases)
  case (st_alloc trapret forkret r)
  have "nextpid t = nextpid s \<or> nextpid t = nextpid s + 1"
    using allocproc_cases [OF st_alloc(2)] assms(3,4) st_alloc(1) by auto
  moreover have "pt_inv t" using pt_inv_alloc [OF assms(2) _ assms(3) st_alloc(2)] assms(4) st_alloc(1) by simp
  ultimately show ?thesis using st_alloc(1) by auto
next
  case (st_fork_fail i)
  then show ?thesis using pt_inv_fork_fail [OF assms(2)] by simp
next
  case (st_fork_publish i c)
  note c = pt_cur [OF assms(2) st_fork_publish(5)]
  obtain k where "initproc s = Some k" "k < NPROC" "alive (p_state (procs s ! k))"
    using pt_invD(4) [OF assms(2)] c by (fastforce simp: init_ok_def split: option.splits)
  then show ?thesis using st_fork_publish c
    by (auto intro!: pt_inv_publish [OF assms(2) st_fork_publish(3,4), where q = "cur s" and k = k])
next
  case (st_userinit_publish i)
  have "p_parent (procs s ! i) = None"
    using slot_invD(7) [OF pt_invD(2) [OF assms(2) st_userinit_publish(3)]] st_userinit_publish(4)
    by (cases "p_parent (procs s ! i)") auto
  then have "(procs s ! i)\<lparr>p_state := RUNNABLE\<rparr> = (procs s ! i)\<lparr>p_parent := None, p_state := RUNNABLE\<rparr>"
    by (cases "procs s ! i") simp
  then show ?thesis using st_userinit_publish
    by (auto intro!: pt_inv_publish [OF assms(2) st_userinit_publish(3,4), where q = None and k = i])
next
  case (st_wakeup c)
  then show ?thesis using pt_inv_wakeup1 [OF assms(2)] by (simp add: wakeup_def)
next
  case (st_kill pid r)
  then show ?thesis using pt_inv_kill [OF assms(2)] by (auto simp: kill_def split: option.splits)
next
  case (st_dispatch i k)
  then show ?thesis using pt_inv_dispatch [OF assms(2)] sched_dispatch_Done by fastforce
next
  case (st_yield c me ls)
  then show ?thesis using yield_Done [OF st_yield(3)] pt_inv_leave [OF assms(2)] by simp
next
  case (st_sleep c u)
  then obtain i where i: "cur s = Some i" and u: "u = on_cur (\<lambda>p. p\<lparr>p_chan := Some c, p_state := SLEEPING\<rparr>) s"
    by (auto simp: sleep_on_def on_cur_def split: option.splits)
  show ?thesis using pt_inv_leave [OF assms(2) i] st_sleep(1,2) by (simp add: u)
next
  case (st_waitpid c kend pid status r)
  from waitpid_Done [OF st_waitpid(3)] show ?thesis
  proof (elim disjE exE conjE)
    fix i
    assume f: "find_idx (\<lambda>p. is_wanted (cur s) pid p \<and> p_state p = ZOMBIE) (procs s) = Some i"
      and t: "procs t = (procs s)[i := reap_slot ((procs s ! i)\<lparr>p_kstack := 0\<rparr>)]"
        "nextpid t = nextpid s" "initproc t = initproc s" "cur t = cur s"
    have "i < NPROC" "p_state (procs s ! i) = ZOMBIE"
      using find_idx_SomeD [OF f] pt_invD(1) [OF assms(2)] by simp_all
    then show ?thesis using pt_inv_reap [OF assms(2) _ _ t] assms(3) t(2) st_waitpid(1) by simp
  qed (use assms(2) st_waitpid(1) in simp)
next
  case (st_exit c)
  then show ?thesis using pt_inv_exit [OF assms(2)] by simp
next
  case st_local
  then show ?thesis using pt_inv_local [OF assms(2)] by simp
qed

lemma pt_empty_inv: "pt_empty s \<Longrightarrow> pt_inv s"
proof -
  assume e: "pt_empty s"
  have "pview (procs s ! i) = (0, UNUSED, None)" if "i < NPROC" for i
    using e that by (simp add: pt_empty_def)
  then show ?thesis using e
    by (simp add: pt_inv_def pt_empty_def slot_inv_def Let_def pids_ok_def init_ok_def pview_def)
qed

lemma pt_reach_inv:
  assumes "pt_reach n s" "int n < 2 ^ 31 - 1"
  shows "pt_inv s \<and> 1 \<le> nextpid s \<and> nextpid s \<le> int n + 1"
  using assms
proof (induction rule: pt_reach.induct)
  case (r_init s)
  then show ?case using pt_empty_inv by (simp add: pt_empty_def)
next
  case (r_step n s b t)
  have IH: "pt_inv s" "1 \<le> nextpid s" "nextpid s \<le> int n + 1" using r_step.IH r_step.prems by (cases b; simp)+
  have "b \<Longrightarrow> nextpid s < 2 ^ 31 - 1" using IH(3) r_step.prems by simp
  from pt_step_inv [OF r_step.hyps(2) IH(1,2) this] show ?case using IH by auto
qed

section \<open>Scheduling is fair\<close>

text \<open>
  The table may change between two picks in any way (\<open>pss t\<close> is the table at pick \<open>t\<close>);
  after a pick of slot \<open>k\<close> the loop goes on at \<open>k + 1\<close>.
\<close>

primrec sched_pos :: "(nat \<Rightarrow> proc list) \<Rightarrow> nat \<Rightarrow> nat \<Rightarrow> nat" where
  "sched_pos pss i 0 = i"
| "sched_pos pss i (Suc t) =
     (case sched_next (sched_pos pss i t) (pss t) of Some k \<Rightarrow> Suc k | None \<Rightarrow> sched_pos pss i t)"

definition sched_dist :: "nat \<Rightarrow> nat \<Rightarrow> nat" where
  "sched_dist i k = (if i \<le> k then k - i else NPROC - i + k)"

lemma sched_pick_Some:
  "sched_pick i ps = Some k \<longleftrightarrow> i \<le> k \<and> k < length ps \<and> p_state (ps ! k) = RUNNABLE \<and>
     (\<forall>j. i \<le> j \<longrightarrow> j < k \<longrightarrow> p_state (ps ! j) \<noteq> RUNNABLE)"
proof -
  have "sched_pick i ps = Some k \<longleftrightarrow> i \<le> k \<and> find_idx (\<lambda>p. p_state p = RUNNABLE) (drop i ps) = Some (k - i)"
    by (auto simp: sched_pick_def)
  also have "\<dots> \<longleftrightarrow> i \<le> k \<and> k < length ps \<and> p_state (ps ! k) = RUNNABLE \<and>
     (\<forall>j < k - i. p_state (ps ! (i + j)) \<noteq> RUNNABLE)"
    by (auto simp: find_idx_Some)
  also have "\<dots> \<longleftrightarrow> i \<le> k \<and> k < length ps \<and> p_state (ps ! k) = RUNNABLE \<and>
     (\<forall>j. i \<le> j \<longrightarrow> j < k \<longrightarrow> p_state (ps ! j) \<noteq> RUNNABLE)"
    by (simp only: shift_all [where P = "\<lambda>j. p_state (ps ! j) \<noteq> RUNNABLE"])
  finally show ?thesis .
qed

lemma sched_pick_None: "sched_pick i ps = None \<longleftrightarrow> (\<forall>j. i \<le> j \<longrightarrow> j < length ps \<longrightarrow> p_state (ps ! j) \<noteq> RUNNABLE)"
  using shift_all [of "length ps" i "\<lambda>j. p_state (ps ! j) \<noteq> RUNNABLE"]
  by (simp add: sched_pick_def all_set_conv_all_nth)

lemma sched_next_dist:
  assumes "length ps = NPROC" "k < NPROC" "p_state (ps ! k) = RUNNABLE" "i \<le> NPROC"
  shows "\<exists>j. sched_next i ps = Some j \<and> j < NPROC \<and> (j = k \<or> sched_dist (Suc j) k < sched_dist i k)"
proof (cases "sched_pick i ps")
  case None
  have ki: "k < i" using None assms by (auto simp: sched_pick_None not_le)
  obtain j where j: "sched_pick 0 ps = Some j"
    using sched_pick_None [of 0 ps] assms by (cases "sched_pick 0 ps") auto
  then have "j \<le> k" "j < NPROC" using assms by (auto simp: sched_pick_Some not_less[symmetric])
  then show ?thesis using None j ki assms(4) by (auto simp: sched_next_def sched_dist_def)
next
  case (Some j)
  then have j: "i \<le> j" "j < NPROC" "i \<le> k \<Longrightarrow> j \<le> k"
    using assms by (auto simp: sched_pick_Some not_less[symmetric])
  then have "j = k \<or> sched_dist (Suc j) k < sched_dist i k"
    by (auto simp: sched_dist_def)
  then show ?thesis using Some j by (auto simp: sched_next_def)
qed

lemma sched_fair_dist:
  assumes "k < NPROC" "i \<le> NPROC" "\<And>t. t \<le> sched_dist i k \<Longrightarrow> length (pss t) = NPROC \<and> p_state (pss t ! k) = RUNNABLE"
  shows "\<exists>t \<le> sched_dist i k. sched_next (sched_pos pss i t) (pss t) = Some k"
  using assms(2,3)
proof (induction "sched_dist i k" arbitrary: i pss rule: less_induct)
  case less
  obtain j where j: "sched_next i (pss 0) = Some j" "j < NPROC" "j = k \<or> sched_dist (Suc j) k < sched_dist i k"
    using sched_next_dist [of "pss 0" k i] less.prems assms(1) by auto
  show ?case
  proof (cases "j = k")
    case True
    then show ?thesis using j by (intro exI [of _ 0]) simp
  next
    case False
    have sh: "sched_pos pss i (Suc t) = sched_pos (\<lambda>t. pss (Suc t)) (Suc j) t" for t
    proof (induction t)
      case (Suc t)
      then show ?case
        by (simp only: sched_pos.simps(2) [of pss i "Suc t"] sched_pos.simps(2) [of "\<lambda>t. pss (Suc t)" "Suc j" t])
    qed (simp add: j)
    have "\<exists>t \<le> sched_dist (Suc j) k. sched_next (sched_pos (\<lambda>t. pss (Suc t)) (Suc j) t) (pss (Suc t)) = Some k"
      by (rule less.hyps) (use False j less.prems in auto)
    then obtain t where "t \<le> sched_dist (Suc j) k" "sched_next (sched_pos pss i (Suc t)) (pss (Suc t)) = Some k"
      unfolding sh by auto
    then show ?thesis using False j by (intro exI [of _ "Suc t"]) auto
  qed
qed

text \<open>
  C7. A process that stays runnable is chosen within NPROC picks of the scheduler, wherever
  its loop stands and whatever happens to the other slots meanwhile.
\<close>

theorem scheduler_fair:
  assumes "k < NPROC" "i \<le> NPROC" "\<And>t. t < NPROC \<Longrightarrow> length (pss t) = NPROC \<and> p_state (pss t ! k) = RUNNABLE"
  shows "\<exists>t < NPROC. sched_next (sched_pos pss i t) (pss t) = Some k"
proof -
  have d: "sched_dist i k < NPROC" using assms(1,2) by (auto simp: sched_dist_def)
  have "\<exists>t \<le> sched_dist i k. sched_next (sched_pos pss i t) (pss t) = Some k"
    by (rule sched_fair_dist) (use assms d in auto)
  then show ?thesis using d by (meson le_less_trans)
qed


definition empty_proc :: proc where
  "empty_proc = \<lparr>p_sz = 0, p_pgdir = 0, p_kstack = 0, p_state = UNUSED, p_pid = 0, p_parent = None, p_tf = 0,
     p_context = 0, p_chan = None, p_killed = False, p_ofile = replicate NOFILE None, p_cwd = None,
     p_name = (\<lambda>_. 0), p_exit_status = 0, p_job = 0, p_pending = 0, p_signal_handlers = replicate SIGNUM 0\<rparr>"

theorem scheduler_fair_witness:
  "\<exists>t < NPROC. sched_next (sched_pos (\<lambda>_. replicate NPROC (empty_proc\<lparr>p_state := RUNNABLE\<rparr>)) 7 t)
     (replicate NPROC (empty_proc\<lparr>p_state := RUNNABLE\<rparr>)) = Some 3"
  using scheduler_fair [of 3 7 "\<lambda>_. replicate NPROC (empty_proc\<lparr>p_state := RUNNABLE\<rparr>)"]
  by (simp add: NPROC_def)

section \<open>Properties of the table\<close>

definition empty_table :: ptable_state where
  "empty_table = \<lparr>memory = (\<lambda>_. 0), use_lock = True, freelist = 0, procs = replicate NPROC empty_proc,
     nextpid = 1, initproc = None, cur = None, cr3 = 0, esp0 = 0, kpgdir = 0\<rparr>"

lemma empty_table_empty: "pt_empty empty_table"
  by (simp add: pt_empty_def empty_table_def empty_proc_def pview_def)

text \<open>
  C4. In every state the table reaches within 2^31 - 2 calls of allocproc: slots in use have
  distinct positive pids, at most the current process is RUNNING, every parent link
  names a live slot (never a free slot, an embryo or a zombie), and the init process is alive once it
  exists.
\<close>

theorem process_table_sound:
  assumes "pt_reach n s" "int n < 2 ^ 31 - 1"
  shows "(\<forall>i j. i < NPROC \<and> j < NPROC \<and> p_state (procs s ! i) \<noteq> UNUSED \<longrightarrow>
            0 < p_pid (procs s ! i) \<and> (j \<noteq> i \<longrightarrow> p_pid (procs s ! j) \<noteq> p_pid (procs s ! i)) \<and>
            (p_state (procs s ! i) = RUNNING \<longleftrightarrow> cur s = Some i) \<and>
            (p_parent (procs s ! i) = Some j \<longrightarrow> alive (p_state (procs s ! j)))) \<and>
         (\<forall>k. initproc s = Some k \<longrightarrow> k < NPROC \<and> alive (p_state (procs s ! k)))"
proof (intro conjI allI impI; (elim conjE)?)
  have inv: "pt_inv s" using pt_reach_inv assms by blast
  show "k < NPROC" "alive (p_state (procs s ! k))" if "initproc s = Some k" for k
    using pt_invD(4) [OF inv] that by (simp_all add: init_ok_def)
  fix i j assume i: "i < NPROC" "p_state (procs s ! i) \<noteq> UNUSED" and j: "j < NPROC"
  note sl = slot_invD [OF pt_invD(2) [OF inv i(1)]]
  show p: "0 < p_pid (procs s ! i)" using sl i by blast
  show "p_pid (procs s ! j) \<noteq> p_pid (procs s ! i)" if "j \<noteq> i"
    using pt_invD(3) [OF inv] p that i j unfolding pids_ok_def by (metis less_irrefl)
  show "p_state (procs s ! i) = RUNNING \<longleftrightarrow> cur s = Some i" by (fact sl(4))
  show "alive (p_state (procs s ! j))" if "p_parent (procs s ! i) = Some j"
    using sl that by blast
qed

text \<open>A concrete history: init starts, forks a child and waits, and the child runs.\<close>

definition mk_proc :: "int \<times> procstate \<times> nat option \<Rightarrow> proc" where
  "mk_proc v = (case v of (pid, st, par) \<Rightarrow>
     empty_proc\<lparr>p_pid := pid, p_state := st, p_parent := par, p_pgdir := 0x80700000,
       p_chan := (if st = SLEEPING then Some (ChanProc 0) else None)\<rparr>)"

definition mk_table :: "(int \<times> procstate \<times> nat option) list \<Rightarrow> int \<Rightarrow> nat option \<Rightarrow> nat option \<Rightarrow> ptable_state" where
  "mk_table vs np ip cu =
     \<lparr>memory = (\<lambda>_. 0), use_lock = True, freelist = 0x80400000,
      procs = map mk_proc vs @ replicate (NPROC - length vs) (mk_proc (0, UNUSED, None)),
      nextpid = np, initproc = ip, cur = cu, cr3 = 0, esp0 = 0, kpgdir = 0\<rparr>"

lemma pview_mk_proc [simp]: "pview (mk_proc v) = v"
  by (cases v) (simp add: pview_def mk_proc_def)

lemma mk_proc_sel [simp]:
  "p_pid (mk_proc (pid, st, par)) = pid" "p_state (mk_proc (pid, st, par)) = st"
  "p_parent (mk_proc (pid, st, par)) = par" "p_pgdir (mk_proc (pid, st, par)) = 0x80700000"
  by (simp_all add: mk_proc_def)

lemma mk_table_sel [simp]:
  "nextpid (mk_table vs np ip cu) = np" "initproc (mk_table vs np ip cu) = ip" "cur (mk_table vs np ip cu) = cu"
  "procs (mk_table vs np ip cu) = map mk_proc vs @ replicate (NPROC - length vs) (mk_proc (0, UNUSED, None))"
  by (simp_all add: mk_table_def)

text \<open>Bring a reached state to the shape \<open>mk_table\<close>.\<close>

lemma pt_reach_mk:
  fixes s t :: ptable_state
  assumes "pt_reach n s" "pt_step b s t" "map pview (procs t) = vs @ replicate (NPROC - length vs) (0, UNUSED, None)"
    "nextpid t = np" "initproc t = ip" "cur t = cu"
  shows "pt_reach (n + of_bool b) (mk_table vs np ip cu)"
proof -
  have "pt_reach (n + of_bool b) t" by (rule r_step [OF assms(1,2)])
  moreover have "pt_step False t (mk_table vs np ip cu)"
    by (rule st_local) (simp_all add: assms comp_def)
  ultimately show ?thesis using r_step by fastforce
qed

text \<open>allocproc takes the first free slot of such a table.\<close>

lemma pt_reach_mk_alloc:
  assumes "pt_reach n (mk_table vs np ip cu)" "\<forall>v \<in> set vs. fst (snd v) \<noteq> UNUSED" "length vs < NPROC"
    "0 < np" "np < 2 ^ 31 - 1"
  shows "pt_reach (Suc n) (mk_table (vs @ [(np, EMBRYO, None)]) (np + 1) ip cu)"
proof -
  let ?s = "mk_table vs np ip cu"
  let ?e = "(0, UNUSED, None) :: int \<times> procstate \<times> nat option"
  obtain r t where a: "allocproc 0 0 ?s = (r, t)" by (cases "allocproc 0 0 ?s")
  have n0: "find_idx (\<lambda>p. p_state p = UNUSED) (map mk_proc vs) = None"
    using assms(2) by (fastforce simp: mk_proc_def)
  have f: "find_idx (\<lambda>p. p_state p = UNUSED) (procs ?s) = Some (length vs)"
    unfolding mk_table_sel find_idx_append n0 option.case by (simp add: find_idx_replicate assms(3))
  have k: "fst (kalloc ?s) \<noteq> 0" by (simp add: kalloc_def mk_table_def)
  have rep: "replicate (NPROC - length vs) x = x # replicate (NPROC - Suc (length vs)) x" for x :: 'b
    using assms(3) by (metis Suc_diff_Suc replicate_Suc)
  have "\<exists>p \<in> set (procs ?s). p_state p = UNUSED" using find_idx_SomeD [OF f] nth_mem by blast
  then obtain p where p: "procs t = (procs ?s)[length vs := p]" "p_state p = EMBRYO" "p_pid p = np" "p_parent p = None"
      "nextpid t = np + 1" "initproc t = ip" "cur t = cu"
    using allocproc_cases [OF a] f k assms(3-5) by (auto simp: nth_append)
  have "map pview (procs t) = (vs @ [(np, EMBRYO, None)]) @ replicate (NPROC - length (vs @ [(np, EMBRYO, None)])) ?e"
    using p(2-4) by (simp add: p(1) rep map_update list_update_append comp_def) (simp add: pview_def)
  from pt_reach_mk [OF assms(1) st_alloc [OF a] this p(5-7)] show ?thesis by simp
qed

definition forked_table :: ptable_state where
  "forked_table = mk_table [(1, SLEEPING, None), (2, RUNNING, Some 0)] 3 (Some 0) (Some 1)"

lemma empty_reach: "pt_reach 0 (mk_table [] 1 None None)"
  by (rule r_init) (simp add: pt_empty_def)

lemma forked_reach: "pt_reach 2 forked_table"
proof -
  have 1: "pt_reach 1 (mk_table [(1, EMBRYO, None)] 2 None None)"
    using pt_reach_mk_alloc [OF empty_reach] by (simp add: NPROC_def)
  have 2: "pt_reach (1 + of_bool False) (mk_table [(1, RUNNABLE, None)] 2 (Some 0) None)"
    by (rule pt_reach_mk [OF 1 st_userinit_publish [of 0]]) (simp_all add: NPROC_def pview_def)
  have 3: "pt_reach (Suc 0 + of_bool False) (mk_table [(1, RUNNING, None)] 2 (Some 0) (Some 0))"
  proof (rule pt_reach_mk [OF 2 [simplified]])
    show "pt_step False (mk_table [(1, RUNNABLE, None)] 2 (Some 0) None)
        (upd_proc 0 (\<lambda>p. p\<lparr>p_state := RUNNING\<rparr>)
           ((mk_table [(1, RUNNABLE, None)] 2 (Some 0) None)\<lparr>cur := Some 0, esp0 := 4096, cr3 := 0x700000\<rparr>))"
      by (rule st_dispatch [of _ 0 0])
        (simp_all add: sched_next_def sched_pick_def sched_dispatch_def switchuvm_def Let_def curproc_def mk_proc_def
          empty_proc_def KSTACKSIZE_def mem_consts)
  qed (simp_all add: pview_def)
  have 4: "pt_reach 2 (mk_table [(1, RUNNING, None), (2, EMBRYO, None)] 3 (Some 0) (Some 0))"
    using pt_reach_mk_alloc [OF 3] by (simp add: NPROC_def numeral_2_eq_2)
  have 5: "pt_reach (2 + of_bool False) (mk_table [(1, RUNNING, None), (2, RUNNABLE, Some 0)] 3 (Some 0) (Some 0))"
    by (rule pt_reach_mk [OF 4 st_fork_publish [of 1]]) (simp_all add: NPROC_def pview_def)
  have 6: "pt_reach (2 + of_bool False) (mk_table [(1, SLEEPING, None), (2, RUNNABLE, Some 0)] 3 (Some 0) None)"
    by (rule pt_reach_mk [OF 5 [simplified] st_sleep [of "ChanProc 0"]])
      (simp add: sleep_on_def, simp_all add: NPROC_def pview_def)
  have 7: "pt_reach (2 + of_bool False) (mk_table [(1, SLEEPING, None), (2, RUNNING, Some 0)] 3 (Some 0) (Some 1))"
  proof (rule pt_reach_mk [OF 6 [simplified]])
    show "pt_step False (mk_table [(1, SLEEPING, None), (2, RUNNABLE, Some 0)] 3 (Some 0) None)
        (upd_proc 1 (\<lambda>p. p\<lparr>p_state := RUNNING\<rparr>)
           ((mk_table [(1, SLEEPING, None), (2, RUNNABLE, Some 0)] 3 (Some 0) None)
             \<lparr>cur := Some 1, esp0 := 4096, cr3 := 0x700000\<rparr>))"
      by (rule st_dispatch [of _ 0 1])
        (simp_all add: sched_next_def sched_pick_def sched_dispatch_def switchuvm_def Let_def curproc_def mk_proc_def
          empty_proc_def KSTACKSIZE_def mem_consts)
  qed (simp_all add: pview_def)
  then show ?thesis by (simp add: forked_table_def)
qed

theorem process_table_sound_witness:
  "pt_reach 2 forked_table \<and> initproc forked_table = Some 0 \<and>
   alive (p_state (procs forked_table ! 0)) \<and> 0 < p_pid (procs forked_table ! 0)"
proof -
  have i: "initproc forked_table = Some 0" by (simp add: forked_table_def)
  have b: "int 2 < 2 ^ 31 - 1" by simp
  note ps = process_table_sound [OF forked_reach b]
  have a: "alive (p_state (procs forked_table ! 0))" using ps i by blast
  moreover have "0 < p_pid (procs forked_table ! 0)"
    using ps [THEN conjunct1, rule_format, of 0 0] a by (auto simp: NPROC_def alive_def)
  ultimately show ?thesis using i forked_reach by blast
qed

section \<open>Life cycle\<close>

inductive life_edge :: "procstate \<Rightarrow> procstate \<Rightarrow> bool" where
  le_alloc: "life_edge UNUSED EMBRYO"
| le_fail: "life_edge EMBRYO UNUSED"
| le_publish: "life_edge EMBRYO RUNNABLE"
| le_run: "life_edge RUNNABLE RUNNING"
| le_yield: "life_edge RUNNING RUNNABLE"
| le_sleep: "life_edge RUNNING SLEEPING"
| le_wake: "life_edge SLEEPING RUNNABLE"
| le_exit: "life_edge RUNNING ZOMBIE"
| le_reap: "life_edge ZOMBIE UNUSED"

inductive_simps life_edge_from: "life_edge UNUSED x" "life_edge EMBRYO x" "life_edge RUNNABLE x"
  "life_edge RUNNING x" "life_edge SLEEPING x" "life_edge ZOMBIE x"

text \<open>
  C29. Every step moves every slot along one edge of the life cycle or leaves its state
  alone: UNUSED to EMBRYO to RUNNABLE to RUNNING, from there to RUNNABLE, SLEEPING or ZOMBIE, from SLEEPING
  to RUNNABLE only, from ZOMBIE to UNUSED only.
\<close>

theorem process_life_cycle:
  assumes "pt_reach n s" "int n < 2 ^ 31 - 1" "pt_step b s t" "i < NPROC"
  shows "p_state (procs t ! i) = p_state (procs s ! i) \<or> life_edge (p_state (procs s ! i)) (p_state (procs t ! i))"
proof -
  have inv: "pt_inv s" using pt_reach_inv assms(1,2) by blast
  have len: "length (procs s) = NPROC" by (rule pt_invD [OF inv])
  from assms(3) show ?thesis
  proof (cases rule: pt_step.cases)
    case (st_alloc trapret forkret r)
    show ?thesis using allocproc_cases [OF st_alloc(2)] assms(4) len
      by (auto simp: nth_upd life_edge_from dest!: find_idx_SomeD(2) split: if_splits)
  next
    case (st_dispatch j k)
    then show ?thesis using sched_dispatch_Done [OF st_dispatch(4)] sched_next_SomeD [OF st_dispatch(3)] assms(4) len
      by (auto simp: nth_upd life_edge_from)
  next
    case (st_yield c me ls)
    then show ?thesis using yield_Done [OF st_yield(3)] pt_cur [OF inv st_yield(2)] assms(4) len
      by (auto simp: nth_upd life_edge_from)
  next
    case (st_sleep c u)
    then show ?thesis using pt_cur [OF inv] assms(4) len
      by (auto simp: sleep_on_def nth_upd life_edge_from split: option.splits)
  next
    case (st_waitpid c kend pid status r)
    show ?thesis using waitpid_Done [OF st_waitpid(3)] assms(4) len
      by (auto simp: nth_upd life_edge_from reap_slot_def dest!: find_idx_SomeD(2))
  next
    case (st_exit c)
    note c = pt_cur [OF inv st_exit(3)]
    show ?thesis
      by (rule exit_tail_slot [OF len st_exit(3) c(1) st_exit(4) assms(4)])
        (use c in \<open>auto simp: st_exit(2) woken_def adopt_def life_edge_from split: if_splits\<close>)
  next
    case (st_kill pid r)
    then show ?thesis using assms(4) len
      by (auto simp: kill_def nth_upd life_edge_from dest!: find_idx_SomeD(1) split: option.splits)
  next
    case st_local
    then have "pview (procs t ! i) = pview (procs s ! i)"
      using assms(4) len by (metis map_eq_imp_length_eq nth_map)
    then show ?thesis by (simp add: pview_def)
  qed (use assms(4) len in \<open>auto simp: nth_upd life_edge_from wakeup_def wakeup1_nth Let_def\<close>)
qed

theorem process_life_cycle_witness:
  "p_state (procs (wakeup ChanTicks forked_table) ! 0) = p_state (procs forked_table ! 0) \<or>
   life_edge (p_state (procs forked_table ! 0)) (p_state (procs (wakeup ChanTicks forked_table) ! 0))"
  by (rule process_life_cycle [OF forked_reach _ st_wakeup]) (simp_all add: NPROC_def)


section \<open>Exit, wait, kill\<close>

lemma reparent_wakes_init:
  assumes "length (procs s) = NPROC" "n \<le> NPROC" "initproc s = Some k" "cur s \<noteq> Some k" "k < NPROC"
    "NPROC - n \<le> i" "i < NPROC" "p_parent (procs s ! i) = cur s" "p_state (procs s ! i) = ZOMBIE"
    "p_state (procs s ! k) = SLEEPING" "p_chan (procs s ! k) = Some (ChanProc k)"
  shows "p_state (procs (reparent n s) ! k) = RUNNABLE"
  using assms
proof (induction n arbitrary: s)
  case (Suc n)
  define j where "j = NPROC - Suc n"
  define s2 where "s2 = upd_proc j (\<lambda>p. p\<lparr>p_parent := initproc s\<rparr>) s"
  define s1 where "s1 = (if p_parent (procs s ! j) = cur s then
      if p_state (procs s ! j) = ZOMBIE then wakeup1 (Some (ChanProc k)) s2 else s2 else s)"
  have r: "reparent (Suc n) s = reparent n s1"
    using Suc.prems(3) by (simp add: s1_def s2_def j_def Let_def)
  have jl: "j < NPROC" "NPROC - n = Suc j" using Suc.prems(2) by (simp_all add: j_def)
  have l: "length (procs s2) = NPROC" "length (procs s1) = NPROC" "cur s1 = cur s" "initproc s1 = Some k"
    using Suc.prems by (simp_all add: s1_def s2_def)
  have k2: "p_state (procs s2 ! k) = SLEEPING" "p_chan (procs s2 ! k) = Some (ChanProc k)"
    using Suc.prems by (auto simp: s2_def nth_upd)
  have nj: "procs s2 ! i' = procs s ! i'" if "i' \<noteq> j" for i' using that by (simp add: s2_def)
  show ?case
  proof (cases "p_state (procs s1 ! k) = RUNNABLE")
    case True
    have "woken (if NPROC - n \<le> k then adopt s1 (procs s1 ! k) else procs s1 ! k) (procs (reparent n s1) ! k)"
      by (rule reparent_nth) (use l Suc.prems in auto)
    then show ?thesis using True unfolding r by (auto simp: woken_def adopt_def split: if_splits)
  next
    case False
    then have ns: "s1 = s \<and> p_parent (procs s ! j) \<noteq> cur s \<or>
        s1 = s2 \<and> p_state (procs s ! j) \<noteq> ZOMBIE"
      using k2 l(1) Suc.prems(5) by (auto simp: s1_def wakeup1_nth split: if_splits)
    then have "i \<noteq> j" using Suc.prems(8,9) by auto
    moreover have "j \<le> i" using Suc.prems(6) by (simp add: j_def)
    ultimately show ?thesis unfolding r using ns l jl k2 Suc.prems nj
      by (intro Suc.IH) auto
  qed
qed simp

lemma exit_tail_eq:
  "exit_tail s = sched_back (on_cur (\<lambda>p. p\<lparr>p_state := ZOMBIE\<rparr>)
     (reparent NPROC (wakeup1 (map_option ChanProc (p_parent (curproc s))) s)))"
  by (simp add: exit_tail_def Let_def)

text \<open>
  C5. When a process other than init exits, it becomes a zombie that keeps its pid and exit
  status, its parent is no longer asleep in waitpid, no slot has it as parent any more (its children
  belong to init), and init is not asleep in waitpid if one of them is already a zombie.
\<close>

theorem exit_hands_over:
  assumes "pt_reach n s" "int n < 2 ^ 31 - 1" "cur s = Some c" "initproc s = Some k" "c \<noteq> k"
  shows "let t = exit_tail s in p_state (procs t ! c) = ZOMBIE \<and> p_pid (procs t ! c) = p_pid (procs s ! c) \<and>
         p_exit_status (procs t ! c) = p_exit_status (procs s ! c) \<and>
         (\<forall>i < NPROC. p_parent (procs t ! i) =
            (if p_parent (procs s ! i) = Some c then Some k else p_parent (procs s ! i))) \<and>
         (\<forall>p. p_parent (procs s ! c) = Some p \<longrightarrow>
            \<not> (p_state (procs t ! p) = SLEEPING \<and> p_chan (procs t ! p) = Some (ChanProc p))) \<and>
         ((\<exists>i < NPROC. p_parent (procs s ! i) = Some c \<and> p_state (procs s ! i) = ZOMBIE) \<longrightarrow>
            \<not> (p_state (procs t ! k) = SLEEPING \<and> p_chan (procs t ! k) = Some (ChanProc k)))"
proof -
  define t where "t = exit_tail s"
  have inv: "pt_inv s" using pt_reach_inv assms(1,2) by blast
  have len: "length (procs s) = NPROC" by (rule pt_invD [OF inv])
  note c = pt_cur [OF inv assms(3)]
  have ip: "initproc s \<noteq> Some c" using assms(4,5) by simp
  have k: "k < NPROC" using pt_invD(4) [OF inv] assms(4) by (simp add: init_ok_def)
  define s1 where "s1 = wakeup1 (map_option ChanProc (p_parent (curproc s))) s"
  have sel: "length (procs s1) = NPROC" "cur s1 = Some c" "initproc s1 = Some k"
    using len assms(3,4) by (simp_all add: s1_def)
  note slot = exit_tail_slot [OF len assms(3) c(1) ip]
  have te: "procs t = (procs (reparent NPROC s1))[c := (procs (reparent NPROC s1) ! c)\<lparr>p_state := ZOMBIE\<rparr>]"
    unfolding t_def exit_tail_eq s1_def [symmetric] using sel by (simp add: curproc_def)
  have zom: "p_state (procs t ! c) = ZOMBIE \<and> p_pid (procs t ! c) = p_pid (procs s ! c) \<and>
         p_exit_status (procs t ! c) = p_exit_status (procs s ! c)"
    unfolding t_def by (rule slot [OF c(1)]) (auto simp: woken_def adopt_def)
  have par: "p_parent (procs t ! i) = (if p_parent (procs s ! i) = Some c then Some k else p_parent (procs s ! i))"
    if "i < NPROC" for i
    unfolding t_def by (rule slot [OF that]) (auto simp: woken_def adopt_def assms(3,4))
  have wk: "\<not> (p_state (procs t ! p) = SLEEPING \<and> p_chan (procs t ! p) = Some (ChanProc p))"
    if "p_parent (procs s ! c) = Some p" for p
  proof -
    have p: "p < NPROC" using slot_invD(5) [OF pt_invD(2) [OF inv c(1)] that] .
    have s1: "\<not> (p_state (procs s1 ! p) = SLEEPING \<and> p_chan (procs s1 ! p) = Some (ChanProc p))"
      using that p len by (simp add: s1_def wakeup1_nth curproc_def assms(3) Let_def)
    have "woken (adopt s1 (procs s1 ! p)) (procs (reparent NPROC s1) ! p)"
      using reparent_nth [of s1 NPROC p] sel p assms(5) by simp
    then show ?thesis using s1 by (auto simp: te nth_upd woken_def adopt_def sel split: if_splits)
  qed
  have ik: "\<not> (p_state (procs t ! k) = SLEEPING \<and> p_chan (procs t ! k) = Some (ChanProc k))"
    if i: "i < NPROC" "p_parent (procs s ! i) = Some c" "p_state (procs s ! i) = ZOMBIE" for i
  proof
    assume a: "p_state (procs t ! k) = SLEEPING \<and> p_chan (procs t ! k) = Some (ChanProc k)"
    have "woken (adopt s1 (procs s1 ! k)) (procs (reparent NPROC s1) ! k)"
      using reparent_nth [of s1 NPROC k] sel k assms(5) by simp
    then have "p_state (procs s1 ! k) = SLEEPING" "p_chan (procs s1 ! k) = Some (ChanProc k)"
      using a assms(5) by (auto simp: te nth_upd woken_def adopt_def split: if_splits)
    moreover have "p_parent (procs s1 ! i) = cur s1" "p_state (procs s1 ! i) = ZOMBIE"
      using i len by (simp_all add: sel) (simp_all add: s1_def wakeup1_nth)
    ultimately have "p_state (procs (reparent NPROC s1) ! k) = RUNNABLE"
      using sel i(1) k assms(5) by (intro reparent_wakes_init [where i = i]) auto
    then show False using a assms(5) by (simp add: te)
  qed
  show ?thesis unfolding t_def [symmetric] Let_def using zom par wk ik by blast
qed


theorem exit_hands_over_witness:
  "p_state (procs (exit_tail forked_table) ! 1) = ZOMBIE \<and>
   \<not> (p_state (procs (exit_tail forked_table) ! 0) = SLEEPING \<and>
      p_chan (procs (exit_tail forked_table) ! 0) = Some (ChanProc 0))"
  using exit_hands_over [OF forked_reach, of 1 0]
  by (auto simp: forked_table_def Let_def)

section \<open>waitpid\<close>

definition wanted_kids :: "nat \<Rightarrow> int \<Rightarrow> 'x ptable_state_scheme \<Rightarrow> nat set" where
  "wanted_kids c pid s = {i. i < length (procs s) \<and> is_wanted (Some c) pid (procs s ! i)}"

text \<open>
  C6. What waitpid does on each branch. With no matching child it returns -1 and changes
  nothing. With matching children none of which is a zombie, it returns -1 if the caller was
  killed and else goes to sleep on its own channel. With a status pointer and \<open>i\<close> the first
  matching zombie whose stack and address space can be freed, it returns the pid of \<open>i\<close>, stores
  its exit status through the pointer, frees slot \<open>i\<close> and leaves every other slot alone.
\<close>

theorem waitpid_branches:
  assumes "cur s = Some c"
  shows "(wanted_kids c pid s = {} \<longrightarrow> waitpid kend pid status s = Done (-1, None) s) \<and>
    (wanted_kids c pid s \<noteq> {} \<and> (\<forall>i \<in> wanted_kids c pid s. p_state (procs s ! i) \<noteq> ZOMBIE) \<longrightarrow>
       waitpid kend pid status s =
         (if p_killed (procs s ! c) then Done (-1, None) s
          else Sleep (ChanProc c)
            (upd_proc c (\<lambda>p. p\<lparr>p_chan := Some (ChanProc c), p_state := SLEEPING\<rparr>) s))) \<and>
    (\<forall>i \<in> wanted_kids c pid s. \<forall>s1 s2.
       p_state (procs s ! i) = ZOMBIE \<and> (\<forall>j \<in> wanted_kids c pid s. j < i \<longrightarrow> p_state (procs s ! j) \<noteq> ZOMBIE) \<and>
       status \<noteq> 0 \<and> kfree kend (p_kstack (procs s ! i)) s = Done () s1 \<and>
       freevm kend (p_pgdir (procs s ! i)) (upd_proc i (\<lambda>p. p\<lparr>p_kstack := 0\<rparr>) s1) = Done () s2 \<longrightarrow>
       (\<exists>t. waitpid kend pid status s =
              Done (p_pid (procs s ! i), Some (status, p_exit_status (procs s ! i))) t \<and>
            memory t = memory s2 \<and> freelist t = freelist s2 \<and> p_state (procs t ! i) = UNUSED \<and>
            p_pid (procs t ! i) = 0 \<and> p_parent (procs t ! i) = None \<and>
            (\<forall>j. j \<noteq> i \<longrightarrow> procs t ! j = procs s ! j)))"
proof (intro conjI impI ballI allI; (elim conjE)?)
  let ?Z = "\<lambda>p. is_wanted (cur s) pid p \<and> p_state p = ZOMBIE"
  let ?kids = "wanted_kids c pid s"
  have K: "(\<exists>p \<in> set (procs s). is_wanted (cur s) pid p) \<longleftrightarrow> ?kids \<noteq> {}"
    using assms(1) by (auto simp: wanted_kids_def in_set_conv_nth intro: nth_mem)
  have Z: "find_idx ?Z (procs s) = None \<longleftrightarrow> (\<forall>i \<in> ?kids. p_state (procs s ! i) \<noteq> ZOMBIE)"
    using assms(1) by (auto simp: wanted_kids_def all_set_conv_all_nth)
  show "waitpid kend pid status s = Done (-1, None) s" if "?kids = {}"
  proof -
    have z: "find_idx ?Z (procs s) = None" using that Z by simp
    show ?thesis unfolding waitpid_def z option.case using that K by (simp add: Let_def)
  qed
  show "waitpid kend pid status s = (if p_killed (procs s ! c) then Done (-1, None) s
      else Sleep (ChanProc c) (upd_proc c (\<lambda>p. p\<lparr>p_chan := Some (ChanProc c), p_state := SLEEPING\<rparr>) s))"
    if "?kids \<noteq> {}" "\<forall>i \<in> ?kids. p_state (procs s ! i) \<noteq> ZOMBIE"
  proof -
    have z: "find_idx ?Z (procs s) = None" using that Z by simp
    show ?thesis unfolding waitpid_def z option.case using that K assms(1)
      by (simp add: Let_def curproc_def sleep_on_def)
  qed
  fix i s1 s2
  assume i: "i \<in> ?kids" "p_state (procs s ! i) = ZOMBIE" "\<forall>j \<in> ?kids. j < i \<longrightarrow> p_state (procs s ! j) \<noteq> ZOMBIE"
    and st: "status \<noteq> 0" and 1: "kfree kend (p_kstack (procs s ! i)) s = Done () s1"
    and 2: "freevm kend (p_pgdir (procs s ! i)) (upd_proc i (\<lambda>p. p\<lparr>p_kstack := 0\<rparr>) s1) = Done () s2"
  have f: "find_idx ?Z (procs s) = Some i"
    using i assms by (auto simp: find_idx_Some wanted_kids_def)
  have w: "waitpid kend pid status s =
      Done (p_pid (procs s ! i), Some (status, p_exit_status (procs s ! i))) (upd_proc i reap_slot s2)"
    using st by (simp add: waitpid_def Let_def f 1 2)
  note m = ptable_more_cong [OF kfree_more [OF 1]] ptable_more_cong [OF freevm_more [OF 2]]
  show "\<exists>t. waitpid kend pid status s =
              Done (p_pid (procs s ! i), Some (status, p_exit_status (procs s ! i))) t \<and>
            memory t = memory s2 \<and> freelist t = freelist s2 \<and> p_state (procs t ! i) = UNUSED \<and>
            p_pid (procs t ! i) = 0 \<and> p_parent (procs t ! i) = None \<and>
            (\<forall>j. j \<noteq> i \<longrightarrow> procs t ! j = procs s ! j)"
    using w i(1) by (auto simp: m nth_upd reap_slot_def wanted_kids_def)
qed

theorem waitpid_branches_witness:
  "waitpid 0x80100000 (-1) 0x100 (forked_table\<lparr>cur := Some 0\<rparr>) =
     Sleep (ChanProc 0) (upd_proc 0 (\<lambda>p. p\<lparr>p_chan := Some (ChanProc 0), p_state := SLEEPING\<rparr>)
       (forked_table\<lparr>cur := Some 0\<rparr>))"
proof -
  let ?s = "forked_table\<lparr>cur := Some 0\<rparr>"
  have len: "length (procs ?s) = NPROC" "(1 :: nat) < NPROC" by (simp_all add: forked_table_def NPROC_def)
  have "procs ?s ! i = mk_proc (0, UNUSED, None)" if "2 \<le> i" "i < NPROC" for i
    using that by (simp add: forked_table_def nth_append numeral_2_eq_2)
  then have "p_parent (procs ?s ! i) \<noteq> Some 0" if "i \<noteq> 1" "i < NPROC" for i
    using that by (cases "i = 0") (auto simp: forked_table_def)
  moreover have "p_parent (procs ?s ! 1) = Some 0" by (simp add: forked_table_def)
  ultimately have k: "wanted_kids 0 (-1) ?s = {1}"
    using len by (auto simp: wanted_kids_def is_wanted_def)
  show ?thesis using waitpid_branches [of ?s 0 "-1" "0x80100000" "0x100"] unfolding k
    by (simp add: forked_table_def mk_proc_def empty_proc_def)
qed

text \<open>
  C34. A null status pointer makes waitpid useless: it returns -1 on the first matching zombie
  and leaves it in the table, so the same call gives the same result for ever.
\<close>

theorem waitpid_null_status_never_reaps:
  assumes "\<exists>p \<in> set (procs s). is_wanted (cur s) pid p \<and> p_state p = ZOMBIE"
  shows "waitpid kend pid 0 s = Done (-1, None) s"
  using find_idx_ex [OF assms] by (auto simp: waitpid_def Let_def)

theorem waitpid_null_status_never_reaps_witness:
  "waitpid 0x80100000 2 0 ((exit_tail forked_table)\<lparr>cur := Some 0\<rparr>) =
     Done (-1, None) ((exit_tail forked_table)\<lparr>cur := Some 0\<rparr>)"
proof (rule waitpid_null_status_never_reaps)
  let ?t = "exit_tail forked_table"
  have len: "length (procs forked_table) = NPROC" "(1 :: nat) < NPROC" by (simp_all add: forked_table_def NPROC_def)
  have c: "cur forked_table = Some 1" "initproc forked_table \<noteq> Some 1" by (simp_all add: forked_table_def)
  have "is_wanted (Some 0) 2 (procs ?t ! 1) \<and> p_state (procs ?t ! 1) = ZOMBIE"
    by (rule exit_tail_slot [OF len(1) c(1) len(2) c(2) len(2)])
      (auto simp: woken_def adopt_def is_wanted_def c forked_table_def)
  moreover have "procs ?t ! 1 \<in> set (procs ?t)" by (rule nth_mem) (simp add: len(1) NPROC_def)
  ultimately show "\<exists>p \<in> set (procs (?t\<lparr>cur := Some 0\<rparr>)). is_wanted (cur (?t\<lparr>cur := Some 0\<rparr>)) 2 p \<and> p_state p = ZOMBIE"
    by auto
qed


section \<open>kill, sleep and wakeup, jobs\<close>

text \<open>
  In a reachable table kill with the pid of a live process marks exactly that process
  killed, makes it runnable if it slept, and changes nothing else; with a pid no slot has it returns -1.
\<close>

theorem kill_hits_one_process:
  assumes "pt_reach n s" "int n < 2 ^ 31 - 1"
  shows "(\<forall>i < NPROC. p_state (procs s ! i) \<noteq> UNUSED \<longrightarrow>
            kill (p_pid (procs s ! i)) s =
              (0, upd_proc i (\<lambda>p. p\<lparr>p_killed := True,
                     p_state := (if p_state p = SLEEPING then RUNNABLE else p_state p)\<rparr>) s)) \<and>
         (\<forall>pid. (\<forall>i < NPROC. p_pid (procs s ! i) \<noteq> pid) \<longrightarrow> kill pid s = (-1, s))"
proof (intro conjI allI impI)
  have inv: "pt_inv s" using pt_reach_inv assms by blast
  have len: "length (procs s) = NPROC" by (rule pt_invD [OF inv])
  fix i assume i: "i < NPROC" "p_state (procs s ! i) \<noteq> UNUSED"
  have "0 < p_pid (procs s ! i)" using slot_invD(3) [OF pt_invD(2) [OF inv i(1)]] i(2) by blast
  then have "j = i" if "j < NPROC" "p_pid (procs s ! j) = p_pid (procs s ! i)" for j
    using pt_invD(3) [OF inv] i that unfolding pids_ok_def by (metis less_irrefl)
  then have "find_idx (\<lambda>p. p_pid p = p_pid (procs s ! i)) (procs s) = Some i"
    using i len by (intro find_idx_unique) auto
  then show "kill (p_pid (procs s ! i)) s =
              (0, upd_proc i (\<lambda>p. p\<lparr>p_killed := True,
                     p_state := (if p_state p = SLEEPING then RUNNABLE else p_state p)\<rparr>) s)"
    by (simp add: kill_def)
next
  have len: "length (procs s) = NPROC" using pt_reach_inv assms pt_invD(1) by blast
  fix pid assume "\<forall>i < NPROC. p_pid (procs s ! i) \<noteq> pid"
  then have "find_idx (\<lambda>p. p_pid p = pid) (procs s) = None" by (auto simp: in_set_conv_nth len)
  then show "kill pid s = (-1, s)" by (simp only: kill_def option.case)
qed

theorem kill_hits_one_process_witness:
  "kill 1 forked_table =
     (0, upd_proc 0 (\<lambda>p. p\<lparr>p_killed := True,
            p_state := (if p_state p = SLEEPING then RUNNABLE else p_state p)\<rparr>) forked_table)"
proof -
  have b: "int 2 < 2 ^ 31 - 1" by simp
  show ?thesis
    using kill_hits_one_process [OF forked_reach b, THEN conjunct1, rule_format, of 0]
    by (simp add: forked_table_def NPROC_def)
qed

text \<open>
  C35. kill does not look at the state: kill(0) succeeds on a free slot whose pid is 0 and leaves it
  marked, and allocproc does not clear the mark, so the next process in that slot starts out killed.
\<close>

theorem kill_zero_kills_the_next_process:
  assumes "find_idx (\<lambda>p. p_pid p = 0) (procs s) = Some i"
    and "find_idx (\<lambda>p. p_state p = UNUSED) (procs s) = Some i"
    and "allocproc trapret forkret (snd (kill 0 s)) = (Some j, t)"
  shows "fst (kill 0 s) = 0 \<and> j = i \<and> p_killed (procs t ! j)"
proof -
  define u where "u = snd (kill 0 s)"
  have i: "i < length (procs s)" "p_state (procs s ! i) = UNUSED" "\<forall>j < i. p_state (procs s ! j) \<noteq> UNUSED"
    using assms(2) by (simp_all add: find_idx_Some)
  have u: "procs u = (procs s)[i := (procs s ! i)\<lparr>p_killed := True, p_state := UNUSED\<rparr>]" "fst (kill 0 s) = 0"
    using i by (simp_all add: u_def kill_def assms(1))
  have f: "find_idx (\<lambda>p. p_state p = UNUSED) (procs u) = Some i"
    using i by (auto simp: find_idx_Some u nth_upd)
  show ?thesis
    using allocproc_cases [OF assms(3) [folded u_def]] f u i by (auto simp: nth_upd)
qed

theorem kill_zero_kills_the_next_process_witness:
  "fst (kill 0 (mk_table [] 1 None None)) = 0 \<and>
   p_killed (procs (snd (allocproc 0 0 (snd (kill 0 (mk_table [] 1 None None))))) ! 0)"
proof -
  let ?s = "mk_table [] 1 None None"
  let ?t = "snd (allocproc 0 0 (snd (kill 0 ?s)))"
  have f: "find_idx (\<lambda>p. p_pid p = 0) (procs ?s) = Some 0"
    "find_idx (\<lambda>p. p_state p = UNUSED) (procs ?s) = Some 0"
    by (simp_all add: find_idx_replicate NPROC_def)
  have u: "procs (snd (kill 0 ?s)) = (procs ?s)[0 := (procs ?s ! 0)\<lparr>p_killed := True,
      p_state := (if p_state (procs ?s ! 0) = SLEEPING then RUNNABLE else p_state (procs ?s ! 0))\<rparr>]"
    by (simp only: kill_def f option.case snd_conv procs_upd_proc)
  have f2: "find_idx (\<lambda>p. p_state p = UNUSED) (procs (snd (kill 0 ?s))) = Some 0"
    unfolding u by (simp add: find_idx_Some NPROC_def)
  have "\<exists>p \<in> set (procs (snd (kill 0 ?s))). p_state p = UNUSED"
    using find_idx_SomeD [OF f2] nth_mem by blast
  moreover note f2
  moreover have "fst (kalloc (snd (kill 0 ?s))) = 0x80400000"
    using f by (simp add: kalloc_def kill_def Let_def) (simp add: mk_table_def)
  ultimately have "fst (allocproc 0 0 (snd (kill 0 ?s))) = Some 0"
    using allocproc_cases [of 0 0 "snd (kill 0 ?s)" "fst (allocproc 0 0 (snd (kill 0 ?s)))" ?t]
    by auto
  then have "allocproc 0 0 (snd (kill 0 ?s)) = (Some 0, ?t)" by (metis prod.collapse)
  from kill_zero_kills_the_next_process [OF f this] show ?thesis by simp
qed


text \<open>
  A process that sleeps on a channel and is then woken through that channel is runnable, wakeup
  changes no process that does not sleep on the channel, and no process sleeps on the channel afterwards.
\<close>

theorem wakeup_wakes_exactly_the_sleepers:
  assumes "cur s = Some c" "c < length (procs s)"
  shows "(\<forall>t. sleep_on ch s = (Sleep ch t :: (unit, _) kres) \<longrightarrow>
            p_state (procs (wakeup ch (sched_back t)) ! c) = RUNNABLE) \<and>
         (\<forall>i < length (procs s). procs (wakeup ch s) ! i =
            (if p_state (procs s ! i) = SLEEPING \<and> p_chan (procs s ! i) = Some ch
             then (procs s ! i)\<lparr>p_state := RUNNABLE\<rparr> else procs s ! i)) \<and>
         (\<forall>p \<in> set (procs (wakeup ch s)). \<not> (p_state p = SLEEPING \<and> p_chan p = Some ch)) \<and>
         (\<exists>t. sleep_on ch s = (Sleep ch t :: (unit, _) kres))"
  using assms by (auto simp: sleep_on_def wakeup_def wakeup1_nth nth_upd Let_def) (auto simp: wakeup1_def split: if_splits)

theorem wakeup_wakes_exactly_the_sleepers_witness:
  "\<exists>t. sleep_on ChanTicks forked_table = (Sleep ChanTicks t :: (unit, _) kres) \<and>
     p_state (procs (wakeup ChanTicks (sched_back t)) ! 1) = RUNNABLE"
  using wakeup_wakes_exactly_the_sleepers [of forked_table 1 ChanTicks]
  by (auto simp: forked_table_def NPROC_def)

text \<open>yield runs with interrupts in any state as long as no lock is held, and never panics.\<close>

lemma yield_ok:
  assumes "\<not> locked (the_lock ls)" "ncli (the_cpu ls) = 0" "cur s = Some c" "c < length (procs s)"
  shows "yield me ls s = Some (Done () (sched_back (on_cur (\<lambda>p. p\<lparr>p_state := RUNNABLE\<rparr>) s)))"
  using assms
  by (simp add: yield_def acquire_def holding_def pushcli_def Let_def sched_def curproc_def)

fun job_pids :: "jobline list \<Rightarrow> int list" where
  "job_pids [] = []"
| "job_pids (JobHead jid cmd # ls) = job_pids ls"
| "job_pids (JobProc pid nm sz n st # ls) = pid # job_pids ls"

lemma printjob_loop_eq:
  "fst (printjob_loop um jid count ps) = count + length (filter (\<lambda>p. job_jid um p = jid) ps)"
  "job_pids (snd (printjob_loop um jid count ps)) = map p_pid (filter (\<lambda>p. job_jid um p = jid) ps)"
  by (induction ps arbitrary: count) (auto simp: Let_def case_prod_beta)

text \<open>
  printjob prints one line per process of the job, in table order, returns their number,
  and isJobEmpty answers 1 exactly when that number is 0.
\<close>

theorem jobs_listed_exactly:
  "fst (printjob um jid s) = length (filter (\<lambda>p. job_jid um p = jid) (procs s)) \<and>
   job_pids (snd (printjob um jid s)) = map p_pid (filter (\<lambda>p. job_jid um p = jid) (procs s)) \<and>
   (isJobEmpty um jid s = 1 \<longleftrightarrow> fst (printjob um jid s) = 0)"
proof -
  have "isJobEmpty um jid s = 1 \<longleftrightarrow> (\<forall>p \<in> set (procs s). job_jid um p \<noteq> jid)"
    by (cases "find_idx (\<lambda>p. job_jid um p = jid) (procs s)")
      (auto simp: isJobEmpty_def dest: find_idx_SomeD simp del: find_idx_None simp: find_idx_None [symmetric])
  then show ?thesis
    by (simp add: printjob_def printjob_loop_eq filter_empty_conv)
qed

text \<open>signal installs the handler, returns the previous one, and rejects numbers out of range.\<close>

lemma signal_spec:
  assumes "cur s = Some c" "c < length (procs s)" "length (p_signal_handlers (procs s ! c)) = SIGNUM"
  shows "0 \<le> n \<and> n < 32 \<Longrightarrow> fst (signal n h s) = sint (p_signal_handlers (procs s ! c) ! nat n)"
    and "0 \<le> n \<and> n < 32 \<Longrightarrow> fst (signal n h' (snd (signal n h s))) = sint h"
    and "n < 0 \<or> 32 \<le> n \<Longrightarrow> signal n h s = (-1, s)"
  using assms by (auto simp: signal_def curproc_def nth_upd SIGNUM_def)

end
