(* ===== verification/Ring.thy ===== *)
theory Ring
  imports Prelude
begin

text \<open>
  Ring buffers indexed by free-running 32-bit counters, as the pipe (512 bytes) and the
  console input (128 bytes) use them: slot \<open>i mod N\<close> holds the item with counter \<open>i\<close>. The
  locale asks only that the size is a proper divisor of 2^32, so that the counters may wrap.
\<close>

definition ring_q :: "nat \<Rightarrow> 'a list \<Rightarrow> uint \<Rightarrow> uint \<Rightarrow> 'a list" where
  "ring_q N buf r w = map (\<lambda>i. buf ! (unat (r + of_nat i) mod N)) [0..<unat (w - r)]"

lemma length_ring_q [simp]: "length (ring_q N buf r w) = unat (w - r)"
  by (simp add: ring_q_def)

lemma ring_q_empty [simp]: "ring_q N buf r r = []"
  by (simp add: ring_q_def)

lemma uint_diff_eq_0: "unat (w - r) = 0 \<longleftrightarrow> w = (r :: uint)"
  by (metis diff_eq_diff_eq diff_self unat_eq_zero)

locale ring =
  fixes N :: nat
  assumes N_pos: "0 < N" and N_lt: "N < 2 ^ 32" and N_dvd: "N dvd 2 ^ 32"
begin

lemma mod_add: "unat (r + of_nat i :: uint) mod N = (unat r + i) mod N"
  using N_dvd by (simp add: unat_word_ariths unat_of_nat mod_mod_cancel mod_add_right_eq)

lemma mod_end: "unat (w :: uint) mod N = (unat r + unat (w - r)) mod N"
  using mod_add [of r "unat (w - r)"] by simp

lemma slot_other:
  assumes "i < unat (w - r)" "unat (w - r) < N"
  shows "unat (r + of_nat i :: uint) mod N \<noteq> unat w mod N"
proof
  assume "unat (r + of_nat i) mod N = unat w mod N"
  then have "(unat r + unat (w - r)) mod N = (unat r + i) mod N" unfolding mod_add mod_end [of w r] by simp
  then have "N dvd unat (w - r) - i" using assms(1) by (simp add: mod_eq_dvd_iff_nat)
  then have "N \<le> unat (w - r) - i" using assms(1) by (intro dvd_imp_le) simp_all
  then show False using assms(2) by simp
qed

text \<open>Putting an item at the write end and taking one from the read end.\<close>

lemma count_put: "unat (w - r) < N \<Longrightarrow> unat (w + 1 - r :: uint) = Suc (unat (w - r))"
  using N_lt unat_add32 [of "w - r" 1] by (simp add: algebra_simps)

lemma put:
  assumes "length buf = N" "unat (w - r) < N"
  shows "ring_q N (buf[unat w mod N := b]) r (w + 1) = ring_q N buf r w @ [b]"
proof (rule nth_equalityI)
  show "length (ring_q N (buf[unat w mod N := b]) r (w + 1)) = length (ring_q N buf r w @ [b])"
    by (simp add: count_put assms(2))
  fix i assume "i < length (ring_q N (buf[unat w mod N := b]) r (w + 1))"
  then have i: "i < Suc (unat (w - r))" by (simp add: count_put assms(2))
  have wl: "unat w mod N < length buf" using N_pos assms(1) by simp
  show "ring_q N (buf[unat w mod N := b]) r (w + 1) ! i = (ring_q N buf r w @ [b]) ! i"
  proof (cases "i = unat (w - r)")
    case True
    then have "unat (r + of_nat i) mod N = unat w mod N" by simp
    then show ?thesis using True wl by (simp add: ring_q_def count_put assms(2) nth_append)
  next
    case False
    then have l: "i < unat (w - r)" using i by simp
    then show ?thesis
      using slot_other [OF l assms(2)] i by (simp add: ring_q_def count_put assms(2) nth_append)
  qed
qed

lemma count_get: "r \<noteq> w \<Longrightarrow> unat (w - r :: uint) = Suc (unat (w - (r + 1)))"
proof -
  assume "r \<noteq> w"
  then have "w - r \<noteq> 0" by simp
  then have "0 < unat (w - r)" by (metis gr0I unat_eq_zero)
  then have "unat (w - r - 1) = unat (w - r) - 1" by (intro unat_minus_one) auto
  then show ?thesis using \<open>0 < unat (w - r)\<close> by (simp add: algebra_simps)
qed

lemma get:
  assumes "r \<noteq> w"
  shows "ring_q N buf r w = buf ! (unat r mod N) # ring_q N buf (r + 1) w"
proof -
  have e: "[0..<Suc n] = 0 # map Suc [0..<n]" for n by (simp add: upt_conv_Cons map_Suc_upt del: upt_Suc)
  show ?thesis unfolding ring_q_def count_get [OF assms] e by (simp add: algebra_simps)
qed

text \<open>Taking back the item put last.\<close>

lemma unput:
  assumes "r \<noteq> w" "unat (w - r) \<le> N"
  shows "ring_q N buf r (w - 1) = butlast (ring_q N buf r w)"
proof -
  have "w - r \<noteq> 0" using assms(1) by simp
  then have "unat (w - r - 1) = unat (w - r) - 1" by (rule unat_minus_one)
  then have "unat (w - 1 - r) = unat (w - r) - 1" by (simp add: algebra_simps)
  moreover have "butlast [0..<n] = [0..<n - 1]" for n by (cases n) simp_all
  ultimately show ?thesis by (simp add: ring_q_def map_butlast [symmetric])
qed

end

end
