(* ===== verification/Pipe.thy ===== *)
theory Pipe
  imports Ptable Ring
begin

text \<open>
  Pipes (pipe.c except pipealloc, which needs the file table). A \<open>struct pipe\<close> lives in a
  page from kalloc; the model keeps it as the record at the page's address. The bytes a
  writer passes and the bytes a reader receives are lists. A writer that sleeps half-way
  keeps the bytes it has not written yet (\<open>PwBlocked\<close>).
\<close>

section \<open>Definitions\<close>

definition PIPESIZE :: nat where "PIPESIZE = 512"

record pipe =
  data :: "uchar list"
  nread :: uint
  nwrite :: uint
  readopen :: bool
  writeopen :: bool

record pipe_state = ptable_state +
  pipes :: "uint \<Rightarrow> pipe"

definition upd_pipe :: "uint \<Rightarrow> (pipe \<Rightarrow> pipe) \<Rightarrow> 'x pipe_state_scheme \<Rightarrow> 'x pipe_state_scheme" where
  "upd_pipe p f s = s\<lparr>pipes := (pipes s)(p := f (pipes s p))\<rparr>"

text \<open>The fields pipealloc sets; the bytes of the buffer are whatever the page held.\<close>

definition pipe_open :: "pipe \<Rightarrow> pipe" where
  "pipe_open q = q\<lparr>readopen := True, writeopen := True, nwrite := 0, nread := 0\<rparr>"

definition pipeclose :: "uint \<Rightarrow> uint \<Rightarrow> bool \<Rightarrow> 'x pipe_state_scheme \<Rightarrow> (unit, 'x pipe_state_scheme) kres" where
  "pipeclose kend p writable s =
     (let s1 = (if writable
                then wakeup (ChanPipeRead p) (upd_pipe p (\<lambda>q. q\<lparr>writeopen := False\<rparr>) s)
                else wakeup (ChanPipeWrite p) (upd_pipe p (\<lambda>q. q\<lparr>readopen := False\<rparr>) s))
      in if \<not> readopen (pipes s1 p) \<and> \<not> writeopen (pipes s1 p) then kfree kend p s1
         else Done () s1)"

datatype pw_result = PwDone int | PwBlocked "uchar list"

text \<open>
  \<open>pipewrite_loop n p bs\<close> has the bytes \<open>bs\<close> left of the \<open>n\<close> bytes of the call.
\<close>

primrec pipewrite_loop :: "int \<Rightarrow> uint \<Rightarrow> uchar list \<Rightarrow> 'x pipe_state_scheme
    \<Rightarrow> (pw_result, 'x pipe_state_scheme) kres" where
  "pipewrite_loop n p [] s = Done (PwDone n) (wakeup (ChanPipeRead p) s)"
| "pipewrite_loop n p (b # bs) s =
     (if nwrite (pipes s p) = nread (pipes s p) + of_nat PIPESIZE then
        (if \<not> readopen (pipes s p) \<or> p_killed (curproc s) then Done (PwDone (-1)) s
         else case sleep_on (ChanPipeWrite p) (wakeup (ChanPipeRead p) s) :: (unit, _) kres of
                Sleep c s1 \<Rightarrow> Done (PwBlocked (b # bs)) s1
              | Done _ s1 \<Rightarrow> Done (PwBlocked (b # bs)) s1
              | Panic e \<Rightarrow> Panic e)
      else pipewrite_loop n p bs
             (upd_pipe p (\<lambda>q. q\<lparr>data := (data q)[unat (nwrite q) mod PIPESIZE := b], nwrite := nwrite q + 1\<rparr>) s))"

definition pipewrite :: "uint \<Rightarrow> uchar list \<Rightarrow> 'x pipe_state_scheme \<Rightarrow> (pw_result, 'x pipe_state_scheme) kres" where
  "pipewrite p bs s = pipewrite_loop (int (length bs)) p bs s"

definition pipewrite_resume :: "int \<Rightarrow> uint \<Rightarrow> uchar list \<Rightarrow> 'x pipe_state_scheme
    \<Rightarrow> (pw_result, 'x pipe_state_scheme) kres" where
  "pipewrite_resume n p bs s = pipewrite_loop n p bs (sleep_return s)"

primrec piperead_loop :: "nat \<Rightarrow> pipe \<Rightarrow> uchar list \<times> pipe" where
  "piperead_loop 0 q = ([], q)"
| "piperead_loop (Suc n) q =
     (if nread q = nwrite q then ([], q)
      else let b = data q ! (unat (nread q) mod PIPESIZE);
               (bs, q') = piperead_loop n (q\<lparr>nread := nread q + 1\<rparr>)
           in (b # bs, q'))"

definition piperead :: "uint \<Rightarrow> int \<Rightarrow> 'x pipe_state_scheme \<Rightarrow> (int \<times> uchar list, 'x pipe_state_scheme) kres" where
  "piperead p n s =
     (let q = pipes s p
      in if nread q = nwrite q \<and> writeopen q then
           (if p_killed (curproc s) then Done (-1, []) s else sleep_on (ChanPipeRead p) s)
         else let (bs, q') = piperead_loop (nat n) q
              in Done (int (length bs), bs) (wakeup (ChanPipeWrite p) (upd_pipe p (\<lambda>_. q') s)))"

section \<open>The pipe as a queue of bytes\<close>

definition pipe_q :: "pipe \<Rightarrow> uchar list" where
  "pipe_q q = ring_q PIPESIZE (data q) (nread q) (nwrite q)"

definition pipe_ok :: "pipe \<Rightarrow> bool" where
  "pipe_ok q \<longleftrightarrow> length (data q) = PIPESIZE \<and> unat (nwrite q - nread q) \<le> PIPESIZE"

interpretation pring: ring PIPESIZE
  by unfold_locales (simp_all add: PIPESIZE_def)

lemma pipe_full_iff:
  assumes "pipe_ok q"
  shows "nwrite q = nread q + of_nat PIPESIZE \<longleftrightarrow> length (pipe_q q) = PIPESIZE"
proof -
  have "nwrite q = nread q + of_nat PIPESIZE \<longleftrightarrow> nwrite q - nread q = of_nat PIPESIZE" by (simp add: algebra_simps)
  also have "\<dots> \<longleftrightarrow> unat (nwrite q - nread q) = unat (of_nat PIPESIZE :: uint)" by (simp only: word_unat_eq_iff)
  also have "unat (of_nat PIPESIZE :: uint) = PIPESIZE" by (simp add: PIPESIZE_def)
  finally show ?thesis by (simp add: pipe_q_def)
qed

lemma pipe_put:
  fixes q :: pipe and b :: uchar
  assumes "pipe_ok q" "length (pipe_q q) \<noteq> PIPESIZE"
  defines "q' \<equiv> q\<lparr>data := (data q)[unat (nwrite q) mod PIPESIZE := b], nwrite := nwrite q + 1\<rparr>"
  shows "pipe_ok q'" "pipe_q q' = pipe_q q @ [b]"
proof -
  have l: "length (data q) = PIPESIZE" "unat (nwrite q - nread q) < PIPESIZE"
    using assms(1,2) by (simp_all add: pipe_ok_def pipe_q_def)
  show "pipe_ok q'" using l pring.count_put [OF l(2)] by (simp add: pipe_ok_def q'_def)
  show "pipe_q q' = pipe_q q @ [b]" using pring.put [OF l] by (simp add: pipe_q_def q'_def)
qed

lemma pipe_get:
  fixes q :: pipe
  assumes "pipe_ok q" "nread q \<noteq> nwrite q"
  shows "pipe_ok (q\<lparr>nread := nread q + 1\<rparr>)"
    "pipe_q q = data q ! (unat (nread q) mod PIPESIZE) # pipe_q (q\<lparr>nread := nread q + 1\<rparr>)"
  using assms pring.count_get [OF assms(2)] pring.get [OF assms(2)]
  by (simp_all add: pipe_ok_def pipe_q_def)

lemma pipe_q_empty_iff: "pipe_q q = [] \<longleftrightarrow> nread q = nwrite q"
  unfolding pipe_q_def length_0_conv [symmetric] length_ring_q uint_diff_eq_0 by auto

lemma piperead_loop_spec:
  fixes q :: pipe
  assumes "pipe_ok q"
  shows "fst (piperead_loop n q) = take n (pipe_q q)" (is ?A)
    and "pipe_q (snd (piperead_loop n q)) = drop n (pipe_q q)" (is ?B)
    and "pipe_ok (snd (piperead_loop n q))" (is ?C)
    and "readopen (snd (piperead_loop n q)) = readopen q" "writeopen (snd (piperead_loop n q)) = writeopen q"
  using assms
proof (induction n arbitrary: q)
  case (Suc n)
  { case 1 then show ?case using Suc.IH(1) pipe_get [OF 1] pipe_q_empty_iff [of q]
      by (simp add: Let_def case_prod_beta) }
  { case 2 then show ?case using Suc.IH(2) pipe_get [OF 2] pipe_q_empty_iff [of q]
      by (cases "nread q = nwrite q") (simp_all add: Let_def case_prod_beta) }
  { case 3 then show ?case using Suc.IH(3) pipe_get [OF 3]
      by (simp add: Let_def case_prod_beta) }
  { case 4 then show ?case using Suc.IH(4) pipe_get [OF 4]
      by (simp add: Let_def case_prod_beta) }
  { case 5 then show ?case using Suc.IH(5) pipe_get [OF 5]
      by (simp add: Let_def case_prod_beta) }
qed simp_all

lemma pipes_sel [simp]:
  "pipes (wakeup c s) = pipes s" "pipes (wakeup1 ch s) = pipes s" "pipes (upd_proc i f s) = pipes s"
  "pipes (upd_pipe p g s) = (pipes s)(p := g (pipes s p))" "pipes (sched_back s) = pipes s"
  "procs (upd_pipe p g s) = procs s" "cur (upd_pipe p g s) = cur s"
  by (simp_all add: wakeup_def wakeup1_def upd_proc_def upd_pipe_def sched_back_def switchkvm_def)

lemma curproc_upd_pipe [simp]: "curproc (upd_pipe p g s) = curproc s"
  by (simp add: curproc_def)

definition no_sleeper :: "chan \<Rightarrow> 'x ptable_state_scheme \<Rightarrow> bool" where
  "no_sleeper c s \<longleftrightarrow> (\<forall>p \<in> set (procs s). \<not> (p_state p = SLEEPING \<and> p_chan p = Some c))"

lemma no_sleeper_wakeup [simp]: "no_sleeper c (wakeup c s)"
  by (auto simp: no_sleeper_def wakeup_def wakeup1_def)

text \<open>What a call of pipewrite does with \<open>bs\<close>, and how many bytes fit.\<close>

definition pw_taken :: "uchar list \<Rightarrow> pipe \<Rightarrow> nat" where
  "pw_taken bs q = min (length bs) (PIPESIZE - length (pipe_q q))"

text \<open>
  The specification of pipewrite over the queue: the result, the queue, and who sleeps
  afterwards.
\<close>

definition pw_result_of :: "int \<Rightarrow> uchar list \<Rightarrow> pipe \<Rightarrow> bool \<Rightarrow> pw_result" where
  "pw_result_of n bs q killed =
     (if pw_taken bs q = length bs then PwDone n
      else if \<not> readopen q \<or> killed then PwDone (-1)
      else PwBlocked (drop (pw_taken bs q) bs))"

definition pw_post :: "uint \<Rightarrow> nat \<Rightarrow> uchar list \<Rightarrow> 'x pipe_state_scheme \<Rightarrow> pw_result \<Rightarrow> 'x pipe_state_scheme \<Rightarrow> bool" where
  "pw_post p c bs s r t \<longleftrightarrow>
     pipe_ok (pipes t p) \<and> pipe_q (pipes t p) = pipe_q (pipes s p) @ take (pw_taken bs (pipes s p)) bs \<and>
     readopen (pipes t p) = readopen (pipes s p) \<and> writeopen (pipes t p) = writeopen (pipes s p) \<and>
     (\<forall>p'. p' \<noteq> p \<longrightarrow> pipes t p' = pipes s p') \<and>
     (r \<noteq> PwDone (-1) \<longrightarrow> no_sleeper (ChanPipeRead p) t) \<and>
     (\<forall>rest. r = PwBlocked rest \<longrightarrow> length (pipe_q (pipes t p)) = PIPESIZE \<and>
        (c < length (procs s) \<longrightarrow> p_state (procs t ! c) = SLEEPING \<and> p_chan (procs t ! c) = Some (ChanPipeWrite p)))"

lemma pipewrite_loop_spec:
  assumes "pipe_ok (pipes s p)" "cur s = Some c"
  shows "\<exists>t. pipewrite_loop n p bs s = Done (pw_result_of n bs (pipes s p) (p_killed (curproc s))) t \<and>
    pw_post p c bs s (pw_result_of n bs (pipes s p) (p_killed (curproc s))) t"
  using assms
proof (induction bs arbitrary: s)
  case Nil
  then show ?case by (simp add: pw_taken_def pw_result_of_def pw_post_def)
next
  case (Cons b bs)
  let ?q = "pipes s p"
  have le: "length (pipe_q ?q) \<le> PIPESIZE" using Cons.prems(1) by (simp add: pipe_ok_def pipe_q_def)
  show ?case
  proof (cases "length (pipe_q ?q) = PIPESIZE")
    case True
    then have k: "pw_taken (b # bs) ?q = 0" by (simp add: pw_taken_def)
    have f: "nwrite ?q = nread ?q + of_nat PIPESIZE" using True pipe_full_iff [OF Cons.prems(1)] by simp
    have "no_sleeper (ChanPipeRead p)
        (upd_proc c (\<lambda>x. x\<lparr>p_chan := Some (ChanPipeWrite p), p_state := SLEEPING\<rparr>) (wakeup (ChanPipeRead p) s))"
      using no_sleeper_wakeup [of "ChanPipeRead p" s]
      by (auto simp: no_sleeper_def dest!: set_update_subset_insert [THEN subsetD])
    then show ?thesis using k f True Cons.prems
      by (auto simp: sleep_on_def wakeup_def pw_result_of_def pw_post_def)
  next
    case False
    let ?q' = "?q\<lparr>data := (data ?q)[unat (nwrite ?q) mod PIPESIZE := b], nwrite := nwrite ?q + 1\<rparr>"
    define s' where "s' = upd_pipe p (\<lambda>q. q\<lparr>data := (data q)[unat (nwrite q) mod PIPESIZE := b], nwrite := nwrite q + 1\<rparr>) s"
    note put = pipe_put [OF Cons.prems(1) False, of b]
    have k: "pw_taken (b # bs) ?q = Suc (pw_taken bs ?q')" using False le by (simp add: pw_taken_def put)
    have s': "pipes s' p = ?q'" "cur s' = cur s" "curproc s' = curproc s" "procs s' = procs s"
        "\<And>p'. p' \<noteq> p \<Longrightarrow> pipes s' p' = pipes s p'" by (simp_all add: s'_def)
    have f: "pipewrite_loop n p (b # bs) s = pipewrite_loop n p bs s'"
      using False pipe_full_iff [OF Cons.prems(1)] by (simp add: s'_def)
    have r: "pw_result_of n (b # bs) ?q x = pw_result_of n bs ?q' x" for x
      by (simp add: pw_result_of_def k)
    have o: "readopen ?q' = readopen ?q" "writeopen ?q' = writeopen ?q" by simp_all
    have "pw_post p c (b # bs) s x t" if "pw_post p c bs s' x t" for x t
      using that unfolding pw_post_def s'(1,4) k put o take_Suc_Cons append_assoc append.simps by (metis s'(5))
    then show ?thesis using Cons.IH [of s'] Cons.prems put by (auto simp: f r s' simp del: pipewrite_loop.simps)
  qed
qed

text \<open>
  C32. pipewrite appends to the queue of the pipe exactly the bytes that fit, in order, whatever
  the counters are (they may wrap past 2^32). It returns the full count when all fit; when the
  pipe is full it sleeps with the rest, having woken every reader, or returns -1 if nobody can read or the caller was
  killed. Other pipes are unchanged.
\<close>

theorem pipewrite_appends:
  assumes "pipe_ok (pipes s p)" "cur s = Some c"
  shows "\<exists>t. pipewrite p bs s =
      Done (pw_result_of (int (length bs)) bs (pipes s p) (p_killed (curproc s))) t \<and>
    pw_post p c bs s (pw_result_of (int (length bs)) bs (pipes s p) (p_killed (curproc s))) t"
  unfolding pipewrite_def by (rule pipewrite_loop_spec [OF assms])

definition pipe_sample :: pipe_state where
  "pipe_sample = ptable_state.extend forked_table
     \<lparr>pipes = (\<lambda>_. \<lparr>data = replicate PIPESIZE 0, nread = 0xFFFFFFFF, nwrite = 0xFFFFFFFF, readopen = True,
        writeopen = True\<rparr>)\<rparr>"

lemma pipe_sample_sel:
  "cur pipe_sample = Some 1" "pipe_ok (pipes pipe_sample p)" "pipe_q (pipes pipe_sample p) = []"
  "\<not> p_killed (curproc pipe_sample)"
  by (simp_all add: pipe_sample_def ptable_state.defs forked_table_def mk_table_def pipe_ok_def pipe_q_def
      curproc_def mk_proc_def empty_proc_def)

theorem pipewrite_appends_witness:
  "\<exists>t. pipewrite 0x80500000 [7, 8, 9] pipe_sample = Done (PwDone 3) t \<and>
     pipe_q (pipes t 0x80500000) = [7, 8, 9]"
  using pipewrite_appends [OF pipe_sample_sel(2,1), of "0x80500000" "[7, 8, 9]"]
  by (auto simp: pw_post_def pw_result_of_def pw_taken_def pipe_sample_sel PIPESIZE_def)

text \<open>
  piperead returns the first n bytes of the queue (or all of it) in order and removes exactly those;
  no writer sleeps on the pipe afterwards. On an empty pipe with the write end open it sleeps, or
  returns -1 if the caller was killed; on an empty pipe with the write end closed it returns 0.
\<close>

theorem piperead_takes_prefix:
  assumes "pipe_ok (pipes s p)" "cur s = Some c"
  shows "if pipe_q (pipes s p) = [] \<and> writeopen (pipes s p)
    then piperead p n s = (if p_killed (curproc s) then Done (-1, []) s else sleep_on (ChanPipeRead p) s)
    else (\<exists>t. piperead p n s = Done (int (length (take (nat n) (pipe_q (pipes s p)))), take (nat n) (pipe_q (pipes s p))) t \<and>
            pipe_ok (pipes t p) \<and> pipe_q (pipes t p) = drop (nat n) (pipe_q (pipes s p)) \<and>
            readopen (pipes t p) = readopen (pipes s p) \<and> writeopen (pipes t p) = writeopen (pipes s p) \<and>
            (\<forall>p'. p' \<noteq> p \<longrightarrow> pipes t p' = pipes s p') \<and> no_sleeper (ChanPipeWrite p) t)"
  using piperead_loop_spec [OF assms(1), of "nat n"]
  by (simp add: piperead_def Let_def case_prod_beta pipe_q_empty_iff)

theorem piperead_takes_prefix_witness:
  "\<exists>t. piperead 0x80500000 2 (upd_pipe 0x80500000 (\<lambda>q. q\<lparr>nwrite := 2, data := replicate 512 5\<rparr>) pipe_sample) =
     Done (2, [5, 5]) t"
proof -
  let ?s = "upd_pipe 0x80500000 (\<lambda>q. q\<lparr>nwrite := 2, data := replicate 512 5\<rparr>) pipe_sample"
  have q: "pipes ?s 0x80500000 = \<lparr>data = replicate 512 5, nread = 0xFFFFFFFF, nwrite = 2, readopen = True, writeopen = True\<rparr>"
    by (simp add: pipe_sample_def ptable_state.defs)
  have "pipe_ok (pipes ?s 0x80500000)" unfolding q pipe_ok_def by (simp add: PIPESIZE_def)
  moreover have "pipe_q (pipes ?s 0x80500000) = [5, 5, 5]"
    unfolding q pipe_q_def ring_q_def by (simp add: PIPESIZE_def upt_rec)
  moreover have "cur ?s = Some 1" by (simp add: pipe_sample_sel)
  ultimately show ?thesis using piperead_takes_prefix [of ?s "0x80500000" 1 2] by auto
qed

section \<open>A pipe is a reliable byte stream\<close>

text \<open>
  \<open>pipe_run p s ws rs\<close>: from an empty pipe, writers have put in the bytes \<open>ws\<close> (a blocked
  writer those before the rest it still holds, a writer that fails the bytes by which it advanced \<open>nwrite\<close> before it found the
  pipe full) and readers have got \<open>rs\<close>, in any interleaving with each
  other, with the closing of either end, and with steps that do not touch this pipe. The history ends when the second end is closed and
  the page of the pipe is freed.
\<close>

inductive pipe_run :: "uint \<Rightarrow> 'x pipe_state_scheme \<Rightarrow> uchar list \<Rightarrow> uchar list \<Rightarrow> bool" for p where
  pr_open: "length (data (pipes s p)) = PIPESIZE \<Longrightarrow> pipe_run p (upd_pipe p pipe_open s) [] []"
| pr_write: "pipe_run p s ws rs \<Longrightarrow> cur s = Some c \<Longrightarrow> pipewrite p bs s = Done (PwDone (int (length bs))) t \<Longrightarrow>
    pipe_run p t (ws @ bs) rs"
| pr_write_blocks: "pipe_run p s ws rs \<Longrightarrow> cur s = Some c \<Longrightarrow> pipewrite p (pre @ rest) s = Done (PwBlocked rest) t \<Longrightarrow>
    pipe_run p t (ws @ pre) rs"
| pr_resume: "pipe_run p s ws rs \<Longrightarrow> cur s = Some c \<Longrightarrow> 0 \<le> n \<Longrightarrow>
    pipewrite_resume n p bs s = Done (PwDone n) t \<Longrightarrow> pipe_run p t (ws @ bs) rs"
| pr_resume_blocks: "pipe_run p s ws rs \<Longrightarrow> cur s = Some c \<Longrightarrow>
    pipewrite_resume n p (pre @ rest) s = Done (PwBlocked rest) t \<Longrightarrow> pipe_run p t (ws @ pre) rs"
| pr_write_fails: "pipe_run p s ws rs \<Longrightarrow> cur s = Some c \<Longrightarrow> pipewrite p (pre @ rest) s = Done (PwDone (-1)) t \<Longrightarrow>
    length pre = unat (nwrite (pipes t p) - nwrite (pipes s p)) \<Longrightarrow> pipe_run p t (ws @ pre) rs"
| pr_resume_fails: "pipe_run p s ws rs \<Longrightarrow> cur s = Some c \<Longrightarrow> 0 \<le> n \<Longrightarrow> pipewrite_resume n p (pre @ rest) s = Done (PwDone (-1)) t \<Longrightarrow>
    length pre = unat (nwrite (pipes t p) - nwrite (pipes s p)) \<Longrightarrow> pipe_run p t (ws @ pre) rs"
| pr_close: "pipe_run p s ws rs \<Longrightarrow> pipeclose kend p writable s = Done () t \<Longrightarrow> readopen (pipes t p) \<or> writeopen (pipes t p) \<Longrightarrow>
    pipe_run p t ws rs"
| pr_read: "pipe_run p s ws rs \<Longrightarrow> cur s = Some c \<Longrightarrow> piperead p n s = Done (k, bs) t \<Longrightarrow>
    pipe_run p t ws (rs @ bs)"
| pr_other: "pipe_run p s ws rs \<Longrightarrow> pipes t p = pipes s p \<Longrightarrow> pipe_run p t ws rs"

lemma sleep_return_sel [simp]: "pipes (sleep_return s) = pipes s" "cur (sleep_return s) = cur s"
  by (simp_all add: sleep_return_def on_cur_def)

lemma pw_drop_eq:
  assumes "drop k (pre @ rest) = rest"
  shows "take k (pre @ rest) = pre"
  using append_take_drop_id [of k "pre @ rest"] unfolding assms append_same_eq .

lemma pipewrite_loop_queue:
  assumes "pipe_ok (pipes s p)" "cur s = Some c" "pipewrite_loop n p bs s = Done r t"
  shows "pipe_ok (pipes t p)" "r = PwDone n \<Longrightarrow> 0 \<le> n \<Longrightarrow> pipe_q (pipes t p) = pipe_q (pipes s p) @ bs"
    "r = PwBlocked rest \<Longrightarrow> bs = pre @ rest \<Longrightarrow> pipe_q (pipes t p) = pipe_q (pipes s p) @ pre"
proof -
  have p: "pw_post p c bs s r t" "r = pw_result_of n bs (pipes s p) (p_killed (curproc s))"
    using pipewrite_loop_spec [OF assms(1,2), of n bs] assms(3) by auto
  show "pipe_ok (pipes t p)" using p(1) by (simp add: pw_post_def)
  show "pipe_q (pipes t p) = pipe_q (pipes s p) @ bs" if "r = PwDone n" "0 \<le> n"
    using p that by (auto simp: pw_post_def pw_result_of_def split: if_splits)
  show "pipe_q (pipes t p) = pipe_q (pipes s p) @ pre" if "r = PwBlocked rest" "bs = pre @ rest"
  proof -
    have "drop (pw_taken bs (pipes s p)) (pre @ rest) = rest"
      using p(2) that by (auto simp: pw_result_of_def split: if_splits)
    then have "take (pw_taken bs (pipes s p)) bs = pre" unfolding that(2) by (rule pw_drop_eq)
    then show ?thesis using p(1) by (simp add: pw_post_def)
  qed
qed

text \<open>A writer advances \<open>nwrite\<close> by the number of bytes it puts in, and nothing else moves the counters.\<close>

lemma pipewrite_loop_count:
  assumes "pipe_ok (pipes s p)" "cur s = Some c" "pipewrite_loop n p bs s = Done r t"
  shows "unat (nwrite (pipes t p) - nwrite (pipes s p)) = pw_taken bs (pipes s p)"
proof -
  have nr: "nread (pipes t p) = nread (pipes s p)" using assms(2,3)
  proof (induction bs arbitrary: s)
    case (Cons b bs)
    show ?case
    proof (cases "nwrite (pipes s p) = nread (pipes s p) + of_nat PIPESIZE")
      case True
      then show ?thesis using Cons.prems by (auto simp: sleep_on_def wakeup_def split: if_splits)
    next
      case False
      then show ?thesis using Cons.prems Cons.IH
          [of "upd_pipe p (\<lambda>q. q\<lparr>data := (data q)[unat (nwrite q) mod PIPESIZE := b], nwrite := nwrite q + 1\<rparr>) s"]
        by simp
    qed
  qed auto
  have p: "pw_post p c bs s r t" using pipewrite_loop_spec [OF assms(1,2), of n bs] assms(3) by auto
  let ?k = "pw_taken bs (pipes s p)"
  have "length (pipe_q (pipes t p)) = length (pipe_q (pipes s p)) + ?k"
    using p by (simp add: pw_post_def pw_taken_def)
  then have "unat (nwrite (pipes t p) - nread (pipes s p)) = unat (nwrite (pipes s p) - nread (pipes s p)) + ?k"
    by (simp add: pipe_q_def nr)
  then have "nwrite (pipes t p) - nread (pipes s p) = nwrite (pipes s p) - nread (pipes s p) + of_nat ?k"
    by (metis of_nat_add of_nat_unat ucast_id)
  then have "nwrite (pipes t p) - nwrite (pipes s p) = of_nat ?k" by (simp add: algebra_simps)
  moreover have "?k < 4294967296" unfolding pw_taken_def PIPESIZE_def by linarith
  ultimately show ?thesis by (simp add: unat_of_nat32)
qed

lemma pipewrite_loop_fails:
  assumes "pipe_ok (pipes s p)" "cur s = Some c" "pipewrite_loop n p (pre @ rest) s = Done r t"
    and "length pre = unat (nwrite (pipes t p) - nwrite (pipes s p))"
  shows "pipe_ok (pipes t p)" "pipe_q (pipes t p) = pipe_q (pipes s p) @ pre"
proof -
  have p: "pw_post p c (pre @ rest) s r t" using pipewrite_loop_spec [OF assms(1,2), of n "pre @ rest"] assms(3) by auto
  have "take (pw_taken (pre @ rest) (pipes s p)) (pre @ rest) = pre"
    unfolding pipewrite_loop_count [OF assms(1-3), symmetric] assms(4) [symmetric] by simp
  then show "pipe_ok (pipes t p)" "pipe_q (pipes t p) = pipe_q (pipes s p) @ pre" using p by (simp_all add: pw_post_def)
qed

lemma kfree_pipes:
  fixes s :: "'x pipe_state_scheme"
  shows "kfree kend v s = Done () t \<Longrightarrow> pipes t = pipes s"
  by (auto simp: kfree_def Let_def split: if_splits)

lemma pipeclose_queue:
  assumes "pipeclose kend p writable s = Done () t" "readopen (pipes t p) \<or> writeopen (pipes t p)"
  shows "pipe_q (pipes t p) = pipe_q (pipes s p)" "pipe_ok (pipes t p) = pipe_ok (pipes s p)"
proof -
  let ?s1 = "if writable then wakeup (ChanPipeRead p) (upd_pipe p (\<lambda>q. q\<lparr>writeopen := False\<rparr>) s)
                else wakeup (ChanPipeWrite p) (upd_pipe p (\<lambda>q. q\<lparr>readopen := False\<rparr>) s)"
  have "t = ?s1 \<or> kfree kend p ?s1 = Done () t" using assms(1) unfolding pipeclose_def Let_def by (simp split: if_splits)
  then have "pipes t = pipes ?s1" using kfree_pipes by metis
  then show "pipe_q (pipes t p) = pipe_q (pipes s p)" "pipe_ok (pipes t p) = pipe_ok (pipes s p)"
    by (simp_all add: pipe_q_def pipe_ok_def)
qed

text \<open>When a read returns 0: everything was read and nobody can write any more.\<close>

lemma piperead_eof:
  assumes "pipe_ok (pipes s p)" "cur s = Some c" "0 < n"
  shows "(\<exists>t. piperead p n s = Done (0, []) t) \<longleftrightarrow> pipe_q (pipes s p) = [] \<and> \<not> writeopen (pipes s p)"
proof -
  let ?q = "pipe_q (pipes s p)"
  have e: "fst (piperead_loop (nat n) (pipes s p)) = take (nat n) ?q" by (rule piperead_loop_spec(1) [OF assms(1)])
  show ?thesis
  proof (cases "?q = []")
    case True
    then show ?thesis using e assms(2) pipe_q_empty_iff [of "pipes s p"]
      by (simp add: piperead_def Let_def case_prod_beta sleep_on_def)
  next
    case False
    then have "take (nat n) ?q \<noteq> []" using assms(3) by simp
    then show ?thesis using e False pipe_q_empty_iff [of "pipes s p"]
      by (simp add: piperead_def Let_def case_prod_beta)
  qed
qed

lemma pipe_run_stream:
  assumes "pipe_run p s ws rs"
  shows "ws = rs @ pipe_q (pipes s p) \<and> pipe_ok (pipes s p)"
  using assms
proof (induction rule: pipe_run.induct)
  case (pr_open s)
  then show ?case by (simp add: pipe_open_def pipe_q_def pipe_ok_def)
next
  case (pr_write s ws rs c bs t)
  then show ?case using pipewrite_loop_queue [OF _ pr_write(2) pr_write(3) [unfolded pipewrite_def]] by simp
next
  case (pr_write_blocks s ws rs c pre rest t)
  then show ?case using pipewrite_loop_queue [OF _ pr_write_blocks(2) pr_write_blocks(3) [unfolded pipewrite_def]] by simp
next
  case (pr_resume s ws rs c n bs t)
  then show ?case using pipewrite_loop_queue [OF _ _ pr_resume(4) [unfolded pipewrite_resume_def]] by simp
next
  case (pr_resume_blocks s ws rs c n pre rest t)
  then show ?case using pipewrite_loop_queue [OF _ _ pr_resume_blocks(3) [unfolded pipewrite_resume_def]] by simp
next
  case (pr_write_fails s ws rs c pre rest t)
  then show ?case using pipewrite_loop_fails [OF _ pr_write_fails(2) pr_write_fails(3) [unfolded pipewrite_def] pr_write_fails(4)] by simp
next
  case (pr_resume_fails s ws rs c n pre rest t)
  then show ?case
    using pipewrite_loop_fails [OF _ _ pr_resume_fails(4) [unfolded pipewrite_resume_def]] by simp
next
  case (pr_close s ws rs kend writable t)
  then show ?case using pipeclose_queue [OF pr_close(2,3)] by simp
next
  case (pr_read s ws rs c n k bs t)
  then have ok: "pipe_ok (pipes s p)" and w: "ws = rs @ pipe_q (pipes s p)" by simp_all
  show ?case
  proof (cases "nread (pipes s p) = nwrite (pipes s p) \<and> writeopen (pipes s p)")
    case True
    then have "bs = []" "t = s" using pr_read(3)
      by (simp_all add: piperead_def Let_def sleep_on_def pr_read(2) split: if_splits)
    then show ?thesis using w ok by simp
  next
    case False
    let ?r = "piperead_loop (nat n) (pipes s p)"
    have "piperead p n s = Done (int (length (fst ?r)), fst ?r) (wakeup (ChanPipeWrite p) (upd_pipe p (\<lambda>_. snd ?r) s))"
      unfolding piperead_def Let_def case_prod_beta if_not_P [OF False] ..
    then have "bs = fst ?r" "pipes t p = snd ?r" using pr_read(3) by auto
    then show ?thesis using w piperead_loop_spec [OF ok, of "nat n"] by simp
  qed
qed simp

text \<open>
  C8. Readers receive exactly the bytes writers put in, in order, none lost and none twice: what was
  written is what was read followed by what is still queued, over any history of writes (also those that fail half-way), reads and
  closing, and past any wrap of the counters. A reader sees the end of the stream (a read that returns 0) exactly when the write end is closed
  and everything written has been read.
\<close>

theorem pipe_stream:
  assumes "pipe_run p s ws rs"
  shows "ws = rs @ pipe_q (pipes s p) \<and> pipe_ok (pipes s p) \<and>
    (\<forall>c n. cur s = Some c \<and> 0 < n \<longrightarrow> ((\<exists>t. piperead p n s = Done (0, []) t) \<longleftrightarrow> ws = rs \<and> \<not> writeopen (pipes s p)))"
proof -
  have "ws = rs @ pipe_q (pipes s p)" "pipe_ok (pipes s p)" using pipe_run_stream [OF assms] by simp_all
  then show ?thesis using piperead_eof [of s p] by auto
qed

theorem pipe_stream_witness:
  "\<exists>t. pipewrite 0x80500000 [1, 2, 3] (upd_pipe 0x80500000 pipe_open pipe_sample) = Done (PwDone 3) t \<and>
     [1, 2, 3] = [] @ pipe_q (pipes t 0x80500000)"
proof -
  let ?p = "0x80500000 :: uint"
  let ?s = "upd_pipe ?p pipe_open pipe_sample"
  have l: "length (data (pipes pipe_sample ?p)) = PIPESIZE"
    by (simp add: pipe_sample_def ptable_state.defs)
  have q: "pipe_ok (pipes ?s ?p)" "pipe_q (pipes ?s ?p) = []" "cur ?s = Some 1"
    using l by (simp_all add: pipe_open_def pipe_ok_def pipe_q_def pipe_sample_sel)
  obtain t where t: "pipewrite ?p [1, 2, 3] ?s = Done (PwDone (int (length [1, 2, 3 :: uchar]))) t"
    using pipewrite_loop_spec [OF q(1,3), of 3 "[1, 2, 3]"] q(2)
    by (auto simp: pipewrite_def pw_result_of_def pw_taken_def PIPESIZE_def simp del: pipewrite_loop.simps)
  have "pipe_run ?p t ([] @ [1, 2, 3]) []" by (rule pr_write [OF pr_open [OF l] q(3) t])
  from pipe_stream [OF this] have "[1, 2, 3] = [] @ pipe_q (pipes t ?p)" by simp
  moreover have "pipewrite ?p [1, 2, 3] ?s = Done (PwDone 3) t" using t by simp
  ultimately show ?thesis by blast
qed

text \<open>
  C36. A writer that fills the pipe and was killed returns -1 without waking readers: a reader that went
  to sleep on the empty pipe stays asleep although 512 bytes are waiting for it.
\<close>

theorem pipewrite_killed_loses_wakeup:
  assumes "pipe_ok (pipes s p)" "pipe_q (pipes s p) = []" "cur s = Some c" "p_killed (curproc s)"
    and "length bs > PIPESIZE" "i < length (procs s)"
    and "p_state (procs s ! i) = SLEEPING" "p_chan (procs s ! i) = Some (ChanPipeRead p)"
  shows "\<exists>t. pipewrite p bs s = Done (PwDone (-1)) t \<and> length (pipe_q (pipes t p)) = PIPESIZE \<and>
    procs t = procs s \<and> p_state (procs t ! i) = SLEEPING \<and> p_chan (procs t ! i) = Some (ChanPipeRead p)"
proof -
  have same: "procs t = procs s"
    if "pipewrite_loop n p bs s = Done (PwDone (-1)) t" "0 \<le> n" "p_killed (curproc s)" for n bs t and s :: "'a pipe_state_scheme"
    using that
  proof (induction bs arbitrary: s)
    case (Cons b bs)
    show ?case
    proof (cases "nwrite (pipes s p) = nread (pipes s p) + of_nat PIPESIZE")
      case True
      then show ?thesis using Cons.prems by simp
    next
      case False
      then show ?thesis using Cons.prems Cons.IH
          [of "upd_pipe p (\<lambda>q. q\<lparr>data := (data q)[unat (nwrite q) mod PIPESIZE := b], nwrite := nwrite q + 1\<rparr>) s"]
        by simp
    qed
  qed simp
  have "pw_taken bs (pipes s p) = PIPESIZE" using assms(2,5) by (simp add: pw_taken_def)
  then show ?thesis
    using pipewrite_loop_spec [OF assms(1,3), of "int (length bs)" bs] assms same [of "int (length bs)" bs s]
    by (auto simp: pw_result_of_def pw_post_def pipewrite_def simp del: pipewrite_loop.simps)
qed

theorem pipewrite_killed_loses_wakeup_witness:
  "\<exists>t. pipewrite 0x80500000 (replicate 513 1)
       (upd_proc 0 (\<lambda>p. p\<lparr>p_chan := Some (ChanPipeRead 0x80500000)\<rparr>) (on_cur (\<lambda>p. p\<lparr>p_killed := True\<rparr>) pipe_sample)) =
       Done (PwDone (-1)) t \<and> p_state (procs t ! 0) = SLEEPING"
proof -
  let ?s = "upd_proc 0 (\<lambda>p. p\<lparr>p_chan := Some (ChanPipeRead 0x80500000)\<rparr>) (on_cur (\<lambda>p. p\<lparr>p_killed := True\<rparr>) pipe_sample)"
  have ps: "pipes ?s = pipes pipe_sample" by (simp add: on_cur_def)
  have "pipe_ok (pipes ?s 0x80500000)" "pipe_q (pipes ?s 0x80500000) = []" "cur ?s = Some 1"
    unfolding ps by (simp_all add: pipe_sample_sel)
  moreover have "procs pipe_sample = procs forked_table" by (simp add: pipe_sample_def ptable_state.defs forked_table_def mk_table_def)
  then have "p_killed (curproc ?s)" "0 < length (procs ?s)" "p_state (procs ?s ! 0) = SLEEPING"
      "p_chan (procs ?s ! 0) = Some (ChanPipeRead 0x80500000)"
    by (simp_all add: curproc_def pipe_sample_sel nth_upd forked_table_def)
  ultimately show ?thesis
    using pipewrite_killed_loses_wakeup [of ?s "0x80500000" 1 "replicate 513 1" 0] by (auto simp: PIPESIZE_def)
qed

end
