(* ===== verification/Links.thy ===== *)
theory Links
  imports Prelude
begin

text \<open>
  Doubly linked lists, as the buffer cache (bio.c) and the shell's list of jobs (sh.c) have them: \<open>seg nx pv zs\<close> says that the forward links \<open>nx\<close> and
  the backward links \<open>pv\<close> connect the nodes \<open>zs\<close> in this order. A list with head \<open>h\<close> is the ring \<open>h\<close>, \<open>xs\<close>, \<open>h\<close>.
\<close>

fun seg :: "(nat \<Rightarrow> nat) \<Rightarrow> (nat \<Rightarrow> nat) \<Rightarrow> nat list \<Rightarrow> bool" where
  "seg nx pv (a # b # zs) \<longleftrightarrow> nx a = b \<and> pv b = a \<and> seg nx pv (b # zs)"
| "seg nx pv _ \<longleftrightarrow> True"

lemma seg_Cons: "zs \<noteq> [] \<Longrightarrow> seg nx pv (a # zs) \<longleftrightarrow> nx a = hd zs \<and> pv (hd zs) = a \<and> seg nx pv zs"
  by (cases zs) simp_all

lemma seg_append:
  "xs \<noteq> [] \<Longrightarrow> zs \<noteq> [] \<Longrightarrow>
   seg nx pv (xs @ zs) \<longleftrightarrow> seg nx pv xs \<and> seg nx pv zs \<and> nx (last xs) = hd zs \<and> pv (hd zs) = last xs"
proof (induction xs)
  case (Cons x xs)
  then show ?case by (cases "xs = []") (auto simp: seg_Cons)
qed simp

lemma seg_cong:
  assumes "\<And>x. x \<in> set (butlast xs) \<Longrightarrow> nx' x = nx x" "\<And>x. x \<in> set (tl xs) \<Longrightarrow> pv' x = pv x"
  shows "seg nx' pv' xs = seg nx pv xs"
  using assms
proof (induction xs)
  case (Cons x xs)
  show ?case
  proof (cases "xs = []")
    case False
    have "seg nx' pv' xs = seg nx pv xs"
      by (rule Cons.IH) (use False Cons.prems in \<open>auto dest: list.set_sel(2)\<close>)
    moreover have "hd xs \<in> set xs" using False by simp
    ultimately show ?thesis using False Cons.prems by (simp add: seg_Cons)
  qed simp
qed simp

definition links :: "(nat \<Rightarrow> nat) \<Rightarrow> (nat \<Rightarrow> nat) \<Rightarrow> nat \<Rightarrow> nat list \<Rightarrow> bool" where
  "links nx pv h xs \<longleftrightarrow> distinct (h # xs) \<and> seg nx pv (h # xs @ [h])"

text \<open>A new last node, and a node taken out.\<close>

lemma links_append:
  assumes "links nx pv h xs" "x \<noteq> h" "x \<notin> set xs"
  shows "links (nx(pv h := x, x := h)) (pv(h := x, x := pv h)) h (xs @ [x])"
proof -
  let ?l = "last (h # xs)"
  have s: "seg nx pv (h # xs)" "pv h = ?l" "distinct (h # xs)"
    using assms(1) seg_append [of "h # xs" "[h]" nx pv] by (simp_all add: links_def)
  let ?nx = "nx(pv h := x, x := h)" and ?pv = "pv(h := x, x := pv h)"
  have b: "y \<noteq> ?l \<and> y \<noteq> x" if "y \<in> set (butlast (h # xs))" for y
  proof -
    have "h # xs = butlast (h # xs) @ [?l]" by simp
    then have "distinct (butlast (h # xs) @ [?l])" using s(3) by metis
    then have "y \<noteq> ?l" using that by auto
    moreover have "y \<in> set (h # xs)" using that by (rule in_set_butlastD)
    ultimately show ?thesis using assms(2,3) by auto
  qed
  have "seg ?nx ?pv (h # xs) = seg nx pv (h # xs)"
    by (rule seg_cong) (use b s assms(2,3) in \<open>auto simp del: butlast.simps\<close>)
  moreover have "seg ?nx ?pv ([x] @ [h])" using assms(2) by simp
  moreover have lx: "?l \<noteq> x" using assms(2,3) last_in_set [of "h # xs"] by auto
  ultimately have "seg ?nx ?pv ((h # xs) @ [x, h])"
    using s(1,2) assms(2) by (subst seg_append) (simp_all split: if_splits)
  then show ?thesis using s(3) assms(2,3) by (simp add: links_def)
qed

lemma links_remove:
  assumes "links nx pv h xs" "x \<in> set xs"
  shows "links (nx(pv x := nx x)) (pv(nx x := pv x)) h (remove1 x xs)"
proof -
  obtain as bs where xs: "xs = as @ x # bs" "x \<notin> set as" using split_list_first [OF assms(2)] by blast
  have dis: "distinct (h # as @ x # bs)" using assms(1) xs by (simp add: links_def)
  let ?l = "last (h # as)" and ?r = "hd (bs @ [h])"
  have s: "seg nx pv (h # as)" "seg nx pv (bs @ [h])" "pv x = ?l" "nx x = ?r"
    using assms(1) xs seg_append [of "h # as" "x # bs @ [h]" nx pv] seg_Cons [of "bs @ [h]" nx pv x] by (simp_all add: links_def)
  let ?nx = "nx(pv x := nx x)" and ?pv = "pv(nx x := pv x)"
  have e: "h # as = butlast (h # as) @ [?l]" by simp
  have la: "?l \<notin> set (butlast (h # as))" using dis e by (metis append_Cons distinct_append not_distinct_conv_prefix)
  have lb: "?l \<notin> set bs" using dis last_in_set [of "h # as"] by auto
  have ra: "?r \<notin> set as" using dis by (cases bs) auto
  have rb: "?r \<notin> set (tl (bs @ [h]))" using dis by (cases bs) auto
  have "seg ?nx ?pv (h # as) = seg nx pv (h # as)"
    by (rule seg_cong) (use la ra s in \<open>auto simp del: butlast.simps\<close>)
  moreover have "seg ?nx ?pv (bs @ [h]) = seg nx pv (bs @ [h])"
    by (rule seg_cong) (use lb rb s in \<open>auto simp: butlast_append\<close>)
  ultimately have "seg ?nx ?pv ((h # as) @ (bs @ [h]))" using s by (subst seg_append) simp_all
  then show ?thesis using dis xs by (simp add: links_def remove1_append)
qed

lemma links_inverse:
  assumes "links nx pv h xs" "x \<in> set (h # xs)"
  shows "nx (pv x) = x" "pv (nx x) = x"
proof -
  have "nx (pv x) = x \<and> pv (nx x) = x"
  proof (cases "x = h")
    case True
    then show ?thesis using assms(1) seg_append [of "h # xs" "[h]" nx pv] by (cases xs) (auto simp: links_def)
  next
    case False
    then obtain as bs where xs: "xs = as @ x # bs" using assms(2) split_list by fastforce
    have "seg nx pv ((h # as) @ (x # bs @ [h]))" using assms(1) xs by (simp add: links_def)
    then have "nx (last (h # as)) = x" "pv x = last (h # as)" "seg nx pv (x # bs @ [h])"
      by (subst (asm) seg_append; simp)+
    then show ?thesis using seg_Cons [of "bs @ [h]" nx pv x] by simp
  qed
  then show "nx (pv x) = x" "pv (nx x) = x" by simp_all
qed

lemma links_irrefl:
  assumes "links nx pv h xs" "x \<in> set xs"
  shows "nx x \<noteq> x" "pv x \<noteq> x"
proof -
  obtain as bs where xs: "xs = as @ x # bs" using split_list [OF assms(2)] by blast
  have d: "distinct (h # as @ x # bs)" using assms(1) xs by (simp add: links_def)
  have "seg nx pv ((h # as) @ (x # bs @ [h]))" using assms(1) xs by (simp add: links_def)
  then have "pv x = last (h # as)" "seg nx pv (x # bs @ [h])" by (subst (asm) seg_append; simp)+
  then have "pv x \<in> set (h # as)" "nx x \<in> set (bs @ [h])"
    using last_in_set [of "h # as"] hd_in_set [of "bs @ [h]"] seg_Cons [of "bs @ [h]" nx pv x] by simp_all
  then show "nx x \<noteq> x" "pv x \<noteq> x" using d by auto
qed

end
