(* ===== verification/Bio.thy ===== *)
theory Bio
  imports Pipe Links
begin

text \<open>
  The buffer cache (bio.c, buf.h) over the memory-backed disk driver (memide.c). The cache is
  an array of \<open>NBUF\<close> buffers linked through prev and next; index \<open>NBUF\<close> of the list \<open>bufs\<close> is
  the list head. The disk is a map from sector numbers to 512-byte contents; the record also keeps the
  sequence of sector writes the driver has made (\<open>dwrites\<close>, a history that no operation
  reads), which is what a crash can cut short. The pointer structure is refined to a list
  in most-recently-used order, and the cache to a map from sectors to contents.
\<close>

section \<open>State\<close>

definition NBUF :: nat where "NBUF = 30"

record buf =
  b_busy :: bool
  b_valid :: bool
  b_dirty :: bool
  b_dev :: uint
  b_sector :: uint
  b_prev :: nat
  b_next :: nat
  b_data :: "uchar list"

record bcache_state = pipe_state +
  bufs :: "buf list"
  disk :: "uint \<Rightarrow> uchar list"
  disksize :: nat
  dwrites :: "(uint \<times> uchar list) list"

definition upd_buf :: "nat \<Rightarrow> (buf \<Rightarrow> buf) \<Rightarrow> 'x bcache_state_scheme \<Rightarrow> 'x bcache_state_scheme" where
  "upd_buf i f s = s\<lparr>bufs := (bufs s)[i := f (bufs s ! i)]\<rparr>"

abbreviation buf_at :: "'x bcache_state_scheme \<Rightarrow> nat \<Rightarrow> buf" where
  "buf_at s i \<equiv> bufs s ! i"

section \<open>The driver\<close>

definition iderw :: "nat \<Rightarrow> 'x bcache_state_scheme \<Rightarrow> (unit, 'x bcache_state_scheme) kres" where
  "iderw i s =
     (let b = buf_at s i
      in if \<not> b_busy b then Panic ''iderw: buf not busy''
         else if b_valid b \<and> \<not> b_dirty b then Panic ''iderw: nothing to do''
         else if b_dev b \<noteq> 1 then Panic ''iderw: request not for disk 1''
         else if unat (b_sector b) \<ge> disksize s then Panic ''iderw: sector out of range''
         else if b_dirty b then
           Done () (upd_buf i (\<lambda>b. b\<lparr>b_dirty := False, b_valid := True\<rparr>)
             (s\<lparr>disk := (disk s)(b_sector b := b_data b), dwrites := dwrites s @ [(b_sector b, b_data b)]\<rparr>))
         else Done () (upd_buf i (\<lambda>b. b\<lparr>b_data := disk s (b_sector b), b_valid := True\<rparr>) s))"

section \<open>The cache\<close>

text \<open>
  The assignments that put buffer \<open>b\<close> right behind the head (at the end of brelse and in the
  loop of binit), and those that take it out of its place.
\<close>

definition link_front :: "nat \<Rightarrow> buf list \<Rightarrow> buf list" where
  "link_front b bs =
     (let bs1 = bs[b := (bs ! b)\<lparr>b_next := b_next (bs ! NBUF), b_prev := NBUF\<rparr>];
          hn = b_next (bs1 ! NBUF);
          bs2 = bs1[hn := (bs1 ! hn)\<lparr>b_prev := b\<rparr>]
      in bs2[NBUF := (bs2 ! NBUF)\<lparr>b_next := b\<rparr>])"

definition unlink :: "nat \<Rightarrow> buf list \<Rightarrow> buf list" where
  "unlink b bs =
     (let n = b_next (bs ! b);
          bs1 = bs[n := (bs ! n)\<lparr>b_prev := b_prev (bs ! b)\<rparr>];
          p = b_prev (bs1 ! b)
      in bs1[p := (bs1 ! p)\<lparr>b_next := b_next (bs1 ! b)\<rparr>])"

definition binit_one :: "nat \<Rightarrow> buf list \<Rightarrow> buf list" where
  "binit_one b bs = link_front b (bs[b := (bs ! b)\<lparr>b_dev := -1\<rparr>])"

definition binit :: "'x bcache_state_scheme \<Rightarrow> 'x bcache_state_scheme" where
  "binit s =
     (let bs = (bufs s)[NBUF := (bufs s ! NBUF)\<lparr>b_prev := NBUF, b_next := NBUF\<rparr>]
      in s\<lparr>bufs := fold binit_one [0..<NBUF] bs\<rparr>)"

text \<open>
  A walk along the links from a starting point until the head is met, with at most
  \<open>NBUF\<close> buffers.
\<close>

primrec walk :: "nat \<Rightarrow> (buf \<Rightarrow> nat) \<Rightarrow> buf list \<Rightarrow> nat \<Rightarrow> nat list" where
  "walk 0 link bs i = []"
| "walk (Suc n) link bs i = (if i = NBUF then [] else i # walk n link bs (link (bs ! i)))"

definition mru :: "buf list \<Rightarrow> nat list" where
  "mru bs = walk NBUF b_next bs (b_next (bs ! NBUF))"

definition lru :: "buf list \<Rightarrow> nat list" where
  "lru bs = walk NBUF b_prev bs (b_prev (bs ! NBUF))"

definition bget :: "uint \<Rightarrow> uint \<Rightarrow> 'x bcache_state_scheme \<Rightarrow> (nat, 'x bcache_state_scheme) kres" where
  "bget dev sector s =
     (case find (\<lambda>i. b_dev (buf_at s i) = dev \<and> b_sector (buf_at s i) = sector) (mru (bufs s)) of
        Some i \<Rightarrow>
          (if \<not> b_busy (buf_at s i) then Done i (upd_buf i (\<lambda>b. b\<lparr>b_busy := True\<rparr>) s)
           else sleep_on (ChanBuf i) s)
      | None \<Rightarrow>
          (case find (\<lambda>i. \<not> b_busy (buf_at s i) \<and> \<not> b_dirty (buf_at s i)) (lru (bufs s)) of
             Some i \<Rightarrow>
               Done i (upd_buf i (\<lambda>b. b\<lparr>b_dev := dev, b_sector := sector, b_busy := True,
                                        b_valid := False, b_dirty := False\<rparr>) s)
           | None \<Rightarrow> Panic ''bget: no buffers''))"

definition bread :: "uint \<Rightarrow> uint \<Rightarrow> 'x bcache_state_scheme \<Rightarrow> (nat, 'x bcache_state_scheme) kres" where
  "bread dev sector s =
     kbind (bget dev sector s)
       (\<lambda>i s1. if \<not> b_valid (buf_at s1 i) then kbind (iderw i s1) (\<lambda>_ s2. Done i s2) else Done i s1)"

definition bwrite :: "nat \<Rightarrow> 'x bcache_state_scheme \<Rightarrow> (unit, 'x bcache_state_scheme) kres" where
  "bwrite i s =
     (if \<not> b_busy (buf_at s i) then Panic ''bwrite''
      else iderw i (upd_buf i (\<lambda>b. b\<lparr>b_dirty := True\<rparr>) s))"

definition brelse :: "nat \<Rightarrow> 'x bcache_state_scheme \<Rightarrow> (unit, 'x bcache_state_scheme) kres" where
  "brelse i s =
     (if \<not> b_busy (buf_at s i) then Panic ''brelse''
      else let s1 = s\<lparr>bufs := link_front i (unlink i (bufs s))\<rparr>
           in Done () (wakeup (ChanBuf i) (upd_buf i (\<lambda>b. b\<lparr>b_busy := False\<rparr>) s1)))"

section \<open>The list of buffers\<close>

text \<open>\<open>dll bs xs\<close>: the links form the ring head, \<open>xs\<close>, head, in both directions.\<close>

definition dll :: "buf list \<Rightarrow> nat list \<Rightarrow> bool" where
  "dll bs xs \<longleftrightarrow> length bs = Suc NBUF \<and> distinct xs \<and> set xs \<subseteq> {..<NBUF} \<and>
     seg (\<lambda>i. b_next (bs ! i)) (\<lambda>i. b_prev (bs ! i)) (NBUF # xs @ [NBUF])"

lemma dll_length: "dll bs xs \<Longrightarrow> length xs \<le> NBUF"
  using card_mono [of "{..<NBUF}" "set xs"] by (auto simp: dll_def distinct_card)

lemma walk_next:
  assumes "seg nx pv (a # xs @ [NBUF])" "NBUF \<notin> set xs" "length xs \<le> n" "nx = (\<lambda>i. b_next (bs ! i))"
  shows "walk n b_next bs (nx a) = xs"
  using assms
proof (induction xs arbitrary: a n)
  case Nil
  then show ?case by (cases n) simp_all
next
  case (Cons x xs)
  then obtain m where n: "n = Suc m" by (cases n) auto
  have "walk m b_next bs (nx x) = xs" by (rule Cons.IH) (use Cons.prems n in auto)
  then show ?case using Cons.prems n by auto
qed

lemma walk_prev:
  assumes "seg nx pv (NBUF # xs @ [a])" "NBUF \<notin> set xs" "length xs \<le> n" "pv = (\<lambda>i. b_prev (bs ! i))"
  shows "walk n b_prev bs (pv a) = rev xs"
  using assms
proof (induction xs arbitrary: a n rule: rev_induct)
  case Nil
  then show ?case by (cases n) simp_all
next
  case (snoc x xs)
  then obtain m where n: "n = Suc m" by (cases n) auto
  have s: "seg nx pv (NBUF # xs @ [x])" "pv a = x"
    using snoc.prems(1) seg_append [of "NBUF # xs @ [x]" "[a]" nx pv] by simp_all
  have "walk m b_prev bs (pv x) = rev xs" by (rule snoc.IH) (use snoc.prems n s in auto)
  then show ?case using snoc.prems n s by auto
qed

lemma mru_eq: "dll bs xs \<Longrightarrow> mru bs = xs"
  unfolding mru_def using dll_length [of bs xs]
  by (intro walk_next [where a = NBUF and pv = "\<lambda>i. b_prev (bs ! i)"]) (auto simp: dll_def)

lemma lru_eq: "dll bs xs \<Longrightarrow> lru bs = rev xs"
  unfolding lru_def using dll_length [of bs xs]
  by (intro walk_prev [where a = NBUF and nx = "\<lambda>i. b_next (bs ! i)"]) (auto simp: dll_def)

lemma link_front_nth:
  assumes "length bs = Suc NBUF" "b < NBUF" "i \<le> NBUF" "b_next (bs ! NBUF) \<le> NBUF" "b_next (bs ! NBUF) \<noteq> b"
  shows "link_front b bs ! i = (bs ! i)\<lparr>b_next := (if i = NBUF then b else if i = b then b_next (bs ! NBUF) else b_next (bs ! i)),
     b_prev := (if i = b_next (bs ! NBUF) then b else if i = b then NBUF else b_prev (bs ! i))\<rparr>"
  using assms by (auto simp: link_front_def Let_def nth_upd)

lemma length_link_front [simp]: "length (link_front b bs) = length bs"
  by (simp add: link_front_def Let_def)

lemma length_unlink [simp]: "length (unlink b bs) = length bs"
  by (simp add: unlink_def Let_def)

lemma tl_append1: "x \<in> set (tl (xs @ [a])) \<Longrightarrow> distinct (xs @ [a]) \<Longrightarrow> x \<noteq> hd (xs @ [a])"
  by (cases xs) auto

lemma dll_link_front:
  assumes d: "dll bs xs" and b: "b < NBUF" "b \<notin> set xs"
  shows "dll (link_front b bs) (b # xs)"
proof -
  let ?nx = "\<lambda>i. b_next (bs ! i)" and ?pv = "\<lambda>i. b_prev (bs ! i)"
  let ?nx' = "\<lambda>i. b_next (link_front b bs ! i)" and ?pv' = "\<lambda>i. b_prev (link_front b bs ! i)"
  let ?h = "hd (xs @ [NBUF])"
  have l: "length bs = Suc NBUF" "distinct xs" "set xs \<subseteq> {..<NBUF}" and s: "seg ?nx ?pv (NBUF # xs @ [NBUF])"
    using d by (simp_all add: dll_def)
  have nh: "?nx NBUF = ?h" and s2: "seg ?nx ?pv (xs @ [NBUF])" using s by (simp_all add: seg_Cons)
  have h: "?h \<le> NBUF" "?h \<noteq> b" using l(3) b by (cases xs; auto)+
  have dx: "distinct (xs @ [NBUF])" using l(2,3) by auto
  note nth = link_front_nth [OF l(1) b(1) _ h [folded nh], unfolded nh]
  have xi: "x \<le> NBUF" if "x \<in> set (xs @ [NBUF])" for x using that l(3) by auto
  have "seg ?nx' ?pv' (xs @ [NBUF]) = seg ?nx ?pv (xs @ [NBUF])"
  proof (rule seg_cong)
    fix x assume "x \<in> set (butlast (xs @ [NBUF]))"
    then have "x \<in> set xs" by simp
    then show "?nx' x = ?nx x" using b(2) l(3) by (subst nth) auto
  next
    fix x assume x: "x \<in> set (tl (xs @ [NBUF]))"
    then have "x \<noteq> ?h" "x \<in> set (xs @ [NBUF])" using tl_append1 [OF _ dx] list.set_sel(2) [of "xs @ [NBUF]"] by auto
    moreover have "x \<noteq> b" using calculation(2) b by auto
    ultimately show "?pv' x = ?pv x" using xi by (subst nth) auto
  qed
  then have "seg ?nx' ?pv' (NBUF # b # xs @ [NBUF])"
    using s2 b h by (simp add: seg_Cons nth)
  then show ?thesis using l b by (simp add: dll_def)
qed

lemma unlink_nth:
  assumes "length bs = Suc NBUF" "b_next (bs ! b) \<le> NBUF" "b_prev (bs ! b) \<le> NBUF" "b_next (bs ! b) \<noteq> b"
  shows "unlink b bs ! i = (bs ! i)\<lparr>b_next := (if i = b_prev (bs ! b) then b_next (bs ! b) else b_next (bs ! i)),
     b_prev := (if i = b_next (bs ! b) then b_prev (bs ! b) else b_prev (bs ! i))\<rparr>"
  using assms by (auto simp: unlink_def Let_def nth_upd)

lemma dll_unlink:
  assumes d: "dll bs (ys @ b # zs)"
  shows "dll (unlink b bs) (ys @ zs)"
proof -
  let ?nx = "\<lambda>i. b_next (bs ! i)" and ?pv = "\<lambda>i. b_prev (bs ! i)"
  let ?nx' = "\<lambda>i. b_next (unlink b bs ! i)" and ?pv' = "\<lambda>i. b_prev (unlink b bs ! i)"
  let ?p = "last (NBUF # ys)" and ?n = "hd (zs @ [NBUF])"
  have l: "length bs = Suc NBUF" "distinct (ys @ b # zs)" "set (ys @ b # zs) \<subseteq> {..<NBUF}"
    and s: "seg ?nx ?pv ((NBUF # ys) @ b # zs @ [NBUF])"
    using d by (simp_all add: dll_def)
  have s1: "seg ?nx ?pv (NBUF # ys)" "seg ?nx ?pv (b # zs @ [NBUF])" "?pv b = ?p"
    using s seg_append [of "NBUF # ys" "b # zs @ [NBUF]" ?nx ?pv] by simp_all
  have s2: "seg ?nx ?pv (zs @ [NBUF])" "?nx b = ?n" using s1(2) by (simp_all add: seg_Cons)
  have pin: "?p = NBUF \<and> ys = [] \<or> ?p \<in> set ys" by auto
  have nin: "?n = NBUF \<and> zs = [] \<or> ?n \<in> set zs" by (cases zs) auto
  have b: "b < NBUF" using l(3) by auto
  have "?p \<le> NBUF" using pin l(3) by force
  moreover have "?n \<le> NBUF" "?n \<noteq> b" using nin l(2,3) b by force+
  ultimately have nth: "unlink b bs ! i = (bs ! i)\<lparr>b_next := (if i = ?p then ?n else ?nx i), b_prev := (if i = ?n then ?p else ?pv i)\<rparr>" for i
    using unlink_nth [of bs b i] l(1) s1(3) s2(2) by (simp del: last.simps)
  have "seg ?nx' ?pv' (NBUF # ys) = seg ?nx ?pv (NBUF # ys)"
  proof (rule seg_cong)
    fix x assume x: "x \<in> set (butlast (NBUF # ys))"
    have "distinct (NBUF # ys)" using l(2,3) by auto
    then have "distinct (butlast (NBUF # ys) @ [?p])" by (metis append_butlast_last_id list.distinct(1))
    then have "?p \<notin> set (butlast (NBUF # ys))" unfolding distinct_append list.set by blast
    then have "x \<noteq> ?p" using x by blast
    then show "?nx' x = ?nx x" by (simp add: nth del: last.simps)
  next
    fix x assume "x \<in> set (tl (NBUF # ys))"
    then have "x \<in> set ys" by simp
    then have "x \<noteq> ?n" using nin l(2,3) by auto
    then show "?pv' x = ?pv x" by (simp add: nth)
  qed
  moreover have "seg ?nx' ?pv' (zs @ [NBUF]) = seg ?nx ?pv (zs @ [NBUF])"
  proof (rule seg_cong)
    fix x assume "x \<in> set (butlast (zs @ [NBUF]))"
    then have "x \<in> set zs" by simp
    then have "x \<noteq> ?p" using pin l(2,3) by auto
    then show "?nx' x = ?nx x" by (simp add: nth)
  next
    fix x assume x: "x \<in> set (tl (zs @ [NBUF]))"
    have "distinct (zs @ [NBUF])" using l(2,3) by auto
    then have "x \<noteq> ?n" using x by (rule tl_append1 [rotated])
    then show "?pv' x = ?pv x" by (simp add: nth)
  qed
  moreover have "?nx' ?p = ?n" "?pv' ?n = ?p" by (simp_all add: nth del: last.simps)
  ultimately have "seg ?nx' ?pv' ((NBUF # ys) @ zs @ [NBUF])"
    using s1(1) s2(1) seg_append [of "NBUF # ys" "zs @ [NBUF]" ?nx' ?pv'] by simp
  then show ?thesis using l by (simp add: dll_def)
qed

lemma dll_upd:
  assumes "dll bs xs" "\<And>b. b_next (f b) = b_next b \<and> b_prev (f b) = b_prev b"
  shows "dll (bs[i := f (bs ! i)]) xs"
proof -
  have "b_next (bs[i := f (bs ! i)] ! j) = b_next (bs ! j)" "b_prev (bs[i := f (bs ! i)] ! j) = b_prev (bs ! j)" for j
    using assms(2) by (simp_all add: nth_upd)
  then show ?thesis using assms(1) by (simp add: dll_def)
qed

lemma remove1_append_Cons: "b \<notin> set ys \<Longrightarrow> remove1 b (ys @ b # zs) = ys @ zs"
  by (simp add: remove1_append)

text \<open>The pointer updates of brelse move the buffer to the front of the list.\<close>

lemma dll_move_front:
  assumes "dll bs xs" "b \<in> set xs"
  shows "dll (link_front b (unlink b bs)) (b # remove1 b xs)"
proof -
  obtain ys zs where xs: "xs = ys @ b # zs" using assms(2) by (auto dest: split_list)
  have "distinct xs" "b < NBUF" using assms by (auto simp: dll_def)
  then have "b \<notin> set ys" "b \<notin> set zs" by (auto simp: xs)
  then show ?thesis
    using dll_link_front [OF dll_unlink [OF assms(1) [unfolded xs]]] \<open>b < NBUF\<close>
    by (simp add: xs remove1_append_Cons)
qed

lemma dll_binit:
  assumes "length (bufs s) = Suc NBUF"
  shows "dll (bufs (binit s)) (rev [0..<NBUF])"
proof -
  let ?bs = "(bufs s)[NBUF := (bufs s ! NBUF)\<lparr>b_prev := NBUF, b_next := NBUF\<rparr>]"
  have "n \<le> NBUF \<Longrightarrow> dll (fold binit_one [0..<n] ?bs) (rev [0..<n])" for n
  proof (induction n)
    case 0
    then show ?case using assms by (simp add: dll_def)
  next
    case (Suc n)
    have "dll ((fold binit_one [0..<n] ?bs)[n := (fold binit_one [0..<n] ?bs ! n)\<lparr>b_dev := -1\<rparr>]) (rev [0..<n])"
      by (rule dll_upd) (use Suc in simp_all)
    then have "dll (binit_one n (fold binit_one [0..<n] ?bs)) (n # rev [0..<n])"
      unfolding binit_one_def using Suc.prems by (intro dll_link_front) simp_all
    then show ?case by simp
  qed
  from this [of NBUF] show ?thesis by (simp add: binit_def Let_def)
qed

section \<open>The cache as a map from sectors to contents\<close>

text \<open>
  The invariant: the links form a list of all buffers, no two buffers cache the same
  sector, and a clean buffer nobody holds agrees with the disk.
\<close>

definition buf_ok :: "(uint \<Rightarrow> uchar list) \<Rightarrow> buf \<Rightarrow> bool" where
  "buf_ok d b \<longleftrightarrow> (b_valid b \<longrightarrow> b_dev b = 1) \<and> (b_dirty b \<longrightarrow> b_valid b) \<and>
     (b_dev b = 1 \<and> \<not> b_busy b \<longrightarrow> b_valid b) \<and>
     (b_valid b \<and> \<not> b_dirty b \<and> \<not> b_busy b \<longrightarrow> b_data b = d (b_sector b))"

definition bc_uniq :: "buf list \<Rightarrow> bool" where
  "bc_uniq bs \<longleftrightarrow> (\<forall>i < NBUF. \<forall>j < NBUF. i \<noteq> j \<longrightarrow> b_dev (bs ! i) = b_dev (bs ! j) \<longrightarrow>
     b_sector (bs ! i) = b_sector (bs ! j) \<longrightarrow> b_dev (bs ! i) = -1)"

definition bc_list :: "buf list \<Rightarrow> nat list \<Rightarrow> bool" where
  "bc_list bs xs \<longleftrightarrow> dll bs xs \<and> set xs = {..<NBUF}"

definition bc_inv :: "'x bcache_state_scheme \<Rightarrow> bool" where
  "bc_inv s \<longleftrightarrow> (\<exists>xs. bc_list (bufs s) xs) \<and> bc_uniq (bufs s) \<and> (\<forall>i < NBUF. buf_ok (disk s) (buf_at s i))"

definition bview :: "'x bcache_state_scheme \<Rightarrow> uint \<Rightarrow> uchar list" where
  "bview s sec =
     (case find_idx (\<lambda>b. b_valid b \<and> b_dev b = 1 \<and> b_sector b = sec) (take NBUF (bufs s)) of
        Some i \<Rightarrow> b_data (buf_at s i)
      | None \<Rightarrow> disk s sec)"

lemma bc_length: "bc_inv s \<Longrightarrow> length (bufs s) = Suc NBUF"
  by (auto simp: bc_inv_def bc_list_def dll_def)

lemma bufs_upd_buf [simp]: "bufs (upd_buf i f s) = (bufs s)[i := f (buf_at s i)]"
  by (simp add: upd_buf_def)

lemma upd_buf_sel [simp]:
  "disk (upd_buf i f s) = disk s" "disksize (upd_buf i f s) = disksize s" "dwrites (upd_buf i f s) = dwrites s"
  "procs (upd_buf i f s) = procs s" "cur (upd_buf i f s) = cur s" "pipes (upd_buf i f s) = pipes s"
  by (simp_all add: upd_buf_def)

lemma bc_uniqD:
  assumes "bc_inv s" "i < NBUF" "j < NBUF" "i \<noteq> j" "b_dev (buf_at s i) = b_dev (buf_at s j)"
    "b_sector (buf_at s i) = b_sector (buf_at s j)"
  shows "b_dev (buf_at s i) = -1"
proof -
  have "bc_uniq (bufs s)" using assms(1) by (simp add: bc_inv_def)
  from this [unfolded bc_uniq_def, rule_format, OF assms(2-6)] show ?thesis .
qed

lemma bc_same:
  assumes "bc_inv s" "i < NBUF" "j < NBUF" "b_dev (buf_at s i) = 1" "b_dev (buf_at s j) = 1"
    "b_sector (buf_at s i) = b_sector (buf_at s j)"
  shows "i = j"
proof (rule ccontr)
  assume "i \<noteq> j"
  have "b_dev (buf_at s i) = -1"
    by (rule bc_uniqD [OF assms(1-3) \<open>i \<noteq> j\<close> _ assms(6)]) (simp add: assms)
  then show False using assms(4) by simp
qed

lemma bview_cached:
  assumes "bc_inv s" "i < NBUF" "b_valid (buf_at s i)" "b_dev (buf_at s i) = 1" "b_sector (buf_at s i) = sec"
  shows "bview s sec = b_data (buf_at s i)"
proof -
  have l: "length (bufs s) = Suc NBUF" by (rule bc_length [OF assms(1)])
  have u: "j = i" if "j < NBUF" "b_dev (buf_at s j) = 1" "b_sector (buf_at s j) = sec" for j
    by (rule bc_same [OF assms(1) that(1) assms(2) that(2) assms(4)]) (simp add: that assms)
  have lt: "length (take NBUF (bufs s)) = NBUF" using l by simp
  have "find_idx (\<lambda>b. b_valid b \<and> b_dev b = 1 \<and> b_sector b = sec) (take NBUF (bufs s)) = Some i"
  proof (rule find_idx_unique)
    fix j assume "j < length (take NBUF (bufs s))"
      "b_valid (take NBUF (bufs s) ! j) \<and> b_dev (take NBUF (bufs s) ! j) = 1 \<and> b_sector (take NBUF (bufs s) ! j) = sec"
    then show "j = i" using lt by (intro u) simp_all
  qed (use assms lt in simp_all)
  then show ?thesis by (simp add: bview_def)
qed

lemma bview_uncached:
  assumes "bc_inv s" "\<And>i. i < NBUF \<Longrightarrow> b_dev (buf_at s i) = 1 \<Longrightarrow> b_sector (buf_at s i) = sec \<Longrightarrow> \<not> b_valid (buf_at s i)"
  shows "bview s sec = disk s sec"
proof -
  have l: "length (bufs s) = Suc NBUF" by (rule bc_length [OF assms(1)])
  have "find_idx (\<lambda>b. b_valid b \<and> b_dev b = 1 \<and> b_sector b = sec) (take NBUF (bufs s)) = None"
    using assms(2) l by (auto simp: in_set_conv_nth)
  then show ?thesis by (simp only: bview_def option.case)
qed

lemma bc_inv_bufD:
  assumes "bc_inv s" "i < NBUF"
  shows "b_valid (buf_at s i) \<Longrightarrow> b_dev (buf_at s i) = 1" "b_dirty (buf_at s i) \<Longrightarrow> b_valid (buf_at s i)"
    "b_valid (buf_at s i) \<Longrightarrow> \<not> b_dirty (buf_at s i) \<Longrightarrow> \<not> b_busy (buf_at s i) \<Longrightarrow>
       b_data (buf_at s i) = disk s (b_sector (buf_at s i))"
    "b_dev (buf_at s i) = 1 \<Longrightarrow> \<not> b_busy (buf_at s i) \<Longrightarrow> b_valid (buf_at s i)"
  using assms by (auto simp: bc_inv_def buf_ok_def)

lemma bview_eqI:
  assumes inv: "bc_inv t"
    and v: "\<And>j. j < NBUF \<Longrightarrow> b_valid (buf_at t j) \<Longrightarrow> b_sector (buf_at t j) = x \<Longrightarrow> b_data (buf_at t j) = v"
    and d: "(\<And>j. j < NBUF \<Longrightarrow> b_valid (buf_at t j) \<Longrightarrow> b_sector (buf_at t j) \<noteq> x) \<Longrightarrow> disk t x = v"
  shows "bview t x = v"
proof (cases "\<exists>j < NBUF. b_valid (buf_at t j) \<and> b_sector (buf_at t j) = x")
  case True
  then obtain j where "j < NBUF" "b_valid (buf_at t j)" "b_sector (buf_at t j) = x" by blast
  then show ?thesis using bview_cached [OF inv] bc_inv_bufD(1) [OF inv] v by metis
next
  case False
  then show ?thesis using d bview_uncached [OF inv, of x] by auto
qed

lemma bc_list_perm:
  assumes "bc_list bs xs"
  shows "mru bs = xs" "lru bs = rev xs" "\<And>i. i \<in> set xs \<longleftrightarrow> i < NBUF"
  using assms by (auto simp: bc_list_def mru_eq lru_eq)

lemma find_SomeD2: "find P xs = Some i \<Longrightarrow> i \<in> set xs \<and> P i"
  by (metis find_Some_iff nth_mem)

lemma find_NoneD2: "find P xs = None \<Longrightarrow> i \<in> set xs \<Longrightarrow> \<not> P i"
  by (simp add: find_None_iff)

text \<open>A buffer other than the links changes in slot \<open>i\<close>.\<close>

lemma bc_inv_upd:
  assumes inv: "bc_inv s" and i: "i < NBUF"
    and b: "b_next b = b_next (buf_at s i)" "b_prev b = b_prev (buf_at s i)" "buf_ok d b"
    and u: "\<And>j. j < NBUF \<Longrightarrow> j \<noteq> i \<Longrightarrow> b_dev b = b_dev (buf_at s j) \<Longrightarrow> b_sector b = b_sector (buf_at s j) \<Longrightarrow> b_dev b = -1"
    and d: "\<And>j. j < NBUF \<Longrightarrow> j \<noteq> i \<Longrightarrow> b_valid (buf_at s j) \<Longrightarrow> d (b_sector (buf_at s j)) = disk s (b_sector (buf_at s j))"
    and t: "bufs t = (bufs s)[i := b]" "disk t = d"
  shows "bc_inv t"
proof -
  have l: "length (bufs s) = Suc NBUF" by (rule bc_length [OF inv])
  obtain xs where xs: "dll (bufs s) xs" "set xs = {..<NBUF}" using inv by (auto simp: bc_inv_def bc_list_def)
  have "b_next (bufs t ! j) = b_next (bufs s ! j)" "b_prev (bufs t ! j) = b_prev (bufs s ! j)" for j
    using b by (simp_all add: t nth_upd)
  then have "dll (bufs t) xs" using xs(1) by (simp add: dll_def t)
  moreover have "bc_uniq (bufs t)"
  proof -
    have uo: "b_dev (buf_at s j) = -1" if "j < NBUF" "k < NBUF" "j \<noteq> k" "b_dev (buf_at s j) = b_dev (buf_at s k)"
        "b_sector (buf_at s j) = b_sector (buf_at s k)" for j k
      using bc_uniqD [OF inv] that by blast
    have n: "bufs t ! j = (if j = i then b else buf_at s j)" if "j < NBUF" for j
      using that l by (simp add: t nth_upd)
    show ?thesis unfolding bc_uniq_def
    proof (intro allI impI)
      fix j k assume jk: "j < NBUF" "k < NBUF" "j \<noteq> k" "b_dev (bufs t ! j) = b_dev (bufs t ! k)"
        "b_sector (bufs t ! j) = b_sector (bufs t ! k)"
      consider (l) "j = i" "k \<noteq> i" | (r) "k = i" "j \<noteq> i" | (o) "j \<noteq> i" "k \<noteq> i" using jk(3) by blast
      then show "b_dev (bufs t ! j) = -1"
      proof cases
        case l
        have "b_dev b = b_dev (buf_at s k)" "b_sector b = b_sector (buf_at s k)"
          using jk(4,5) l n [OF jk(1)] n [OF jk(2)] by simp_all
        from u [OF jk(2) l(2) this] show ?thesis using l n [OF jk(1)] by simp
      next
        case r
        have e: "b_dev b = b_dev (buf_at s j)" "b_sector b = b_sector (buf_at s j)"
          using jk(4,5) r n [OF jk(1)] n [OF jk(2)] by simp_all
        from u [OF jk(1) r(2) this] show ?thesis using e(1) r n [OF jk(1)] by simp
      next
        case o
        have "b_dev (buf_at s j) = b_dev (buf_at s k)" "b_sector (buf_at s j) = b_sector (buf_at s k)"
          using jk(4,5) o n [OF jk(1)] n [OF jk(2)] by simp_all
        from uo [OF jk(1-3) this] show ?thesis using o n [OF jk(1)] by simp
      qed
    qed
  qed
  moreover have "buf_ok d (bufs t ! j)" if "j < NBUF" for j
  proof (cases "j = i")
    case True
    then show ?thesis using b(3) that l by (simp add: t)
  next
    case False
    have "buf_ok (disk s) (buf_at s j)" using inv that by (simp add: bc_inv_def)
    then show ?thesis using d [OF that False] False by (auto simp: t buf_ok_def)
  qed
  ultimately show ?thesis using xs(2) by (auto simp: bc_inv_def bc_list_def t)
qed


lemma bc_inv_flags:
  assumes inv: "bc_inv s" and i: "i < NBUF"
    and b: "b_next b = b_next (buf_at s i)" "b_prev b = b_prev (buf_at s i)" "b_dev b = b_dev (buf_at s i)"
      "b_sector b = b_sector (buf_at s i)" "buf_ok d b"
    and d: "\<And>j. j < NBUF \<Longrightarrow> j \<noteq> i \<Longrightarrow> b_valid (buf_at s j) \<Longrightarrow> d (b_sector (buf_at s j)) = disk s (b_sector (buf_at s j))"
    and t: "bufs t = (bufs s)[i := b]" "disk t = d"
  shows "bc_inv t"
proof (rule bc_inv_upd [OF inv i b(1,2,5) _ d t])
  fix j assume "j < NBUF" "j \<noteq> i" "b_dev b = b_dev (buf_at s j)" "b_sector b = b_sector (buf_at s j)"
  then show "b_dev b = -1" using bc_uniqD [OF inv i, of j] b(3,4) by simp
qed

text \<open>The slots bread and the other calls leave alone.\<close>

definition only_buf :: "nat \<Rightarrow> 'x bcache_state_scheme \<Rightarrow> 'x bcache_state_scheme \<Rightarrow> bool" where
  "only_buf i s t \<longleftrightarrow> length (bufs t) = length (bufs s) \<and> (\<forall>j. j \<noteq> i \<longrightarrow> buf_at t j = buf_at s j)"

definition only_bufs :: "'x bcache_state_scheme \<Rightarrow> 'x bcache_state_scheme \<Rightarrow> bool" where
  "only_bufs s t \<longleftrightarrow> t = s\<lparr>bufs := bufs t\<rparr>"

lemma only_bufs_disk: "only_bufs s t \<Longrightarrow> disk t = disk s"
  unfolding only_bufs_def by (drule arg_cong [of _ _ disk]) simp

text \<open>
  What bread promises: a buffer that is busy and valid and holds the sector's content, with nothing else
  changed in the cache's content, on the disk, or in the other buffers.
\<close>

definition bread_post :: "uint \<Rightarrow> 'x bcache_state_scheme \<Rightarrow> nat \<Rightarrow> 'x bcache_state_scheme \<Rightarrow> bool" where
  "bread_post sec s i t \<longleftrightarrow>
     i < NBUF \<and> b_busy (buf_at t i) \<and> b_valid (buf_at t i) \<and> b_dev (buf_at t i) = 1 \<and>
     b_sector (buf_at t i) = sec \<and> b_data (buf_at t i) = bview s sec \<and> \<not> b_busy (buf_at s i) \<and>
     b_dirty (buf_at t i) = (b_dirty (buf_at s i) \<and> b_dev (buf_at s i) = 1 \<and> b_sector (buf_at s i) = sec) \<and>
     (b_dirty (buf_at t i) \<or> bview s sec = disk s sec) \<and>
     bc_inv t \<and> bview t = bview s \<and> only_bufs s t \<and> only_buf i s t"

lemma bread_hit:
  assumes inv: "bc_inv s" and i: "i < NBUF" "b_dev (buf_at s i) = 1" "b_sector (buf_at s i) = sec"
    "\<not> b_busy (buf_at s i)" "b_valid (buf_at s i)"
  shows "\<exists>t. bread 1 sec s = Done i t \<and> bread_post sec s i t"
proof -
  obtain xs where xs: "bc_list (bufs s) xs" using inv by (auto simp: bc_inv_def)
  have l: "length (bufs s) = Suc NBUF" by (rule bc_length [OF inv])
  have u: "j = i" if "j < NBUF" "b_dev (buf_at s j) = 1" "b_sector (buf_at s j) = sec" for j
    by (rule bc_same [OF inv that(1) i(1) that(2) i(2)]) (simp add: that i)
  have f: "find (\<lambda>i. b_dev (buf_at s i) = 1 \<and> b_sector (buf_at s i) = sec) (mru (bufs s)) = Some i"
  proof (cases "find (\<lambda>i. b_dev (buf_at s i) = 1 \<and> b_sector (buf_at s i) = sec) (mru (bufs s))")
    case None
    then show ?thesis using find_NoneD2 [OF None, of i] i bc_list_perm [OF xs] by simp
  next
    case (Some j)
    have "j < NBUF" "b_dev (buf_at s j) = 1" "b_sector (buf_at s j) = sec"
      using find_SomeD2 [OF Some] bc_list_perm [OF xs] by auto
    then have "j = i" by (rule u)
    then show ?thesis using Some by simp
  qed
  have il: "i < length (bufs s)" using i(1) l by simp
  let ?t = "upd_buf i (\<lambda>b. b\<lparr>b_busy := True\<rparr>) s"
  have r: "bread 1 sec s = Done i ?t" using f i l by (simp add: bread_def bget_def nth_upd)
  have it: "bc_inv ?t"
    by (rule bc_inv_flags [OF inv i(1), where b = "(buf_at s i)\<lparr>b_busy := True\<rparr>" and d = "disk s"])
      (use i in \<open>simp_all add: buf_ok_def\<close>)
  have same: "b_valid (buf_at ?t j) = b_valid (buf_at s j)" "b_sector (buf_at ?t j) = b_sector (buf_at s j)"
      "b_data (buf_at ?t j) = b_data (buf_at s j)" for j by (simp_all add: nth_upd)
  have "bview ?t x = bview s x" for x
  proof (rule bview_eqI [OF it])
    show "b_data (buf_at ?t j) = bview s x" if "j < NBUF" "b_valid (buf_at ?t j)" "b_sector (buf_at ?t j) = x" for j
      using that bview_cached [OF inv that(1)] bc_inv_bufD(1) [OF inv that(1)] unfolding same by simp
    show "disk ?t x = bview s x" if "\<And>j. j < NBUF \<Longrightarrow> b_valid (buf_at ?t j) \<Longrightarrow> b_sector (buf_at ?t j) \<noteq> x"
    proof -
      have "bview s x = disk s x" by (rule bview_uncached [OF inv]) (use that [unfolded same] in blast)
      then show ?thesis by simp
    qed
  qed
  then have "bview ?t = bview s" by (rule ext)
  moreover have "bview s sec = b_data (buf_at s i)" using bview_cached [OF inv i(1) i(5,2,3)] .
  moreover have "b_dirty (buf_at s i) \<or> b_data (buf_at s i) = disk s sec"
    using bc_inv_bufD(3) [OF inv i(1) i(5)] i by auto
  moreover have "only_bufs s ?t" by (simp add: only_bufs_def upd_buf_def)
  moreover have "only_buf i s ?t" by (simp add: only_buf_def)
  ultimately have "bread_post sec s i ?t"
    using i it unfolding bread_post_def bufs_upd_buf nth_list_update_eq [OF il]
    by (intro conjI) simp_all
  then show ?thesis using r by blast
qed


lemma bread_miss:
  assumes inv: "bc_inv s"
    and nc: "\<And>j. j < NBUF \<Longrightarrow> b_dev (buf_at s j) = 1 \<Longrightarrow> b_sector (buf_at s j) \<noteq> sec"
    and fr: "\<exists>j < NBUF. \<not> b_busy (buf_at s j) \<and> \<not> b_dirty (buf_at s j)" and sz: "unat sec < disksize s"
  shows "\<exists>i t. bread 1 sec s = Done i t \<and> bread_post sec s i t \<and> \<not> b_dirty (buf_at s i)"
proof -
  obtain xs where xs: "bc_list (bufs s) xs" using inv by (auto simp: bc_inv_def)
  have l: "length (bufs s) = Suc NBUF" by (rule bc_length [OF inv])
  have f1: "find (\<lambda>i. b_dev (buf_at s i) = 1 \<and> b_sector (buf_at s i) = sec) (mru (bufs s)) = None"
    unfolding find_None_iff using nc bc_list_perm [OF xs] by auto
  obtain i where f2: "find (\<lambda>i. \<not> b_busy (buf_at s i) \<and> \<not> b_dirty (buf_at s i)) (lru (bufs s)) = Some i"
  proof (cases "find (\<lambda>i. \<not> b_busy (buf_at s i) \<and> \<not> b_dirty (buf_at s i)) (lru (bufs s))")
    case None
    then show ?thesis using fr bc_list_perm [OF xs] by (auto simp: find_None_iff)
  qed auto
  have i: "i < NBUF" "\<not> b_busy (buf_at s i)" "\<not> b_dirty (buf_at s i)"
    using find_SomeD2 [OF f2] bc_list_perm [OF xs] by auto
  have il: "i < length (bufs s)" using i(1) l by simp
  define b where "b = (buf_at s i)\<lparr>b_dev := 1, b_sector := sec, b_busy := True, b_dirty := False,
    b_data := disk s sec, b_valid := True\<rparr>"
  define t where "t = s\<lparr>bufs := (bufs s)[i := b]\<rparr>"
  have r: "bread 1 sec s = Done i t"
    unfolding bread_def bget_def f1 f2 option.case kbind.simps t_def b_def
    using il sz by (simp add: iderw_def upd_buf_def Let_def)
  have it: "bc_inv t"
  proof (rule bc_inv_upd [OF inv i(1), where b = b and d = "disk s"])
    fix j assume "j < NBUF" "b_dev b = b_dev (buf_at s j)" "b_sector b = b_sector (buf_at s j)"
    then show "b_dev b = -1" using nc [of j] by (simp add: b_def)
  qed (simp_all add: b_def t_def buf_ok_def)
  have bi: "buf_at t i = b" and bj: "\<And>j. j \<noteq> i \<Longrightarrow> buf_at t j = buf_at s j" using il by (simp_all add: t_def)
  have ds: "bview s sec = disk s sec" by (rule bview_uncached [OF inv]) (use nc in blast)
  have "bview t x = bview s x" for x
  proof (rule bview_eqI [OF it])
    fix j assume j: "j < NBUF" "b_valid (buf_at t j)" "b_sector (buf_at t j) = x"
    show "b_data (buf_at t j) = bview s x"
    proof (cases "j = i")
      case True
      then show ?thesis using j bi ds by (auto simp: b_def)
    next
      case False
      then show ?thesis using j bj [OF False] bview_cached [OF inv j(1)] bc_inv_bufD(1) [OF inv j(1)] by simp
    qed
  next
    assume n: "\<And>j. j < NBUF \<Longrightarrow> b_valid (buf_at t j) \<Longrightarrow> b_sector (buf_at t j) \<noteq> x"
    show "disk t x = bview s x"
    proof (cases "b_valid (buf_at s i) \<and> b_sector (buf_at s i) = x")
      case True
      have "bview s x = b_data (buf_at s i)"
        using bview_cached [OF inv i(1)] bc_inv_bufD(1) [OF inv i(1)] True by simp
      then show ?thesis using bc_inv_bufD(3) [OF inv i(1)] True i by (simp add: t_def)
    next
      case False
      have "bview s x = disk s x"
      proof (rule bview_uncached [OF inv])
        fix j assume j: "j < NBUF" "b_sector (buf_at s j) = x"
        show "\<not> b_valid (buf_at s j)" using n [OF j(1)] False j(2) bj [of j] by (cases "j = i") auto
      qed
      then show ?thesis by (simp add: t_def)
    qed
  qed
  then have bv: "bview t = bview s" by (rule ext)
  have "only_bufs s t" by (simp add: only_bufs_def t_def)
  moreover have "only_buf i s t" by (simp add: only_buf_def t_def)
  ultimately have "bread_post sec s i t"
    unfolding bread_post_def bi using i it bv ds by (intro conjI) (simp_all add: b_def)
  then show ?thesis using r i(3) by blast
qed

text \<open>bwrite: the disk takes the buffer's data, and the cache's content does not change.\<close>

lemma bwrite_ok:
  assumes inv: "bc_inv s" and i: "i < NBUF" "b_busy (buf_at s i)" "b_valid (buf_at s i)"
    and sz: "unat (b_sector (buf_at s i)) < disksize s"
  defines "t \<equiv> s\<lparr>bufs := (bufs s)[i := (buf_at s i)\<lparr>b_dirty := False, b_valid := True\<rparr>],
      disk := (disk s)(b_sector (buf_at s i) := b_data (buf_at s i)),
      dwrites := dwrites s @ [(b_sector (buf_at s i), b_data (buf_at s i))]\<rparr>"
  shows "bwrite i s = Done () t" "bc_inv t" "bview t = bview s"
proof -
  have il: "i < length (bufs s)" using i(1) bc_length [OF inv] by simp
  have d: "b_dev (buf_at s i) = 1" using bc_inv_bufD(1) [OF inv i(1,3)] .
  show "bwrite i s = Done () t"
    using i d sz il unfolding t_def by (simp add: bwrite_def iderw_def Let_def upd_buf_def)
  show it: "bc_inv t"
  proof (rule bc_inv_flags [OF inv i(1), where b = "(buf_at s i)\<lparr>b_dirty := False, b_valid := True\<rparr>"
        and d = "(disk s)(b_sector (buf_at s i) := b_data (buf_at s i))"])
    fix j assume j: "j < NBUF" "j \<noteq> i" "b_valid (buf_at s j)"
    have "b_sector (buf_at s j) \<noteq> b_sector (buf_at s i)"
    proof
      assume "b_sector (buf_at s j) = b_sector (buf_at s i)"
      from bc_same [OF inv j(1) i(1) bc_inv_bufD(1) [OF inv j(1,3)] d this] j(2) show False by simp
    qed
    then show "((disk s)(b_sector (buf_at s i) := b_data (buf_at s i))) (b_sector (buf_at s j)) = disk s (b_sector (buf_at s j))"
      by simp
  qed (use d i in \<open>simp_all add: t_def buf_ok_def\<close>)
  have same: "b_valid (buf_at t j) = b_valid (buf_at s j)" "b_sector (buf_at t j) = b_sector (buf_at s j)"
      "b_data (buf_at t j) = b_data (buf_at s j)" for j using i(3) by (auto simp: t_def nth_upd)
  have "bview t x = bview s x" for x
  proof (rule bview_eqI [OF it])
    show "b_data (buf_at t j) = bview s x" if "j < NBUF" "b_valid (buf_at t j)" "b_sector (buf_at t j) = x" for j
      using that bview_cached [OF inv that(1)] bc_inv_bufD(1) [OF inv that(1)] unfolding same by simp
    assume n: "\<And>j. j < NBUF \<Longrightarrow> b_valid (buf_at t j) \<Longrightarrow> b_sector (buf_at t j) \<noteq> x"
    have "bview s x = disk s x" by (rule bview_uncached [OF inv]) (use n [unfolded same] in blast)
    moreover have "x \<noteq> b_sector (buf_at s i)" using n [OF i(1), unfolded same] i(3) by auto
    ultimately show "disk t x = bview s x" by (simp add: t_def)
  qed
  then show "bview t = bview s" by (rule ext)
qed


text \<open>The link updates leave every other field alone.\<close>

definition same_fields :: "buf \<Rightarrow> buf \<Rightarrow> bool" where
  "same_fields b c \<longleftrightarrow> b_busy b = b_busy c \<and> b_valid b = b_valid c \<and> b_dirty b = b_dirty c \<and> b_dev b = b_dev c \<and>
     b_sector b = b_sector c \<and> b_data b = b_data c"

lemma same_fields_refl [simp]: "same_fields b b"
  by (simp add: same_fields_def)

lemma same_fields_links [simp]:
  "same_fields (b\<lparr>b_next := x\<rparr>) c = same_fields b c" "same_fields (b\<lparr>b_prev := x\<rparr>) c = same_fields b c"
  by (simp_all add: same_fields_def)

lemma same_fields_upd:
  "same_fields (bs[i := (bs ! i)\<lparr>b_next := x\<rparr>] ! j) c = same_fields (bs ! j) c"
  "same_fields (bs[i := (bs ! i)\<lparr>b_prev := x\<rparr>] ! j) c = same_fields (bs ! j) c"
  "same_fields (bs[i := (bs ! i)\<lparr>b_next := x, b_prev := y\<rparr>] ! j) c = same_fields (bs ! j) c"
  by (simp_all add: nth_upd)

lemma link_front_fields: "same_fields (link_front b bs ! j) (bs ! j)"
  unfolding link_front_def Let_def by (simp only: same_fields_upd same_fields_refl)

lemma unlink_fields: "same_fields (unlink b bs ! j) (bs ! j)"
  unfolding unlink_def Let_def by (simp only: same_fields_upd same_fields_refl)

lemma move_front_fields:
  "same_fields (link_front b (unlink b bs) ! j) (bs ! j)"
  using link_front_fields [of b "unlink b bs" j] unlink_fields [of b bs j] by (simp add: same_fields_def)

text \<open>brelse: the buffer is free again and first in the list; contents and disk are as before.\<close>

lemma brelse_ok:
  assumes inv: "bc_inv s" and xs: "bc_list (bufs s) xs" and i: "i < NBUF" "b_busy (buf_at s i)" "b_valid (buf_at s i)"
    and c: "\<not> b_dirty (buf_at s i) \<Longrightarrow> b_data (buf_at s i) = disk s (b_sector (buf_at s i))"
  obtains t where "brelse i s = Done () t" "bc_inv t" "bview t = bview s" "bc_list (bufs t) (i # remove1 i xs)"
    "\<And>j. j \<noteq> i \<Longrightarrow> same_fields (buf_at t j) (buf_at s j)"
    "same_fields (buf_at t i) ((buf_at s i)\<lparr>b_busy := False\<rparr>)"
    "disk t = disk s" "disksize t = disksize s" "dwrites t = dwrites s" "no_sleeper (ChanBuf i) t"
    "t = (wakeup (ChanBuf i) s)\<lparr>bufs := bufs t\<rparr>"
proof -
  let ?bs = "link_front i (unlink i (bufs s))"
  define t where "t = wakeup (ChanBuf i) (s\<lparr>bufs := ?bs[i := (?bs ! i)\<lparr>b_busy := False\<rparr>]\<rparr>)"
  have l: "length (bufs s) = Suc NBUF" by (rule bc_length [OF inv])
  have il: "i < length ?bs" using i(1) l by simp
  have r: "brelse i s = Done () t" using i(2) by (simp add: brelse_def Let_def t_def upd_buf_def)
  have bt: "bufs t = ?bs[i := (?bs ! i)\<lparr>b_busy := False\<rparr>]" "disk t = disk s" "disksize t = disksize s" "dwrites t = dwrites s"
    by (simp_all add: t_def wakeup_def wakeup1_def)
  have ix: "i \<in> set xs" using xs i(1) by (auto simp: bc_list_def)
  have "dll ?bs (i # remove1 i xs)" using dll_move_front xs ix by (auto simp: bc_list_def)
  then have "dll (bufs t) (i # remove1 i xs)" unfolding bt by (rule dll_upd) simp
  moreover have "set (i # remove1 i xs) = {..<NBUF}"
    using xs ix i(1) by (auto simp: bc_list_def dll_def)
  ultimately have bl: "bc_list (bufs t) (i # remove1 i xs)" by (simp add: bc_list_def)
  have fo: "same_fields (buf_at t j) (buf_at s j)" if "j \<noteq> i" for j
    using that move_front_fields [of i "bufs s" j] by (simp add: bt)
  have fi: "same_fields (buf_at t i) ((buf_at s i)\<lparr>b_busy := False\<rparr>)"
    using move_front_fields [of i "bufs s" i] il by (simp add: bt same_fields_def)
  have f: "b_valid (buf_at t j) = b_valid (buf_at s j)" "b_dirty (buf_at t j) = b_dirty (buf_at s j)"
      "b_dev (buf_at t j) = b_dev (buf_at s j)" "b_sector (buf_at t j) = b_sector (buf_at s j)"
      "b_data (buf_at t j) = b_data (buf_at s j)" for j
    using fo [of j] fi by (cases "j = i"; simp add: same_fields_def)+
  have it: "bc_inv t"
    unfolding bc_inv_def
  proof (intro conjI allI impI)
    show "\<exists>xs. bc_list (bufs t) xs" using bl by blast
    show "bc_uniq (bufs t)" using inv unfolding bc_inv_def bc_uniq_def f by blast
    fix j assume j: "j < NBUF"
    have "buf_ok (disk s) (buf_at s j)" using inv j by (simp add: bc_inv_def)
    then show "buf_ok (disk t) (buf_at t j)"
      using c i(3) fo [of j] unfolding buf_ok_def f bt(2) by (cases "j = i") (auto simp: same_fields_def)
  qed
  have "bview t x = bview s x" for x
  proof (rule bview_eqI [OF it])
    show "b_data (buf_at t j) = bview s x" if "j < NBUF" "b_valid (buf_at t j)" "b_sector (buf_at t j) = x" for j
      using that bview_cached [OF inv that(1)] bc_inv_bufD(1) [OF inv that(1)] unfolding f by simp
    assume n: "\<And>j. j < NBUF \<Longrightarrow> b_valid (buf_at t j) \<Longrightarrow> b_sector (buf_at t j) \<noteq> x"
    have "bview s x = disk s x" by (rule bview_uncached [OF inv]) (use n [unfolded f] in blast)
    then show "disk t x = bview s x" by (simp add: bt)
  qed
  then have bv: "bview t = bview s" by (rule ext)
  have "no_sleeper (ChanBuf i) t" by (simp add: t_def)
  moreover have "t = (wakeup (ChanBuf i) s)\<lparr>bufs := bufs t\<rparr>" by (simp add: t_def wakeup_def wakeup1_def)
  ultimately show ?thesis using that [OF r it bv bl fo fi bt(2-4)] by blast
qed

text \<open>Whether bread of a sector of the disk can go through without waiting.\<close>

definition bavail :: "uint \<Rightarrow> 'x bcache_state_scheme \<Rightarrow> bool" where
  "bavail sec s \<longleftrightarrow> unat sec < disksize s \<and>
     (\<forall>j < NBUF. b_dev (buf_at s j) = 1 \<and> b_sector (buf_at s j) = sec \<longrightarrow> \<not> b_busy (buf_at s j)) \<and>
     ((\<exists>j < NBUF. b_dev (buf_at s j) = 1 \<and> b_sector (buf_at s j) = sec) \<or>
      (\<exists>j < NBUF. \<not> b_busy (buf_at s j) \<and> \<not> b_dirty (buf_at s j)))"

lemma bread_ok:
  assumes "bc_inv s" "bavail sec s"
  obtains i t where "bread 1 sec s = Done i t" "bread_post sec s i t"
proof (cases "\<exists>j < NBUF. b_dev (buf_at s j) = 1 \<and> b_sector (buf_at s j) = sec")
  case True
  then obtain j where j: "j < NBUF" "b_dev (buf_at s j) = 1" "b_sector (buf_at s j) = sec" by blast
  have nb: "\<not> b_busy (buf_at s j)" using assms(2) j by (simp add: bavail_def)
  show ?thesis using bread_hit [OF assms(1) j nb bc_inv_bufD(4) [OF assms(1) j(1,2) nb]] that by blast
next
  case False
  then show ?thesis
    using bread_miss [OF assms(1), of sec] assms(2) that unfolding bavail_def by blast
qed

text \<open>A bread that returns has found its sector: nobody held it, and it was cached or is on the disk.\<close>

lemma bread_done:
  assumes inv: "bc_inv s" and r: "bread 1 sec s = Done i t"
  shows "bread_post sec s i t"
proof -
  obtain xs where xs: "bc_list (bufs s) xs" using inv by (auto simp: bc_inv_def)
  let ?P = "\<lambda>i. b_dev (buf_at s i) = 1 \<and> b_sector (buf_at s i) = sec"
  show ?thesis
  proof (cases "find ?P (mru (bufs s))")
    case None
    have nc: "b_dev (buf_at s j) = 1 \<Longrightarrow> b_sector (buf_at s j) \<noteq> sec" if "j < NBUF" for j
      using find_NoneD2 [OF None, of j] that bc_list_perm [OF xs] by auto
    obtain k where k: "find (\<lambda>i. \<not> b_busy (buf_at s i) \<and> \<not> b_dirty (buf_at s i)) (lru (bufs s)) = Some k"
      using r None by (cases "find (\<lambda>i. \<not> b_busy (buf_at s i) \<and> \<not> b_dirty (buf_at s i)) (lru (bufs s))") (auto simp: bread_def bget_def)
    have kb: "k < NBUF" "\<not> b_busy (buf_at s k)" "\<not> b_dirty (buf_at s k)"
      using find_SomeD2 [OF k] bc_list_perm [OF xs] by auto
    then have "k < length (bufs s)" using bc_length [OF inv] by simp
    then have "unat sec < disksize s"
      using r None k by (auto simp: bread_def bget_def iderw_def Let_def split: if_splits)
    then show ?thesis using bread_miss [OF inv nc] kb r by fastforce
  next
    case (Some j)
    have j: "j < NBUF" "b_dev (buf_at s j) = 1" "b_sector (buf_at s j) = sec"
      using find_SomeD2 [OF Some] bc_list_perm [OF xs] by auto
    have "\<not> b_busy (buf_at s j)" using r Some by (auto simp: bread_def bget_def sleep_on_def split: option.splits)
    from bread_hit [OF inv j this bc_inv_bufD(4) [OF inv j(1,2) this]] show ?thesis using r by auto
  qed
qed

section \<open>Coherence of the cache\<close>

text \<open>
  The ways a client uses the cache: read a sector, change the data of a buffer it holds, mark it dirty (as log_write
  does), write it out, and release it. The set \<open>m\<close> is a history variable: the buffers whose data was changed since
  they were last read, marked dirty or written. The one rule for clients is not to release such a buffer. The rest of the kernel
  may do anything that leaves the buffers and the disk alone.
\<close>

inductive bc_step :: "'x bcache_state_scheme \<Rightarrow> nat set \<Rightarrow> 'x bcache_state_scheme \<Rightarrow> nat set \<Rightarrow> bool" where
  bs_bread: "bread 1 sec s = Done i t \<Longrightarrow> bc_step s m t m"
| bs_modify: "i < NBUF \<Longrightarrow> b_busy (buf_at s i) \<Longrightarrow> bc_step s m (upd_buf i (\<lambda>b. b\<lparr>b_data := d\<rparr>) s) (insert i m)"
| bs_dirty: "i < NBUF \<Longrightarrow> b_busy (buf_at s i) \<Longrightarrow> bc_step s m (upd_buf i (\<lambda>b. b\<lparr>b_dirty := True\<rparr>) s) (m - {i})"
| bs_bwrite: "i < NBUF \<Longrightarrow> bwrite i s = Done () t \<Longrightarrow> bc_step s m t (m - {i})"
| bs_brelse: "i < NBUF \<Longrightarrow> i \<notin> m \<Longrightarrow> brelse i s = Done () t \<Longrightarrow> bc_step s m t m"
| bs_other: "bufs t = bufs s \<Longrightarrow> disk t = disk s \<Longrightarrow> bc_step s m t m"

definition bufs_zero :: "'x bcache_state_scheme \<Rightarrow> bool" where
  "bufs_zero s \<longleftrightarrow> length (bufs s) = Suc NBUF \<and>
     (\<forall>b \<in> set (bufs s). \<not> b_busy b \<and> \<not> b_valid b \<and> \<not> b_dirty b)"

inductive bc_reach :: "'x bcache_state_scheme \<Rightarrow> nat set \<Rightarrow> bool" where
  br_init: "bufs_zero s \<Longrightarrow> bc_reach (binit s) {}"
| br_step: "bc_reach s m \<Longrightarrow> bc_step s m t m' \<Longrightarrow> bc_reach t m'"

text \<open>What the history adds to the invariant of the cache: only held buffers are changed, a held buffer is valid, and one
  that is neither changed nor dirty has the sector's content on the disk.\<close>

definition held_ok :: "'x bcache_state_scheme \<Rightarrow> nat set \<Rightarrow> nat \<Rightarrow> bool" where
  "held_ok s m i \<longleftrightarrow> (i \<in> m \<longrightarrow> b_busy (buf_at s i)) \<and>
     (b_busy (buf_at s i) \<longrightarrow> b_valid (buf_at s i) \<and> (i \<notin> m \<and> \<not> b_dirty (buf_at s i) \<longrightarrow> b_data (buf_at s i) = disk s (b_sector (buf_at s i))))"

definition bc_hist :: "'x bcache_state_scheme \<Rightarrow> nat set \<Rightarrow> bool" where
  "bc_hist s m \<longleftrightarrow> bc_inv s \<and> (\<forall>i < NBUF. held_ok s m i)"

lemma bread_hist:
  assumes "bc_hist s m" "bread_post sec s i t"
  shows "bc_hist t m"
proof -
  have i: "i < NBUF" "\<not> b_busy (buf_at s i)" and fr: "only_buf i s t" and dk: "disk t = disk s"
    using assms(2) only_bufs_disk [of s t] by (simp_all add: bread_post_def)
  have "held_ok t m j" if "j < NBUF" for j
  proof (cases "j = i")
    case True
    have "i \<notin> m" using assms(1) i by (auto simp: bc_hist_def held_ok_def)
    then show ?thesis using True assms(2) dk by (auto simp: held_ok_def bread_post_def)
  next
    case False
    then show ?thesis using assms(1) that fr dk by (simp add: bc_hist_def held_ok_def only_buf_def)
  qed
  then show ?thesis using assms(2) by (simp add: bc_hist_def bread_post_def)
qed

lemma held_ok_other:
  assumes "bc_hist s m" "j < NBUF" "j \<noteq> i" "same_fields (buf_at t j) (buf_at s j)" "j \<in> m' \<longleftrightarrow> j \<in> m"
    and "b_valid (buf_at s j) \<Longrightarrow> disk t (b_sector (buf_at s j)) = disk s (b_sector (buf_at s j))"
  shows "held_ok t m' j"
  using assms by (auto simp: bc_hist_def held_ok_def same_fields_def)

lemma bc_step_hist:
  assumes "bc_step s m t m'" "bc_hist s m"
  shows "bc_hist t m'"
  using assms(1)
proof (cases rule: bc_step.cases)
  case (bs_bread sec i)
  then show ?thesis using bread_hist [OF assms(2) bread_done] assms(2) by (simp add: bc_hist_def)
next
  case (bs_modify i d)
  have inv: "bc_inv s" and h: "held_ok s m i" using assms(2) bs_modify(3) by (simp_all add: bc_hist_def)
  have il: "i < length (bufs s)" using bs_modify(3) bc_length [OF inv] by simp
  have "bc_inv t" unfolding bs_modify(1)
    by (rule bc_inv_flags [OF inv bs_modify(3), where b = "(buf_at s i)\<lparr>b_data := d\<rparr>" and d = "disk s"])
      (use bs_modify(3,4) bc_inv_bufD [OF inv bs_modify(3)] in \<open>simp_all add: buf_ok_def\<close>)
  moreover have "held_ok t m' j" if "j < NBUF" for j
  proof (cases "j = i")
    case True
    then show ?thesis using h bs_modify il by (simp add: held_ok_def)
  qed (rule held_ok_other [OF assms(2) that], use bs_modify in simp_all)
  ultimately show ?thesis by (simp add: bc_hist_def)
next
  case (bs_dirty i)
  have inv: "bc_inv s" and h: "held_ok s m i" using assms(2) bs_dirty(3) by (simp_all add: bc_hist_def)
  have il: "i < length (bufs s)" using bs_dirty(3) bc_length [OF inv] by simp
  have v: "b_valid (buf_at s i)" using h bs_dirty(4) by (simp add: held_ok_def)
  have "bc_inv t" unfolding bs_dirty(1)
    by (rule bc_inv_flags [OF inv bs_dirty(3), where b = "(buf_at s i)\<lparr>b_dirty := True\<rparr>" and d = "disk s"])
      (use bs_dirty(3,4) v bc_inv_bufD [OF inv bs_dirty(3)] in \<open>simp_all add: buf_ok_def\<close>)
  moreover have "held_ok t m' j" if "j < NBUF" for j
  proof (cases "j = i")
    case True
    then show ?thesis using h v bs_dirty il by (simp add: held_ok_def)
  qed (rule held_ok_other [OF assms(2) that], use bs_dirty in simp_all)
  ultimately show ?thesis by (simp add: bc_hist_def)
next
  case (bs_bwrite i)
  have inv: "bc_inv s" and h: "held_ok s m i" using assms(2) bs_bwrite(2) by (simp_all add: bc_hist_def)
  have b: "b_busy (buf_at s i)" using bs_bwrite(3) by (auto simp: bwrite_def split: if_splits)
  have v: "b_valid (buf_at s i)" using h b by (simp add: held_ok_def)
  have il: "i < length (bufs s)" using bs_bwrite(2) bc_length [OF inv] by simp
  then have "unat (b_sector (buf_at s i)) < disksize s"
    using bs_bwrite(3) b by (auto simp: bwrite_def iderw_def Let_def split: if_splits)
  note w = bwrite_ok [OF inv bs_bwrite(2) b v this]
  have t: "t = s\<lparr>bufs := (bufs s)[i := (buf_at s i)\<lparr>b_dirty := False, b_valid := True\<rparr>],
      disk := (disk s)(b_sector (buf_at s i) := b_data (buf_at s i)),
      dwrites := dwrites s @ [(b_sector (buf_at s i), b_data (buf_at s i))]\<rparr>"
    using w(1) bs_bwrite(3) by simp
  have ne: "b_sector (buf_at s j) \<noteq> b_sector (buf_at s i)" if "j < NBUF" "j \<noteq> i" "b_valid (buf_at s j)" for j
    using bc_same [OF inv that(1) bs_bwrite(2)] bc_inv_bufD(1) [OF inv] that v bs_bwrite(2) by metis
  have "held_ok t m' j" if "j < NBUF" for j
  proof (cases "j = i")
    case True
    then show ?thesis using b il bs_bwrite(1) by (simp add: held_ok_def t)
  qed (rule held_ok_other [OF assms(2) that], use bs_bwrite(1) ne [OF that] in \<open>simp_all add: t\<close>)
  then show ?thesis using w(2) t by (simp add: bc_hist_def)
next
  case (bs_brelse i)
  have inv: "bc_inv s" and h: "held_ok s m i" using assms(2) bs_brelse(2) by (simp_all add: bc_hist_def)
  obtain xs where xs: "bc_list (bufs s) xs" using inv by (auto simp: bc_inv_def)
  have b: "b_busy (buf_at s i)" using bs_brelse(4) by (auto simp: brelse_def split: if_splits)
  have v: "b_valid (buf_at s i)" and c: "\<not> b_dirty (buf_at s i) \<Longrightarrow> b_data (buf_at s i) = disk s (b_sector (buf_at s i))"
    using h b bs_brelse(3) by (simp_all add: held_ok_def)
  obtain t' where t: "brelse i s = Done () t'" "bc_inv t'" "\<And>j. j \<noteq> i \<Longrightarrow> same_fields (buf_at t' j) (buf_at s j)"
    "same_fields (buf_at t' i) ((buf_at s i)\<lparr>b_busy := False\<rparr>)" "disk t' = disk s"
    using brelse_ok [OF inv xs bs_brelse(2) b v c] by metis
  have e: "t' = t" using t(1) bs_brelse(4) by simp
  have "held_ok t m' j" if "j < NBUF" for j
  proof (cases "j = i")
    case True
    then show ?thesis using t(4) bs_brelse(1,3) by (simp add: held_ok_def same_fields_def e)
  qed (rule held_ok_other [OF assms(2) that], use bs_brelse(1) t(3,5) in \<open>simp_all add: e\<close>)
  then show ?thesis using t(2) by (simp add: bc_hist_def e)
next
  case bs_other
  then show ?thesis using assms(2) by (simp add: bc_hist_def bc_inv_def held_ok_def)
qed

lemma binit_one_fields:
  "same_fields (binit_one b bs ! j) (if j = b \<and> b < length bs then (bs ! j)\<lparr>b_dev := -1\<rparr> else bs ! j)"
  using link_front_fields [of b "bs[b := (bs ! b)\<lparr>b_dev := -1\<rparr>]" j]
  by (auto simp: binit_one_def nth_upd)

lemma length_binit_one [simp]: "length (binit_one b bs) = length bs"
  by (simp add: binit_one_def)

lemma binit_fold_fields:
  assumes "\<forall>b \<in> set bs. \<not> b_busy b \<and> \<not> b_valid b \<and> \<not> b_dirty b" "n \<le> length bs"
  shows "length (fold binit_one [0..<n] bs) = length bs \<and>
    (\<forall>j < length bs. \<not> b_busy (fold binit_one [0..<n] bs ! j) \<and> \<not> b_valid (fold binit_one [0..<n] bs ! j) \<and>
       \<not> b_dirty (fold binit_one [0..<n] bs ! j) \<and> (j < n \<longrightarrow> b_dev (fold binit_one [0..<n] bs ! j) = -1))"
  using assms(2)
proof (induction n)
  case 0
  then show ?case using assms(1) by simp
next
  case (Suc n)
  let ?f = "fold binit_one [0..<n] bs"
  have IH: "length ?f = length bs" "\<And>j. j < length bs \<Longrightarrow> \<not> b_busy (?f ! j) \<and> \<not> b_valid (?f ! j) \<and> \<not> b_dirty (?f ! j) \<and>
      (j < n \<longrightarrow> b_dev (?f ! j) = -1)" using Suc by simp_all
  have "\<not> b_busy (binit_one n ?f ! j) \<and> \<not> b_valid (binit_one n ?f ! j) \<and> \<not> b_dirty (binit_one n ?f ! j) \<and>
      (j < Suc n \<longrightarrow> b_dev (binit_one n ?f ! j) = -1)" if "j < length bs" for j
    using binit_one_fields [of n ?f j] IH(1) IH(2) [OF that] that
    by (cases "j = n") (auto simp: same_fields_def)
  then show ?case using IH(1) by simp
qed

lemma binit_fields:
  assumes "bufs_zero s" "j < NBUF"
  shows "\<not> b_busy (buf_at (binit s) j)" "\<not> b_valid (buf_at (binit s) j)" "\<not> b_dirty (buf_at (binit s) j)"
    "b_dev (buf_at (binit s) j) = -1"
proof -
  let ?b = "(bufs s ! NBUF)\<lparr>b_prev := NBUF, b_next := NBUF\<rparr>"
  have l: "length (bufs s) = Suc NBUF" and z: "\<And>b. b \<in> set (bufs s) \<Longrightarrow> \<not> b_busy b \<and> \<not> b_valid b \<and> \<not> b_dirty b"
    using assms(1) by (simp_all add: bufs_zero_def)
  have zb: "\<not> b_busy ?b \<and> \<not> b_valid ?b \<and> \<not> b_dirty ?b" using z [of "bufs s ! NBUF"] l by simp
  have "\<forall>b \<in> set ((bufs s)[NBUF := ?b]). \<not> b_busy b \<and> \<not> b_valid b \<and> \<not> b_dirty b"
  proof
    fix b assume "b \<in> set ((bufs s)[NBUF := ?b])"
    then have "b = ?b \<or> b \<in> set (bufs s)" using set_update_subset_insert [of "bufs s" NBUF ?b] by blast
    then show "\<not> b_busy b \<and> \<not> b_valid b \<and> \<not> b_dirty b" using zb z by blast
  qed
  from binit_fold_fields [OF this, of NBUF] l assms(2)
  show "\<not> b_busy (buf_at (binit s) j)" "\<not> b_valid (buf_at (binit s) j)" "\<not> b_dirty (buf_at (binit s) j)"
    "b_dev (buf_at (binit s) j) = -1"
    by (simp_all add: binit_def Let_def)
qed

lemma binit_inv:
  assumes "bufs_zero s"
  shows "bc_inv (binit s)"
proof -
  have l: "length (bufs s) = Suc NBUF" using assms by (simp add: bufs_zero_def)
  note f = binit_fields [OF assms]
  have "bc_list (bufs (binit s)) (rev [0..<NBUF])"
    using dll_binit [OF l] by (auto simp: bc_list_def)
  moreover have "bc_uniq (bufs (binit s))" using f by (simp add: bc_uniq_def)
  moreover have "buf_ok (disk (binit s)) (buf_at (binit s) j)" if "j < NBUF" for j
    using f [OF that] by (simp add: buf_ok_def)
  ultimately show ?thesis by (auto simp: bc_inv_def)
qed

lemma bc_reach_hist: "bc_reach s m \<Longrightarrow> bc_hist s m"
proof (induction rule: bc_reach.induct)
  case (br_init s)
  then show ?case using binit_inv [OF br_init] binit_fields(1) [OF br_init] by (simp add: bc_hist_def held_ok_def)
qed (rule bc_step_hist)

lemma bc_reach_inv: "bc_reach s m \<Longrightarrow> bc_inv s"
  using bc_reach_hist by (auto simp: bc_hist_def)

text \<open>
  C3. In any history of reads, changes, writes and releases in which no client releases a buffer that it changed and neither
  marked dirty nor wrote, no two buffers ever hold the same sector, a held buffer is valid, and a buffer that is clean and was not changed
  holds what is on the disk, whether it is held or free.
\<close>

theorem bcache_coherent:
  assumes "bc_reach s m" "i < NBUF" "j < NBUF"
  shows "(b_busy (buf_at s i) \<longrightarrow> b_valid (buf_at s i)) \<and> (i \<in> m \<longrightarrow> b_busy (buf_at s i)) \<and>
    (i \<noteq> j \<and> b_valid (buf_at s i) \<and> b_valid (buf_at s j) \<longrightarrow> b_sector (buf_at s i) \<noteq> b_sector (buf_at s j)) \<and>
    (b_valid (buf_at s i) \<and> \<not> b_dirty (buf_at s i) \<and> i \<notin> m \<longrightarrow> b_data (buf_at s i) = disk s (b_sector (buf_at s i)))"
proof -
  have inv: "bc_inv s" and h: "held_ok s m i" using bc_reach_hist [OF assms(1)] assms(2) by (simp_all add: bc_hist_def)
  note d = bc_inv_bufD [OF inv assms(2)]
  have "b_sector (buf_at s i) \<noteq> b_sector (buf_at s j)" if "i \<noteq> j" "b_valid (buf_at s i)" "b_valid (buf_at s j)"
    using bc_same [OF inv assms(2,3)] d(1) [OF that(2)] bc_inv_bufD(1) [OF inv assms(3) that(3)] that(1) by blast
  moreover have "b_data (buf_at s i) = disk s (b_sector (buf_at s i))"
    if "b_valid (buf_at s i)" "\<not> b_dirty (buf_at s i)" "i \<notin> m"
    using h d(3) [OF that(1,2)] that(2,3) by (auto simp: held_ok_def)
  ultimately show ?thesis using h by (simp add: held_ok_def)
qed

definition zero_buf :: buf where
  "zero_buf = \<lparr>b_busy = False, b_valid = False, b_dirty = False, b_dev = 0, b_sector = 0, b_prev = 0, b_next = 0,
     b_data = replicate 512 0\<rparr>"

definition bcache_sample :: bcache_state where
  "bcache_sample = pipe_state.extend pipe_sample
     \<lparr>bufs = replicate (Suc NBUF) zero_buf, disk = (\<lambda>sec. replicate 512 (of_nat (unat sec))), disksize = 1024, dwrites = []\<rparr>"

lemma bcache_sample_sel [simp]:
  "bufs bcache_sample = replicate (Suc NBUF) zero_buf" "disk bcache_sample = (\<lambda>sec. replicate 512 (of_nat (unat sec)))"
  "disksize bcache_sample = 1024" "cur bcache_sample = Some 1"
  by (simp_all add: bcache_sample_def pipe_state.defs pipe_sample_def ptable_state.defs forked_table_def mk_table_def)

lemma bcache_sample_zero: "bufs_zero bcache_sample"
  by (simp add: bufs_zero_def zero_buf_def)

lemma binit_sel [simp]: "disk (binit s) = disk s" "disksize (binit s) = disksize s"
  by (simp_all add: binit_def Let_def)

lemma bcache_sample_avail:
  assumes "unat sec < 1024"
  shows "bavail sec (binit bcache_sample)"
proof -
  note f = binit_fields [OF bcache_sample_zero]
  have n: "(0 :: nat) < NBUF" by (simp add: NBUF_def)
  have "b_dev (buf_at (binit bcache_sample) j) \<noteq> 1" if "j < NBUF" for j using f(4) [OF that] by simp
  then show ?thesis using assms f [OF n] n unfolding bavail_def by auto
qed

theorem bcache_coherent_witness:
  "\<exists>i t. bread 1 7 (binit bcache_sample) = Done i t \<and> b_data (buf_at t i) = replicate 512 7 \<and>
     (\<forall>j. j < NBUF \<and> i \<noteq> j \<and> b_valid (buf_at t j) \<longrightarrow> 7 \<noteq> b_sector (buf_at t j))"
proof -
  have a: "bavail 7 (binit bcache_sample)" by (rule bcache_sample_avail) simp
  obtain i t where r: "bread 1 7 (binit bcache_sample) = Done i t" and p: "bread_post 7 (binit bcache_sample) i t"
    by (rule bread_ok [OF binit_inv [OF bcache_sample_zero] a])
  have re: "bc_reach t {}" by (rule br_step [OF br_init [OF bcache_sample_zero] bs_bread [OF r]])
  have i: "i < NBUF" "b_valid (buf_at t i)" "b_sector (buf_at t i) = 7" using p by (simp_all add: bread_post_def)
  have "\<not> b_dirty (buf_at t i)" using p binit_fields(3) [OF bcache_sample_zero i(1)] by (simp add: bread_post_def)
  moreover have "disk t = disk bcache_sample"
    using p only_bufs_disk [of "binit bcache_sample" t] by (simp add: bread_post_def)
  ultimately show ?thesis using bcache_coherent [OF re i(1)] r i by fastforce
qed

text \<open>
  C9. bread of a sector that nobody holds returns a busy buffer with the sector's current content (the
  dirty cached copy if there is one, else what is on the disk), changes neither the content of any
  sector nor the disk, and touches no other buffer.
\<close>

theorem bread_returns_current:
  assumes "bc_reach s m" "bavail sec s"
  shows "\<exists>i t. bread 1 sec s = Done i t \<and> bread_post sec s i t"
  using bread_ok [OF bc_reach_inv [OF assms(1)] assms(2)] by blast

theorem bread_returns_current_witness:
  "\<exists>i t. bread 1 7 (binit bcache_sample) = Done i t \<and> b_data (buf_at t i) = replicate 512 7"
proof -
  have a: "bavail 7 (binit bcache_sample)" by (rule bcache_sample_avail) simp
  have "bview (binit bcache_sample) 7 = disk (binit bcache_sample) 7"
  proof (rule bview_uncached [OF binit_inv [OF bcache_sample_zero]])
    show "\<not> b_valid (buf_at (binit bcache_sample) j)" if "j < NBUF" for j
      using binit_fields [OF bcache_sample_zero that] by simp
  qed
  then show ?thesis
    using bread_returns_current [OF br_init [OF bcache_sample_zero] a] by (auto simp: bread_post_def)
qed

text \<open>
  C10. The doubly linked list is a list in order of last release: brelse moves its buffer to the front,
  and a sector that is not cached takes the free and clean buffer released longest ago; with none left bget panics.
\<close>

theorem bcache_recycles_lru:
  assumes "bc_inv s" "bc_list (bufs s) xs"
    and "\<And>j. j < NBUF \<Longrightarrow> \<not> (b_dev (buf_at s j) = dev \<and> b_sector (buf_at s j) = sec)"
  shows "let free = filter (\<lambda>i. \<not> b_busy (buf_at s i) \<and> \<not> b_dirty (buf_at s i)) xs in
    (if free = [] then bget dev sec s = Panic ''bget: no buffers''
     else \<exists>t. bget dev sec s = Done (last free) t) \<and>
    (\<forall>i < NBUF. b_busy (buf_at s i) \<and> b_valid (buf_at s i) \<and>
       (b_dirty (buf_at s i) \<or> b_data (buf_at s i) = disk s (b_sector (buf_at s i))) \<longrightarrow>
       (\<exists>t. brelse i s = Done () t \<and> bc_list (bufs t) (i # remove1 i xs)))"
proof -
  let ?P = "\<lambda>i. \<not> b_busy (buf_at s i) \<and> \<not> b_dirty (buf_at s i)"
  have fl: "find P (rev ys) = (if filter P ys = [] then None else Some (last (filter P ys)))" for P and ys :: "nat list"
    by (induction ys rule: rev_induct) simp_all
  have f1: "find (\<lambda>i. b_dev (buf_at s i) = dev \<and> b_sector (buf_at s i) = sec) (mru (bufs s)) = None"
    unfolding find_None_iff using assms(3) bc_list_perm [OF assms(2)] by auto
  have f2: "find ?P (lru (bufs s)) = (if filter ?P xs = [] then None else Some (last (filter ?P xs)))"
    unfolding bc_list_perm(2) [OF assms(2)] by (rule fl)
  have "if filter ?P xs = [] then bget dev sec s = Panic ''bget: no buffers'' else \<exists>t. bget dev sec s = Done (last (filter ?P xs)) t"
    unfolding bget_def f1 option.case f2 by simp
  moreover have "\<exists>t. brelse i s = Done () t \<and> bc_list (bufs t) (i # remove1 i xs)"
    if "i < NBUF" "b_busy (buf_at s i)" "b_valid (buf_at s i)"
      "b_dirty (buf_at s i) \<or> b_data (buf_at s i) = disk s (b_sector (buf_at s i))" for i
    by (rule brelse_ok [OF assms(1,2) that(1-3)]) (use that(4) in auto)
  ultimately show ?thesis unfolding Let_def by blast
qed

theorem bcache_recycles_lru_witness:
  "\<exists>t. bget 1 7 (binit bcache_sample) = Done 0 t"
proof -
  have l: "bc_list (bufs (binit bcache_sample)) (rev [0..<NBUF])"
    using dll_binit [of bcache_sample] by (auto simp: bc_list_def simp del: replicate.simps)
  note f = binit_fields [OF bcache_sample_zero]
  have "filter (\<lambda>i. \<not> b_busy (buf_at (binit bcache_sample) i) \<and> \<not> b_dirty (buf_at (binit bcache_sample) i)) (rev [0..<NBUF]) = rev [0..<NBUF]"
    using f by (intro filter_True) auto
  moreover have "rev [0..<NBUF] \<noteq> []" "last (rev [0..<NBUF]) = 0" by (simp_all add: NBUF_def last_rev)
  ultimately show ?thesis
    using bcache_recycles_lru [OF binit_inv [OF bcache_sample_zero] l, of 1 7] f(4)
    unfolding Let_def by simp
qed

end
