(* ===== verification/Blk.thy ===== *)
theory Blk
  imports Prelude
begin

text \<open>
  Structures inside a disk block: a block is a list of bytes, and the C code reads and writes
  the fields of a structure laid over it. Here are the accesses of 16 and 32 bits (little endian),
  the copying of a run of bytes into a block, and the loop over a list of indices
  whose body may panic or sleep.
\<close>

type_synonym blk = "uchar list"

definition BSIZE :: nat where "BSIZE = 512"

definition get32l :: "blk \<Rightarrow> nat \<Rightarrow> uint" where
  "get32l d i = or (or (ucast (d ! i)) (push_bit 8 (ucast (d ! (i + 1)))))
                   (or (push_bit 16 (ucast (d ! (i + 2)))) (push_bit 24 (ucast (d ! (i + 3)))))"

definition put32l :: "blk \<Rightarrow> nat \<Rightarrow> uint \<Rightarrow> blk" where
  "put32l d i w = d[i := ucast w, i + 1 := ucast (drop_bit 8 w),
                    i + 2 := ucast (drop_bit 16 w), i + 3 := ucast (drop_bit 24 w)]"

definition get16l :: "blk \<Rightarrow> nat \<Rightarrow> ushort" where
  "get16l d i = or (ucast (d ! i)) (push_bit 8 (ucast (d ! (i + 1))))"

definition put16l :: "blk \<Rightarrow> nat \<Rightarrow> ushort \<Rightarrow> blk" where
  "put16l d i w = d[i := ucast w, i + 1 := ucast (drop_bit 8 w)]"

definition getbl :: "blk \<Rightarrow> nat \<Rightarrow> nat \<Rightarrow> blk" where
  "getbl d i n = take n (drop i d)"

definition putbl :: "blk \<Rightarrow> nat \<Rightarrow> blk \<Rightarrow> blk" where
  "putbl d i bs = take i d @ bs @ drop (i + length bs) d"

primrec kfor :: "('a \<Rightarrow> 's \<Rightarrow> (unit, 's) kres) \<Rightarrow> 'a list \<Rightarrow> 's \<Rightarrow> (unit, 's) kres" where
  "kfor f [] s = Done () s"
| "kfor f (x # xs) s = kbind (f x s) (\<lambda>_ t. kfor f xs t)"

lemma length_putl [simp]:
  "length (put32l d i w) = length d" "length (put16l d i v) = length d"
  by (simp_all add: put32l_def put16l_def)

lemma length_putbl [simp]: "i + length bs \<le> length d \<Longrightarrow> length (putbl d i bs) = length d"
  by (simp add: putbl_def)

lemma length_getbl [simp]: "i + n \<le> length d \<Longrightarrow> length (getbl d i n) = n"
  by (simp add: getbl_def)

lemma get32l_put32l [simp]: "i + 4 \<le> length d \<Longrightarrow> get32l (put32l d i w) i = w"
  by (simp add: get32l_def put32l_def get32_put32_aux)

lemma put32l_nth: "j < i \<or> i + 4 \<le> j \<Longrightarrow> put32l d i w ! j = d ! j"
  by (auto simp: put32l_def)

lemma put16l_nth: "j < i \<or> i + 2 \<le> j \<Longrightarrow> put16l d i w ! j = d ! j"
  by (auto simp: put16l_def)

lemma get16l_put16l [simp]: "i + 2 \<le> length d \<Longrightarrow> get16l (put16l d i w) i = w"
proof -
  assume "i + 2 \<le> length d"
  moreover have "or (ucast (ucast w :: uchar)) (push_bit 8 (ucast (ucast (drop_bit 8 w) :: uchar))) = w" (is "?l = w")
  proof (rule bit_word_eqI)
    fix n assume n: "n < LENGTH(16)"
    consider "n < 8" | "8 \<le> n" by linarith
    then show "bit ?l n = bit w n"
      using n by cases (simp_all add: bit_or_iff bit_push_bit_iff bit_ucast_iff bit_drop_bit_eq less_diff_conv2)
  qed
  ultimately show ?thesis by (simp add: get16l_def put16l_def)
qed

lemma get32l_cong: "(\<And>k. k < 4 \<Longrightarrow> d ! (i + k) = e ! (i + k)) \<Longrightarrow> get32l d i = get32l e i"
proof -
  assume a: "\<And>k. k < 4 \<Longrightarrow> d ! (i + k) = e ! (i + k)"
  from a [of 0] a [of 1] a [of 2] a [of 3] show ?thesis by (simp add: get32l_def)
qed

lemma get16l_cong: "(\<And>k. k < 2 \<Longrightarrow> d ! (i + k) = e ! (i + k)) \<Longrightarrow> get16l d i = get16l e i"
proof -
  assume a: "\<And>k. k < 2 \<Longrightarrow> d ! (i + k) = e ! (i + k)"
  from a [of 0] a [of 1] show ?thesis by (simp add: get16l_def)
qed

lemma get_put_other:
  "j + 4 \<le> i \<or> i + 4 \<le> j \<Longrightarrow> get32l (put32l d i w) j = get32l d j"
  "j + 4 \<le> i \<or> i + 2 \<le> j \<Longrightarrow> get32l (put16l d i v) j = get32l d j"
  "j + 2 \<le> i \<or> i + 4 \<le> j \<Longrightarrow> get16l (put32l d i w) j = get16l d j"
  "j + 2 \<le> i \<or> i + 2 \<le> j \<Longrightarrow> get16l (put16l d i v) j = get16l d j"
  by (auto intro!: get32l_cong get16l_cong put32l_nth put16l_nth)

lemma putbl_nth:
  assumes "i + length bs \<le> length d" "j < length d"
  shows "putbl d i bs ! j = (if i \<le> j \<and> j < i + length bs then bs ! (j - i) else d ! j)"
  using assms by (auto simp: putbl_def nth_append min_def)

lemma getbl_putbl [simp]: "i + length bs \<le> length d \<Longrightarrow> getbl (putbl d i bs) i (length bs) = bs"
  by (simp add: getbl_def putbl_def)

lemma getbl_nth: "k < n \<Longrightarrow> i + n \<le> length d \<Longrightarrow> getbl d i n ! k = d ! (i + k)"
  by (simp add: getbl_def)

lemma kfor_append: "kfor f (xs @ ys) s = kbind (kfor f xs s) (\<lambda>_ t. kfor f ys t)"
proof (induction xs arbitrary: s)
  case (Cons x xs)
  then show ?case by (cases "f x s") simp_all
qed simp

end
