(* ===== verification/Log.thy ===== *)
theory Log
  imports Bio Blk
begin

text \<open>
  The write-ahead log (log.c) over the buffer cache. A file system call brackets its updates by
  begin_op and end_op and hands every modified buffer to log_write, which pins it in the cache;
  the last end_op commits: the pinned blocks are copied to the log area, the header block is written (the commit
  point), the blocks are copied to their home sectors, and the header is cleared. At boot initlog
  reads the header and repeats the installation of a committed transaction.
  The int fields of the header are kept as 32-bit words where the code uses them as sector numbers.

  An operation here that calls the cache more than once stops with \<open>Sleep\<close> at the first buffer it has to
  wait for; its \<open>Done\<close> outcomes are the executions that met no contention.
\<close>

section \<open>State\<close>

definition LOGSIZE :: int where "LOGSIZE = 30"

definition MAXOPBLOCKS :: int where "MAXOPBLOCKS = 10"

definition ROOTDEV :: uint where "ROOTDEV = 1"

record superblock =
  sb_size :: uint
  sb_nblocks :: uint
  sb_ninodes :: uint
  sb_nlog :: uint

record log_state = bcache_state +
  lg_start :: uint
  lg_size :: int
  lg_outstanding :: int
  lg_committing :: bool
  lg_dev :: uint
  lh_n :: int
  lh_sector :: "nat \<Rightarrow> uint"

definition set_data :: "nat \<Rightarrow> blk \<Rightarrow> 'x bcache_state_scheme \<Rightarrow> 'x bcache_state_scheme" where
  "set_data i d s = upd_buf i (\<lambda>b. b\<lparr>b_data := d\<rparr>) s"

section \<open>Operations\<close>

definition readsb :: "uint \<Rightarrow> 'x bcache_state_scheme \<Rightarrow> (superblock, 'x bcache_state_scheme) kres" where
  "readsb dev s =
     kbind (bread dev 1 s) (\<lambda>bp s1.
       let d = b_data (buf_at s1 bp);
           sb = \<lparr>sb_size = get32l d 0, sb_nblocks = get32l d 4, sb_ninodes = get32l d 8, sb_nlog = get32l d 12\<rparr>
       in kbind (brelse bp s1) (\<lambda>_ s2. Done sb s2))"

definition install_one :: "nat \<Rightarrow> 'x log_state_scheme \<Rightarrow> (unit, 'x log_state_scheme) kres" where
  "install_one tail s =
     kbind (bread (lg_dev s) (lg_start s + of_nat tail + 1) s) (\<lambda>lbuf s1.
     kbind (bread (lg_dev s1) (lh_sector s1 tail) s1) (\<lambda>dbuf s2.
     kbind (bwrite dbuf (set_data dbuf (b_data (buf_at s2 lbuf)) s2)) (\<lambda>_ s3.
     kbind (brelse lbuf s3) (\<lambda>_ s4. brelse dbuf s4))))"

definition install_trans :: "'x log_state_scheme \<Rightarrow> (unit, 'x log_state_scheme) kres" where
  "install_trans s = kfor install_one [0..<nat (lh_n s)] s"

definition read_head :: "'x log_state_scheme \<Rightarrow> (unit, 'x log_state_scheme) kres" where
  "read_head s =
     kbind (bread (lg_dev s) (lg_start s) s) (\<lambda>bf s1.
       let d = b_data (buf_at s1 bf); n = sint (get32l d 0)
       in brelse bf (s1\<lparr>lh_n := n,
            lh_sector := (\<lambda>i. if i < nat n then get32l d (4 + 4 * i) else lh_sector s1 i)\<rparr>))"

definition head_blk :: "int \<Rightarrow> (nat \<Rightarrow> uint) \<Rightarrow> blk \<Rightarrow> blk" where
  "head_blk n sector d = fold (\<lambda>i d. put32l d (4 + 4 * i) (sector i)) [0..<nat n] (put32l d 0 (of_int n))"

definition write_head :: "'x log_state_scheme \<Rightarrow> (unit, 'x log_state_scheme) kres" where
  "write_head s =
     kbind (bread (lg_dev s) (lg_start s) s) (\<lambda>bf s1.
     kbind (bwrite bf (set_data bf (head_blk (lh_n s1) (lh_sector s1) (b_data (buf_at s1 bf))) s1)) (\<lambda>_ s2.
     brelse bf s2))"

definition recover_from_log :: "'x log_state_scheme \<Rightarrow> (unit, 'x log_state_scheme) kres" where
  "recover_from_log s =
     kbind (read_head s) (\<lambda>_ s1. kbind (install_trans s1) (\<lambda>_ s2. write_head (s2\<lparr>lh_n := 0\<rparr>)))"

definition initlog :: "'x log_state_scheme \<Rightarrow> (unit, 'x log_state_scheme) kres" where
  "initlog s =
     (if 4 + 4 * LOGSIZE \<ge> int BSIZE then Panic ''initlog: too big logheader''
      else kbind (readsb ROOTDEV s) (\<lambda>sb s1.
        recover_from_log (s1\<lparr>lg_start := sb_size sb - sb_nlog sb, lg_size := sint (sb_nlog sb), lg_dev := ROOTDEV\<rparr>)))"

definition begin_op :: "'x log_state_scheme \<Rightarrow> (unit, 'x log_state_scheme) kres" where
  "begin_op s =
     (if lg_committing s then sleep_on ChanLog s
      else if lh_n s + (lg_outstanding s + 1) * MAXOPBLOCKS > LOGSIZE then sleep_on ChanLog s
      else Done () (s\<lparr>lg_outstanding := lg_outstanding s + 1\<rparr>))"

definition write_log_one :: "nat \<Rightarrow> 'x log_state_scheme \<Rightarrow> (unit, 'x log_state_scheme) kres" where
  "write_log_one tail s =
     kbind (bread (lg_dev s) (lg_start s + of_nat tail + 1) s) (\<lambda>to s1.
     kbind (bread (lg_dev s1) (lh_sector s1 tail) s1) (\<lambda>from s2.
     kbind (bwrite to (set_data to (b_data (buf_at s2 from)) s2)) (\<lambda>_ s3.
     kbind (brelse from s3) (\<lambda>_ s4. brelse to s4))))"

definition write_log :: "'x log_state_scheme \<Rightarrow> (unit, 'x log_state_scheme) kres" where
  "write_log s = kfor write_log_one [0..<nat (lh_n s)] s"

definition commit :: "'x log_state_scheme \<Rightarrow> (unit, 'x log_state_scheme) kres" where
  "commit s =
     (if lh_n s > 0 then
        kbind (write_log s) (\<lambda>_ s1.
        kbind (write_head s1) (\<lambda>_ s2.
        kbind (install_trans s2) (\<lambda>_ s3. write_head (s3\<lparr>lh_n := 0\<rparr>))))
      else Done () s)"

definition end_op :: "'x log_state_scheme \<Rightarrow> (unit, 'x log_state_scheme) kres" where
  "end_op s =
     (let s1 = s\<lparr>lg_outstanding := lg_outstanding s - 1\<rparr>
      in if lg_committing s1 then Panic ''log.committing''
         else if lg_outstanding s1 = 0 then
           kbind (commit (s1\<lparr>lg_committing := True\<rparr>)) (\<lambda>_ s2.
             Done () (wakeup ChanLog (s2\<lparr>lg_committing := False\<rparr>)))
         else Done () (wakeup ChanLog s1))"

definition log_write :: "nat \<Rightarrow> 'x log_state_scheme \<Rightarrow> (unit, 'x log_state_scheme) kres" where
  "log_write b s =
     (if lh_n s \<ge> LOGSIZE \<or> lh_n s \<ge> lg_size s - 1 then Panic ''too big a transaction''
      else if lg_outstanding s < 1 then Panic ''log_write outside of trans''
      else let sec = b_sector (buf_at s b);
               i = (case find_idx (\<lambda>k. lh_sector s k = sec) [0..<nat (lh_n s)] of Some k \<Rightarrow> k | None \<Rightarrow> nat (lh_n s));
               s1 = s\<lparr>lh_n := (if int i = lh_n s then lh_n s + 1 else lh_n s),
                      lh_sector := (lh_sector s)(i := sec)\<rparr>
           in Done () (upd_buf b (\<lambda>b. b\<lparr>b_dirty := True\<rparr>) s1))"

section \<open>The cache between calls\<close>

text \<open>The buffers held, and the sectors whose buffers are pinned.\<close>

definition busy_bufs :: "'x bcache_state_scheme \<Rightarrow> nat set" where
  "busy_bufs s = {j. j < NBUF \<and> b_busy (buf_at s j)}"

definition dirty_secs :: "'x bcache_state_scheme \<Rightarrow> uint set" where
  "dirty_secs s = {b_sector (buf_at s j) |j. j < NBUF \<and> b_dirty (buf_at s j)}"

lemma finite_busy_dirty [simp]: "finite (busy_bufs s)" "finite (dirty_secs s)"
  by (simp_all add: busy_bufs_def dirty_secs_def)

lemma dirty_card:
  assumes inv: "bc_inv s"
  shows "card {j. j < NBUF \<and> b_dirty (buf_at s j)} = card (dirty_secs s)"
proof -
  have d: "b_dev (buf_at s j) = 1" if "j < NBUF" "b_dirty (buf_at s j)" for j
    using bc_inv_bufD(1,2) [OF inv that(1)] that(2) by blast
  have "inj_on (\<lambda>j. b_sector (buf_at s j)) {j. j < NBUF \<and> b_dirty (buf_at s j)}"
    by (rule inj_onI) (use bc_same [OF inv] d in blast)
  moreover have "dirty_secs s = (\<lambda>j. b_sector (buf_at s j)) ` {j. j < NBUF \<and> b_dirty (buf_at s j)}"
    by (auto simp: dirty_secs_def)
  ultimately show ?thesis by (simp add: card_image)
qed

lemma clean_buf_exists:
  assumes inv: "bc_inv s" and c: "card (busy_bufs s) + card (dirty_secs s) < NBUF"
  shows "\<exists>j < NBUF. \<not> b_busy (buf_at s j) \<and> \<not> b_dirty (buf_at s j)"
proof (rule ccontr)
  assume "\<not> ?thesis"
  then have "{..<NBUF} \<subseteq> busy_bufs s \<union> {j. j < NBUF \<and> b_dirty (buf_at s j)}" by (auto simp: busy_bufs_def)
  then have "card {..<NBUF} \<le> card (busy_bufs s \<union> {j. j < NBUF \<and> b_dirty (buf_at s j)})" by (intro card_mono) simp_all
  also have "\<dots> \<le> card (busy_bufs s) + card (dirty_secs s)"
    using card_Un_le [of "busy_bufs s" "{j. j < NBUF \<and> b_dirty (buf_at s j)}"] dirty_card [OF inv] by linarith
  finally show False using c by simp
qed

section \<open>Contracts of the cache operations\<close>

text \<open>A buffer a caller holds, and the frame of the cache operations.\<close>

definition held :: "'x bcache_state_scheme \<Rightarrow> nat \<Rightarrow> uint \<Rightarrow> bool" where
  "held s i sec \<longleftrightarrow> i < NBUF \<and> b_busy (buf_at s i) \<and> b_valid (buf_at s i) \<and> b_dev (buf_at s i) = 1 \<and>
     b_sector (buf_at s i) = sec"

definition bc_frame :: "'x bcache_state_scheme \<Rightarrow> 'x bcache_state_scheme \<Rightarrow> bool" where
  "bc_frame s t \<longleftrightarrow> bcache_state.more t = bcache_state.more s \<and> disksize t = disksize s"

lemma bc_frame_refl [simp]: "bc_frame s s"
  by (simp add: bc_frame_def)

lemma bc_frame_trans [trans]: "bc_frame s t \<Longrightarrow> bc_frame t u \<Longrightarrow> bc_frame s u"
  by (simp add: bc_frame_def)

lemma held_busy: "held s i sec \<Longrightarrow> i \<in> busy_bufs s"
  by (simp add: held_def busy_bufs_def)

lemma held_bview: "bc_inv s \<Longrightarrow> held s i sec \<Longrightarrow> b_data (buf_at s i) = bview s sec"
  by (auto simp: held_def bview_cached)

lemma held_dirty: "bc_inv s \<Longrightarrow> held s i sec \<Longrightarrow> b_dirty (buf_at s i) \<longleftrightarrow> sec \<in> dirty_secs s"
  unfolding held_def dirty_secs_def using bc_same bc_inv_bufD(1,2) by blast

lemma bavailI:
  assumes "bc_inv s" "unat sec < disksize s" "\<And>j. j \<in> busy_bufs s \<Longrightarrow> b_sector (buf_at s j) \<noteq> sec"
    "sec \<in> dirty_secs s \<or> card (busy_bufs s) + card (dirty_secs s) < NBUF"
  shows "bavail sec s"
proof -
  have "(\<exists>j < NBUF. b_dev (buf_at s j) = 1 \<and> b_sector (buf_at s j) = sec) \<or>
      (\<exists>j < NBUF. \<not> b_busy (buf_at s j) \<and> \<not> b_dirty (buf_at s j))"
    using assms(4)
  proof
    assume "sec \<in> dirty_secs s"
    then show ?thesis using bc_inv_bufD(1,2) [OF assms(1)] unfolding dirty_secs_def by blast
  qed (use clean_buf_exists [OF assms(1)] in blast)
  then show ?thesis using assms(2,3) unfolding bavail_def busy_bufs_def by blast
qed

lemma only_bufsD:
  assumes "only_bufs s t"
  shows "disk t = disk s" "dwrites t = dwrites s" "disksize t = disksize s" "bcache_state.more t = bcache_state.more s"
    "procs t = procs s" "cur t = cur s" "pipes t = pipes s"
proof -
  have t: "t = s\<lparr>bufs := bufs t\<rparr>" using assms by (simp add: only_bufs_def)
  show "disk t = disk s" by (subst t) simp
  show "dwrites t = dwrites s" by (subst t) simp
  show "disksize t = disksize s" by (subst t) simp
  show "bcache_state.more t = bcache_state.more s" by (subst t) simp
  show "procs t = procs s" by (subst t) simp
  show "cur t = cur s" by (subst t) simp
  show "pipes t = pipes s" by (subst t) simp
qed

lemma bread_view:
  assumes inv: "bc_inv s" and av: "bavail sec s"
  obtains i t where "bread 1 sec s = Done i t" "bc_inv t" "held t i sec" "i \<notin> busy_bufs s"
    "busy_bufs t = insert i (busy_bufs s)" "dirty_secs t = dirty_secs s" "bview t = bview s"
    "disk t = disk s" "dwrites t = dwrites s" "bc_frame s t" "only_buf i s t" "only_bufs s t"
proof -
  obtain i t where r: "bread 1 sec s = Done i t" and p: "bread_post sec s i t" by (rule bread_ok [OF inv av])
  have i: "i < NBUF" "b_busy (buf_at t i)" "b_valid (buf_at t i)" "b_dev (buf_at t i) = 1" "b_sector (buf_at t i) = sec"
    and ns: "\<not> b_busy (buf_at s i)" and it: "bc_inv t" and bv: "bview t = bview s" and ob: "only_bufs s t" and oi: "only_buf i s t"
    and d: "b_dirty (buf_at t i) = (b_dirty (buf_at s i) \<and> b_dev (buf_at s i) = 1 \<and> b_sector (buf_at s i) = sec)"
    using p unfolding bread_post_def by blast+
  have oj: "buf_at t j = buf_at s j" if "j \<noteq> i" for j using oi that by (simp add: only_buf_def)
  have "b_dirty (buf_at s i) \<Longrightarrow> b_sector (buf_at s i) = sec"
  proof (rule ccontr)
    assume a: "b_dirty (buf_at s i)" "b_sector (buf_at s i) \<noteq> sec"
    have "\<exists>j t. bread 1 sec s = Done j t \<and> (b_sector (buf_at s j) = sec \<or> \<not> b_dirty (buf_at s j))"
    proof (cases "\<exists>j < NBUF. b_dev (buf_at s j) = 1 \<and> b_sector (buf_at s j) = sec")
      case True
      then obtain j where j: "j < NBUF" "b_dev (buf_at s j) = 1" "b_sector (buf_at s j) = sec" by blast
      have nb: "\<not> b_busy (buf_at s j)" using av j by (simp add: bavail_def)
      show ?thesis using bread_hit [OF inv j nb bc_inv_bufD(4) [OF inv j(1,2) nb]] j(3) by blast
    next
      case False
      then show ?thesis using bread_miss [OF inv, of sec] av unfolding bavail_def by blast
    qed
    then show False using a r by auto
  qed
  then have di: "b_dirty (buf_at t i) = b_dirty (buf_at s i)" "b_dirty (buf_at s i) \<Longrightarrow> b_sector (buf_at s i) = sec"
    using d bc_inv_bufD(1,2) [OF inv i(1)] by blast+
  have "b_dirty (buf_at t j) = b_dirty (buf_at s j) \<and> (b_dirty (buf_at s j) \<longrightarrow> b_sector (buf_at t j) = b_sector (buf_at s j))" for j
    using di oj [of j] i(5) by (cases "j = i") auto
  then have "dirty_secs t = dirty_secs s" unfolding dirty_secs_def by metis
  moreover have "b_busy (buf_at t j) = (j = i \<or> b_busy (buf_at s j))" for j using i oj [of j] by (cases "j = i") simp_all
  then have "busy_bufs t = insert i (busy_bufs s)" using i(1) by (auto simp: busy_bufs_def)
  moreover have "disk t = disk s" "dwrites t = dwrites s" "bc_frame s t"
    using only_bufsD [OF ob] by (simp_all add: bc_frame_def)
  ultimately show ?thesis
    using that [OF r it, of] i ns bv oi ob by (simp add: held_def busy_bufs_def)
qed

text \<open>Changing the data of a held buffer and writing it out.\<close>

lemma set_data_view:
  assumes inv: "bc_inv s" and h: "held s i sec"
  shows "bc_inv (set_data i d s)" "held (set_data i d s) i sec" "bview (set_data i d s) = (bview s)(sec := d)"
    "busy_bufs (set_data i d s) = busy_bufs s" "dirty_secs (set_data i d s) = dirty_secs s"
    "b_data (buf_at (set_data i d s) i) = d" "\<And>j. j \<noteq> i \<Longrightarrow> buf_at (set_data i d s) j = buf_at s j"
    "disk (set_data i d s) = disk s" "dwrites (set_data i d s) = dwrites s" "bc_frame s (set_data i d s)"
    "b_dirty (buf_at (set_data i d s) i) = b_dirty (buf_at s i)"
proof -
  let ?t = "set_data i d s"
  have i: "i < NBUF" "b_busy (buf_at s i)" "b_valid (buf_at s i)" "b_dev (buf_at s i) = 1" "b_sector (buf_at s i) = sec"
    using h by (simp_all add: held_def)
  have il: "i < length (bufs s)" using i(1) bc_length [OF inv] by simp
  show it: "bc_inv ?t" unfolding set_data_def
    by (rule bc_inv_flags [OF inv i(1), where b = "(buf_at s i)\<lparr>b_data := d\<rparr>" and d = "disk s"])
      (use i bc_inv_bufD [OF inv i(1)] in \<open>simp_all add: buf_ok_def\<close>)
  have bi: "buf_at ?t i = (buf_at s i)\<lparr>b_data := d\<rparr>" and bj: "\<And>j. j \<noteq> i \<Longrightarrow> buf_at ?t j = buf_at s j"
    using il by (simp_all add: set_data_def)
  show "buf_at ?t j = buf_at s j" if "j \<noteq> i" for j using bj that .
  show "b_data (buf_at ?t i) = d" "held ?t i sec" "b_dirty (buf_at ?t i) = b_dirty (buf_at s i)"
    using i by (simp_all add: bi held_def)
  have f: "b_busy (buf_at ?t j) = b_busy (buf_at s j)" "b_dirty (buf_at ?t j) = b_dirty (buf_at s j)"
      "b_valid (buf_at ?t j) = b_valid (buf_at s j)" "b_sector (buf_at ?t j) = b_sector (buf_at s j)" for j
    using bi bj [of j] by (cases "j = i"; simp)+
  show "busy_bufs ?t = busy_bufs s" "dirty_secs ?t = dirty_secs s" by (simp_all add: busy_bufs_def dirty_secs_def f)
  show dk: "disk ?t = disk s" "dwrites ?t = dwrites s" "bc_frame s ?t" by (simp_all add: set_data_def bc_frame_def upd_buf_def)
  have "bview ?t x = ((bview s)(sec := d)) x" for x
  proof (rule bview_eqI [OF it])
    fix j assume j: "j < NBUF" "b_valid (buf_at ?t j)" "b_sector (buf_at ?t j) = x"
    show "b_data (buf_at ?t j) = ((bview s)(sec := d)) x"
    proof (cases "j = i")
      case True
      then show ?thesis using j bi i by simp
    next
      case False
      have v: "b_valid (buf_at s j)" "b_sector (buf_at s j) = x" using j f by simp_all
      have dv: "b_dev (buf_at s j) = 1" using bc_inv_bufD(1) [OF inv j(1)] v(1) .
      have "x \<noteq> sec" using bc_same [OF inv j(1) i(1) dv i(4)] v(2) i(5) False by auto
      then show ?thesis using bview_cached [OF inv j(1) v(1) dv v(2)] bj [OF False] by simp
    qed
  next
    assume n: "\<And>j. j < NBUF \<Longrightarrow> b_valid (buf_at ?t j) \<Longrightarrow> b_sector (buf_at ?t j) \<noteq> x"
    have "x \<noteq> sec" using n [OF i(1)] i f by auto
    moreover have "bview s x = disk s x" by (rule bview_uncached [OF inv]) (use n [unfolded f] in blast)
    ultimately show "disk ?t x = ((bview s)(sec := d)) x" by (simp add: dk)
  qed
  then show "bview ?t = (bview s)(sec := d)" by (rule ext)
qed

lemma bwrite_view:
  assumes inv: "bc_inv s" and h: "held s i sec" and sz: "unat sec < disksize s"
  obtains t where "bwrite i s = Done () t" "bc_inv t" "held t i sec" "bview t = bview s" "busy_bufs t = busy_bufs s"
    "dirty_secs t = dirty_secs s - {sec}" "disk t = (disk s)(sec := bview s sec)" "dwrites t = dwrites s @ [(sec, bview s sec)]"
    "bc_frame s t" "\<And>j. j \<noteq> i \<Longrightarrow> buf_at t j = buf_at s j"
proof -
  define t where "t = s\<lparr>bufs := (bufs s)[i := (buf_at s i)\<lparr>b_dirty := False, b_valid := True\<rparr>],
      disk := (disk s)(b_sector (buf_at s i) := b_data (buf_at s i)),
      dwrites := dwrites s @ [(b_sector (buf_at s i), b_data (buf_at s i))]\<rparr>"
  have i: "i < NBUF" "b_busy (buf_at s i)" "b_valid (buf_at s i)" "b_dev (buf_at s i) = 1" "b_sector (buf_at s i) = sec"
    using h by (simp_all add: held_def)
  have il: "i < length (bufs s)" using i(1) bc_length [OF inv] by simp
  have sz': "unat (b_sector (buf_at s i)) < disksize s" using sz i(5) by simp
  note r = bwrite_ok [OF inv i(1-3) sz', folded t_def]
  have bi: "buf_at t i = (buf_at s i)\<lparr>b_dirty := False, b_valid := True\<rparr>" and bj: "\<And>j. j \<noteq> i \<Longrightarrow> buf_at t j = buf_at s j"
    using il by (simp_all add: t_def)
  have "held t i sec" using i by (simp add: held_def bi)
  moreover have "b_busy (buf_at t j) = b_busy (buf_at s j)" for j using bi bj [of j] by (cases "j = i") simp_all
  then have "busy_bufs t = busy_bufs s" by (simp add: busy_bufs_def)
  moreover have "dirty_secs t = dirty_secs s - {sec}"
  proof -
    have ne: "b_sector (buf_at s j) \<noteq> sec" if "j < NBUF" "b_dirty (buf_at s j)" "j \<noteq> i" for j
    proof -
      have "b_dev (buf_at s j) = 1" using bc_inv_bufD(1,2) [OF inv that(1)] that(2) by blast
      from bc_same [OF inv that(1) i(1) this i(4)] show ?thesis using that(3) i(5) by auto
    qed
    have dt: "b_dirty (buf_at t j) = (j \<noteq> i \<and> b_dirty (buf_at s j))" "b_sector (buf_at t j) = b_sector (buf_at s j)" for j
      using bi bj [of j] by (cases "j = i"; simp)+
    show ?thesis unfolding dirty_secs_def dt using ne i(5) by blast
  qed
  moreover have "disk t = (disk s)(sec := bview s sec)" "dwrites t = dwrites s @ [(sec, bview s sec)]" "bc_frame s t"
    using held_bview [OF inv h] i by (simp_all add: t_def bc_frame_def)
  ultimately show ?thesis using that [OF r(1,2)] r(3) bj by blast
qed

lemma brelse_view:
  assumes inv: "bc_inv s" and h: "held s i sec" and c: "sec \<in> dirty_secs s \<or> bview s sec = disk s sec"
  obtains t where "brelse i s = Done () t" "bc_inv t" "bview t = bview s" "busy_bufs t = busy_bufs s - {i}"
    "dirty_secs t = dirty_secs s" "disk t = disk s" "dwrites t = dwrites s" "bc_frame s t"
    "\<And>j. j \<noteq> i \<Longrightarrow> same_fields (buf_at t j) (buf_at s j)" "t = (wakeup (ChanBuf i) s)\<lparr>bufs := bufs t\<rparr>"
proof -
  have i: "i < NBUF" "b_busy (buf_at s i)" "b_valid (buf_at s i)" "b_sector (buf_at s i) = sec"
    using h by (simp_all add: held_def)
  obtain xs where xs: "bc_list (bufs s) xs" using inv by (auto simp: bc_inv_def)
  have "b_data (buf_at s i) = disk s (b_sector (buf_at s i))" if "\<not> b_dirty (buf_at s i)"
    using that c held_dirty [OF inv h] held_bview [OF inv h] i(4) by simp
  from brelse_ok [OF inv xs i(1-3) this] obtain t where t: "brelse i s = Done () t" "bc_inv t" "bview t = bview s"
    and fo: "\<And>j. j \<noteq> i \<Longrightarrow> same_fields (buf_at t j) (buf_at s j)"
    and fi: "same_fields (buf_at t i) ((buf_at s i)\<lparr>b_busy := False\<rparr>)"
    and d: "disk t = disk s" "disksize t = disksize s" "dwrites t = dwrites s"
    and w: "t = (wakeup (ChanBuf i) s)\<lparr>bufs := bufs t\<rparr>" by metis
  have f: "b_busy (buf_at t j) = (j \<noteq> i \<and> b_busy (buf_at s j))" "b_dirty (buf_at t j) = b_dirty (buf_at s j)"
      "b_sector (buf_at t j) = b_sector (buf_at s j)" for j
    using fo [of j] fi by (cases "j = i"; simp add: same_fields_def)+
  have "busy_bufs t = busy_bufs s - {i}" "dirty_secs t = dirty_secs s" by (auto simp: busy_bufs_def dirty_secs_def f)
  moreover have "bcache_state.more t = bcache_state.more s" by (subst w) (simp add: wakeup_def wakeup1_def)
  then have "bc_frame s t" using d by (simp add: bc_frame_def)
  ultimately show ?thesis using that [OF t] fo d w by blast
qed

lemma held_same: "held s i sec \<Longrightarrow> same_fields (buf_at t i) (buf_at s i) \<Longrightarrow> held t i sec"
  by (simp add: held_def same_fields_def)

lemma held_eq: "held s i sec \<Longrightarrow> buf_at t i = buf_at s i \<Longrightarrow> held t i sec"
  by (simp add: held_def)

text \<open>
  The cache and disk as a whole when no buffer is held: the pinned sectors, the content, and the sector writes done.
\<close>

definition quiet :: "'x bcache_state_scheme \<Rightarrow> bool" where
  "quiet s \<longleftrightarrow> bc_inv s \<and> busy_bufs s = {}"

lemma quiet_clean:
  assumes "quiet s" "x \<notin> dirty_secs s"
  shows "bview s x = disk s x"
proof -
  have inv: "bc_inv s" and nb: "\<And>j. j < NBUF \<Longrightarrow> \<not> b_busy (buf_at s j)"
    using assms(1) by (auto simp: quiet_def busy_bufs_def)
  show ?thesis
  proof (rule bview_eqI [OF inv])
    fix j assume j: "j < NBUF" "b_valid (buf_at s j)" "b_sector (buf_at s j) = x"
    then have "\<not> b_dirty (buf_at s j)" using assms(2) unfolding dirty_secs_def by blast
    then show "b_data (buf_at s j) = disk s x" using bc_inv_bufD(3) [OF inv j(1,2)] nb [OF j(1)] j(3) by simp
  qed simp
qed

text \<open>Both copying loops read two sectors, \<open>a\<close> first, overwrite one with the other and write it out.\<close>

definition room :: "uint \<Rightarrow> 'x bcache_state_scheme \<Rightarrow> bool" where
  "room b s \<longleftrightarrow> card (dirty_secs s) < NBUF \<and> (b \<in> dirty_secs s \<or> card (dirty_secs s) + 1 < NBUF)"

lemma read_two:
  assumes q: "quiet s" and ab: "a \<noteq> b" "unat a < disksize s" "unat b < disksize s" and rm: "room b s"
  obtains i s1 j s2 where "bread 1 a s = Done i s1" "bread 1 b s1 = Done j s2" "bc_frame s s1" "bc_inv s2"
    "held s2 i a" "held s2 j b" "i \<noteq> j" "busy_bufs s2 = {i, j}" "dirty_secs s2 = dirty_secs s" "bview s2 = bview s"
    "disk s2 = disk s" "dwrites s2 = dwrites s" "bc_frame s s2"
proof -
  have inv: "bc_inv s" and nb: "busy_bufs s = {}" using q by (simp_all add: quiet_def)
  have "bavail a s" by (rule bavailI [OF inv ab(2)]) (use nb rm in \<open>auto simp: room_def\<close>)
  from bread_view [OF inv this] obtain i s1 where s1: "bread 1 a s = Done i s1" "bc_inv s1" "held s1 i a"
    "busy_bufs s1 = {i}" "dirty_secs s1 = dirty_secs s" "bview s1 = bview s" "disk s1 = disk s" "dwrites s1 = dwrites s"
    "bc_frame s s1" using nb by metis
  have "bavail b s1"
    by (rule bavailI [OF s1(2)]) (use s1 ab rm in \<open>auto simp: room_def held_def bc_frame_def\<close>)
  from bread_view [OF s1(2) this] obtain j s2 where s2: "bread 1 b s1 = Done j s2" "bc_inv s2" "held s2 j b"
    "j \<notin> busy_bufs s1" "busy_bufs s2 = insert j (busy_bufs s1)" "dirty_secs s2 = dirty_secs s1" "bview s2 = bview s1"
    "disk s2 = disk s1" "dwrites s2 = dwrites s1" "bc_frame s1 s2" "only_buf j s1 s2" by metis
  have ij: "i \<noteq> j" using s2(4) s1(4) by auto
  have "held s2 i a" by (rule held_eq [OF s1(3)]) (use s2(11) ij in \<open>simp add: only_buf_def\<close>)
  moreover have "busy_bufs s2 = {i, j}" using s2(5) s1(4) by auto
  ultimately show ?thesis
    using that [OF s1(1) s2(1) s1(9) s2(2) _ s2(3) ij] s1 s2(6-10) bc_frame_trans [OF s1(9) s2(10)] by simp
qed

lemma write_release:
  assumes inv: "bc_inv s" and h: "held s i a" "held s j b" and ij: "i \<noteq> j" and ab: "a \<noteq> b" and bz: "busy_bufs s = {i, j}"
    and sz: "unat b < disksize s" and c: "a \<in> dirty_secs s \<or> bview s a = disk s a"
  obtains s3 s4 t where "bwrite j (set_data j (b_data (buf_at s i)) s) = Done () s3" "brelse i s3 = Done () s4" "brelse j s4 = Done () t"
    "quiet t" "dirty_secs t = dirty_secs s - {b}" "bview t = (bview s)(b := bview s a)"
    "disk t = (disk s)(b := bview s a)" "dwrites t = dwrites s @ [(b, bview s a)]" "bc_frame s t"
proof -
  note sd = set_data_view [OF inv h(2), where d = "bview s a"]
  let ?s2 = "set_data j (bview s a) s"
  have "unat b < disksize ?s2" using sz sd(10) by (simp add: bc_frame_def)
  from bwrite_view [OF sd(1,2) this] obtain s3 where s3: "bwrite j ?s2 = Done () s3" "bc_inv s3" "held s3 j b" "bview s3 = bview ?s2"
    "busy_bufs s3 = {i, j}" "dirty_secs s3 = dirty_secs s - {b}" "disk s3 = (disk s)(b := bview s a)"
    "dwrites s3 = dwrites s @ [(b, bview s a)]" "bc_frame ?s2 s3" "buf_at s3 i = buf_at ?s2 i"
    using sd bz ij by (metis fun_upd_same)
  have hi: "held s3 i a" by (rule held_eq [OF h(1)]) (use s3(10) sd(7) ij in simp)
  have "a \<in> dirty_secs s3 \<or> bview s3 a = disk s3 a" using c ab s3(4,6,7) sd(3) by auto
  from brelse_view [OF s3(2) hi this] obtain s4 where s4: "brelse i s3 = Done () s4" "bc_inv s4" "bview s4 = bview s3"
    "busy_bufs s4 = busy_bufs s3 - {i}" "dirty_secs s4 = dirty_secs s3" "disk s4 = disk s3" "dwrites s4 = dwrites s3" "bc_frame s3 s4"
    "same_fields (buf_at s4 j) (buf_at s3 j)" using ij by metis
  have "bview s4 b = disk s4 b" using s3(4,7) s4(3,6) sd(3) by simp
  from brelse_view [OF s4(2) held_same [OF s3(3) s4(9)] disjI2 [OF this]] obtain t where t: "brelse j s4 = Done () t" "bc_inv t" "bview t = bview s4"
    "busy_bufs t = busy_bufs s4 - {j}" "dirty_secs t = dirty_secs s4" "disk t = disk s4" "dwrites t = dwrites s4" "bc_frame s4 t" by metis
  have "quiet t" using t(2,4) s4(4) s3(5) by (auto simp: quiet_def)
  moreover have "b_data (buf_at s i) = bview s a" by (rule held_bview [OF inv h(1)])
  moreover have "bc_frame s t" using sd(10) s3(9) s4(8) t(8) by (simp add: bc_frame_def)
  ultimately show ?thesis using that [of s3 s4 t] s3 s4 t sd by simp
qed

section \<open>The copying loops\<close>

text \<open>Sector writes applied in order to a disk.\<close>

definition apply_ws :: "(uint \<times> blk) list \<Rightarrow> (uint \<Rightarrow> blk) \<Rightarrow> uint \<Rightarrow> blk" where
  "apply_ws ws d = foldl (\<lambda>d (x, v). d(x := v)) d ws"

lemma apply_ws_simps [simp]:
  "apply_ws [] d = d" "apply_ws ((x, v) # ws) d = apply_ws ws (d(x := v))"
  "apply_ws (us @ ws) d = apply_ws ws (apply_ws us d)"
  by (simp_all add: apply_ws_def)

lemma apply_ws_other: "x \<notin> fst ` set ws \<Longrightarrow> apply_ws ws d x = d x"
proof (induction ws arbitrary: d)
  case (Cons w ws)
  then show ?case by (cases w) simp
qed simp

lemma apply_ws_cong: "d x = e x \<Longrightarrow> apply_ws ws d x = apply_ws ws e x"
proof (induction ws arbitrary: d e)
  case (Cons w ws)
  obtain y v where w: "w = (y, v)" by (cases w)
  have "(d(y := v)) x = (e(y := v)) x" using Cons.prems by simp
  from Cons.IH [of "d(y := v)" "e(y := v)", OF this] show ?case unfolding w apply_ws_simps .
qed simp

lemma apply_ws_map:
  assumes "\<And>k. k \<in> set ks \<Longrightarrow> f k = x \<Longrightarrow> g k = v" "x \<in> f ` set ks \<or> d x = v"
  shows "apply_ws (map (\<lambda>k. (f k, g k)) ks) d x = v"
  using assms
proof (induction ks arbitrary: d)
  case (Cons k ks)
  have "x \<in> f ` set ks \<or> (d(f k := g k)) x = v" using Cons.prems by (cases "f k = x") auto
  with Cons.prems(1) have "apply_ws (map (\<lambda>k. (f k, g k)) ks) (d(f k := g k)) x = v" by (intro Cons.IH) simp_all
  then show ?case by simp
qed simp

lemma log_more_cong:
  fixes s t :: "'x log_state_scheme"
  assumes "bc_frame s t"
  shows "lg_start t = lg_start s" "lg_size t = lg_size s" "lg_outstanding t = lg_outstanding s" "lg_committing t = lg_committing s"
    "lg_dev t = lg_dev s" "lh_n t = lh_n s" "lh_sector t = lh_sector s" "disksize t = disksize s"
  using assms by (cases s; cases t; simp add: bc_frame_def)+

definition logblk :: "'x log_state_scheme \<Rightarrow> nat \<Rightarrow> uint" where
  "logblk s k = lg_start s + of_nat k + 1"

text \<open>
  The geometry the loops rely on: the log area (the header and a block per entry) and the sectors named in the
  header lie on the disk and do not meet.
\<close>

definition log_geom :: "'x log_state_scheme \<Rightarrow> bool" where
  "log_geom s \<longleftrightarrow> lg_dev s = 1 \<and> 0 \<le> lh_n s \<and> lh_n s < LOGSIZE \<and>
     unat (lg_start s) + 30 \<le> disksize s \<and> disksize s \<le> 2 ^ 31 \<and>
     (\<forall>k < nat (lh_n s). unat (lh_sector s k) < disksize s \<and>
        \<not> (unat (lg_start s) \<le> unat (lh_sector s k) \<and> unat (lh_sector s k) < unat (lg_start s) + 30))"

lemma unat_logblk:
  assumes "log_geom s" "k < nat (lh_n s)"
  shows "unat (logblk s k) = unat (lg_start s) + k + 1"
proof -
  have "unat (lg_start s) + (k + 1) < 4294967296" using assms by (auto simp: log_geom_def LOGSIZE_def)
  from unat_add_of_nat32 [OF this] show ?thesis by (simp add: logblk_def algebra_simps)
qed

lemma log_geomD:
  assumes g: "log_geom s" and k: "k < nat (lh_n s)"
  shows "unat (logblk s k) < disksize s" "unat (lh_sector s k) < disksize s" "logblk s k \<noteq> lg_start s"
    "lh_sector s k \<noteq> lg_start s" "\<And>m. m < nat (lh_n s) \<Longrightarrow> logblk s m \<noteq> lh_sector s k"
    "\<And>m. m < nat (lh_n s) \<Longrightarrow> logblk s m = logblk s k \<Longrightarrow> m = k"
proof -
  note u = unat_logblk [OF g]
  have n: "nat (lh_n s) < 30" "unat (lg_start s) + 30 \<le> disksize s" using g by (auto simp: log_geom_def LOGSIZE_def)
  have sec: "unat (lh_sector s k) < disksize s"
    "\<not> (unat (lg_start s) \<le> unat (lh_sector s k) \<and> unat (lh_sector s k) < unat (lg_start s) + 30)"
    using g k by (auto simp: log_geom_def)
  show "unat (logblk s k) < disksize s" "unat (lh_sector s k) < disksize s" using u [OF k] n k sec by simp_all
  show "logblk s k \<noteq> lg_start s" using u [OF k] by auto
  show "lh_sector s k \<noteq> lg_start s" using sec(2) by auto
  show "logblk s m \<noteq> lh_sector s k" if "m < nat (lh_n s)" for m
  proof
    assume "logblk s m = lh_sector s k"
    then have "unat (lh_sector s k) = unat (lg_start s) + m + 1" using u [OF that] by simp
    then show False using sec(2) n that by simp
  qed
  show "m = k" if "m < nat (lh_n s)" "logblk s m = logblk s k" for m
  proof -
    have "unat (lg_start s) + m + 1 = unat (lg_start s) + k + 1"
      using arg_cong [OF that(2), of unat] unfolding u [OF that(1)] u [OF k] .
    then show ?thesis by simp
  qed
qed

lemma log_frame:
  assumes "bc_frame s t"
  shows "log_geom t = log_geom s" "logblk t = logblk s"
  unfolding log_geom_def logblk_def fun_eq_iff log_more_cong [OF assms] by (rule refl, blast)

lemma write_log_one_ok:
  assumes q: "quiet s" and g: "log_geom s" and k: "k < nat (lh_n s)" and d: "lh_sector s k \<in> dirty_secs s"
    and c: "card (dirty_secs s) < NBUF" and nl: "logblk s k \<notin> dirty_secs s"
  obtains t where "write_log_one k s = Done () t" "quiet t" "dirty_secs t = dirty_secs s" "bc_frame s t"
    "bview t = (bview s)(logblk s k := bview s (lh_sector s k))" "disk t = (disk s)(logblk s k := bview s (lh_sector s k))"
    "dwrites t = dwrites s @ [(logblk s k, bview s (lh_sector s k))]"
proof -
  note gd = log_geomD [OF g k]
  have "room (lh_sector s k) s" using d c by (simp add: room_def)
  from read_two [OF q gd(5) [OF k] gd(1,2) this]
  obtain i s1 j s2 where r: "bread 1 (logblk s k) s = Done i s1" "bread 1 (lh_sector s k) s1 = Done j s2" "bc_frame s s1" "bc_inv s2"
    "held s2 i (logblk s k)" "held s2 j (lh_sector s k)" "i \<noteq> j" "busy_bufs s2 = {i, j}" "dirty_secs s2 = dirty_secs s" "bview s2 = bview s"
    "disk s2 = disk s" "dwrites s2 = dwrites s" "bc_frame s s2" by blast
  have "busy_bufs s2 = {j, i}" "unat (logblk s k) < disksize s2" "lh_sector s k \<in> dirty_secs s2 \<or> bview s2 (lh_sector s k) = disk s2 (lh_sector s k)"
    using r d gd(1) by (auto simp: bc_frame_def)
  from write_release [OF r(4,6,5) r(7) [symmetric] gd(5) [OF k, symmetric] this]
  obtain s3 s4 t where w: "bwrite i (set_data i (b_data (buf_at s2 j)) s2) = Done () s3" "brelse j s3 = Done () s4" "brelse i s4 = Done () t"
    "quiet t" "dirty_secs t = dirty_secs s2 - {logblk s k}" "bview t = (bview s2)(logblk s k := bview s2 (lh_sector s k))"
    "disk t = (disk s2)(logblk s k := bview s2 (lh_sector s k))"
    "dwrites t = dwrites s2 @ [(logblk s k, bview s2 (lh_sector s k))]" "bc_frame s2 t" by blast
  have dev: "lg_dev s = 1" "lg_dev s1 = 1" "lh_sector s1 = lh_sector s" using g log_more_cong [OF r(3)] by (simp_all add: log_geom_def)
  have "write_log_one k s = Done () t"
    using r(1,2) w(1-3) unfolding write_log_one_def logblk_def by (simp add: dev)
  then show ?thesis using that w(4-9) r(9-13) nl bc_frame_trans [OF r(13) w(9)] by simp
qed

lemma install_one_ok:
  assumes q: "quiet s" and g: "log_geom s" and k: "k < nat (lh_n s)"
    and c: "room (lh_sector s k) s" and nl: "logblk s k \<notin> dirty_secs s"
  obtains t where "install_one k s = Done () t" "quiet t" "dirty_secs t = dirty_secs s - {lh_sector s k}" "bc_frame s t"
    "bview t = (bview s)(lh_sector s k := bview s (logblk s k))" "disk t = (disk s)(lh_sector s k := bview s (logblk s k))"
    "dwrites t = dwrites s @ [(lh_sector s k, bview s (logblk s k))]"
proof -
  note gd = log_geomD [OF g k]
  from read_two [OF q gd(5) [OF k] gd(1,2) c]
  obtain i s1 j s2 where r: "bread 1 (logblk s k) s = Done i s1" "bread 1 (lh_sector s k) s1 = Done j s2" "bc_frame s s1" "bc_inv s2"
    "held s2 i (logblk s k)" "held s2 j (lh_sector s k)" "i \<noteq> j" "busy_bufs s2 = {i, j}" "dirty_secs s2 = dirty_secs s" "bview s2 = bview s"
    "disk s2 = disk s" "dwrites s2 = dwrites s" "bc_frame s s2" by blast
  have "unat (lh_sector s k) < disksize s2" "logblk s k \<in> dirty_secs s2 \<or> bview s2 (logblk s k) = disk s2 (logblk s k)"
    using r gd(2) quiet_clean [OF q nl] by (simp_all add: bc_frame_def)
  from write_release [OF r(4-7) gd(5) [OF k] r(8) this]
  obtain s3 s4 t where w: "bwrite j (set_data j (b_data (buf_at s2 i)) s2) = Done () s3" "brelse i s3 = Done () s4" "brelse j s4 = Done () t"
    "quiet t" "dirty_secs t = dirty_secs s2 - {lh_sector s k}" "bview t = (bview s2)(lh_sector s k := bview s2 (logblk s k))"
    "disk t = (disk s2)(lh_sector s k := bview s2 (logblk s k))"
    "dwrites t = dwrites s2 @ [(lh_sector s k, bview s2 (logblk s k))]" "bc_frame s2 t" by blast
  have dev: "lg_dev s = 1" "lg_dev s1 = 1" "lh_sector s1 = lh_sector s" using g log_more_cong [OF r(3)] by (simp_all add: log_geom_def)
  have "install_one k s = Done () t"
    using r(1,2) w(1-3) unfolding install_one_def logblk_def by (simp add: dev)
  then show ?thesis using that w(4-9) r(9-13) bc_frame_trans [OF r(13) w(9)] by simp
qed

lemma write_log_loop:
  assumes "quiet s" "log_geom s" "\<And>k. k \<in> set ks \<Longrightarrow> k < nat (lh_n s) \<and> lh_sector s k \<in> dirty_secs s \<and> logblk s k \<notin> dirty_secs s"
    "card (dirty_secs s) < NBUF"
  shows "\<exists>t. kfor write_log_one ks s = Done () t \<and> quiet t \<and> dirty_secs t = dirty_secs s \<and> bc_frame s t \<and>
     (let ws = map (\<lambda>k. (logblk s k, bview s (lh_sector s k))) ks
      in bview t = apply_ws ws (bview s) \<and> disk t = apply_ws ws (disk s) \<and> dwrites t = dwrites s @ ws)"
  using assms
proof (induction ks arbitrary: s)
  case (Cons k ks)
  have k: "k < nat (lh_n s)" "lh_sector s k \<in> dirty_secs s" "logblk s k \<notin> dirty_secs s" using Cons.prems(3) by auto
  obtain t where t: "write_log_one k s = Done () t" "quiet t" "dirty_secs t = dirty_secs s" "bc_frame s t"
    "bview t = (bview s)(logblk s k := bview s (lh_sector s k))" "disk t = (disk s)(logblk s k := bview s (lh_sector s k))"
    "dwrites t = dwrites s @ [(logblk s k, bview s (lh_sector s k))]"
    by (rule write_log_one_ok [OF Cons.prems(1,2) k(1,2) Cons.prems(4) k(3)])
  note fr = log_more_cong [OF t(4)] log_frame [OF t(4)]
  have "bview t (lh_sector s m) = bview s (lh_sector s m)" if "m \<in> set ks" for m
  proof -
    have "m < nat (lh_n s)" using Cons.prems(3) that by simp
    from log_geomD(5) [OF Cons.prems(2) this k(1)] show ?thesis by (simp add: t(5))
  qed
  then have ws: "map (\<lambda>k. (logblk t k, bview t (lh_sector t k))) ks = map (\<lambda>k. (logblk s k, bview s (lh_sector s k))) ks"
    by (simp add: fr)
  have "\<exists>u. kfor write_log_one ks t = Done () u \<and> quiet u \<and> dirty_secs u = dirty_secs t \<and> bc_frame t u \<and>
     (let ws = map (\<lambda>k. (logblk t k, bview t (lh_sector t k))) ks
      in bview u = apply_ws ws (bview t) \<and> disk u = apply_ws ws (disk t) \<and> dwrites u = dwrites t @ ws)"
    by (rule Cons.IH) (use Cons.prems t fr in simp_all)
  then obtain u where "kfor write_log_one ks t = Done () u" "quiet u" "dirty_secs u = dirty_secs t" "bc_frame t u"
    "bview u = apply_ws (map (\<lambda>k. (logblk s k, bview s (lh_sector s k))) ks) (bview t)"
    "disk u = apply_ws (map (\<lambda>k. (logblk s k, bview s (lh_sector s k))) ks) (disk t)"
    "dwrites u = dwrites t @ map (\<lambda>k. (logblk s k, bview s (lh_sector s k))) ks"
    unfolding ws Let_def by blast
  then show ?case using t bc_frame_trans [OF t(4)] by (simp add: Let_def)
qed simp

lemma room_less:
  assumes "room b s" "dirty_secs t = dirty_secs s - {c}"
  shows "room b t"
proof -
  have le: "card (dirty_secs t) \<le> card (dirty_secs s)" unfolding assms(2) by (rule card_Diff1_le)
  show ?thesis
  proof (cases "b \<in> dirty_secs t")
    case True
    then show ?thesis using assms(1) le by (simp add: room_def)
  next
    case False
    show ?thesis
    proof (cases "b \<in> dirty_secs s")
      case True
      then have "card (dirty_secs t) < card (dirty_secs s)" using False assms(2) by (intro psubset_card_mono) auto
      then show ?thesis using assms(1) by (simp add: room_def)
    qed (use assms(1) le in \<open>simp add: room_def\<close>)
  qed
qed

lemma install_loop:
  assumes "quiet s" "log_geom s" "\<And>k. k \<in> set ks \<Longrightarrow> k < nat (lh_n s) \<and> room (lh_sector s k) s \<and> logblk s k \<notin> dirty_secs s"
  shows "\<exists>t. kfor install_one ks s = Done () t \<and> quiet t \<and> dirty_secs t = dirty_secs s - lh_sector s ` set ks \<and> bc_frame s t \<and>
     (let ws = map (\<lambda>k. (lh_sector s k, bview s (logblk s k))) ks
      in bview t = apply_ws ws (bview s) \<and> disk t = apply_ws ws (disk s) \<and> dwrites t = dwrites s @ ws)"
  using assms
proof (induction ks arbitrary: s)
  case (Cons k ks)
  have k: "k < nat (lh_n s)" "room (lh_sector s k) s" "logblk s k \<notin> dirty_secs s" using Cons.prems(3) by auto
  obtain t where t: "install_one k s = Done () t" "quiet t" "dirty_secs t = dirty_secs s - {lh_sector s k}" "bc_frame s t"
    "bview t = (bview s)(lh_sector s k := bview s (logblk s k))" "disk t = (disk s)(lh_sector s k := bview s (logblk s k))"
    "dwrites t = dwrites s @ [(lh_sector s k, bview s (logblk s k))]"
    by (rule install_one_ok [OF Cons.prems(1,2) k])
  note fr = log_more_cong [OF t(4)] log_frame [OF t(4)]
  have "bview t (logblk s m) = bview s (logblk s m)" if "m \<in> set ks" for m
  proof -
    have "m < nat (lh_n s)" using Cons.prems(3) that by simp
    from log_geomD(5) [OF Cons.prems(2) k(1) this] show ?thesis by (simp add: t(5))
  qed
  then have ws: "map (\<lambda>k. (lh_sector t k, bview t (logblk t k))) ks = map (\<lambda>k. (lh_sector s k, bview s (logblk s k))) ks"
    by (simp add: fr)
  have "room (lh_sector s m) t" if "m \<in> set ks" for m
    by (rule room_less [OF _ t(3)]) (use Cons.prems(3) that in simp)
  then have "\<exists>u. kfor install_one ks t = Done () u \<and> quiet u \<and> dirty_secs u = dirty_secs t - lh_sector t ` set ks \<and> bc_frame t u \<and>
     (let ws = map (\<lambda>k. (lh_sector t k, bview t (logblk t k))) ks
      in bview u = apply_ws ws (bview t) \<and> disk u = apply_ws ws (disk t) \<and> dwrites u = dwrites t @ ws)"
    by (intro Cons.IH) (use Cons.prems t fr in simp_all)
  then obtain u where "kfor install_one ks t = Done () u" "quiet u" "dirty_secs u = dirty_secs t - lh_sector t ` set ks" "bc_frame t u"
    "bview u = apply_ws (map (\<lambda>k. (lh_sector s k, bview s (logblk s k))) ks) (bview t)"
    "disk u = apply_ws (map (\<lambda>k. (lh_sector s k, bview s (logblk s k))) ks) (disk t)"
    "dwrites u = dwrites t @ map (\<lambda>k. (lh_sector s k, bview s (logblk s k))) ks"
    unfolding ws Let_def by blast
  then show ?case using t fr bc_frame_trans [OF t(4)] by (auto simp: Let_def)
qed simp

text \<open>The header block.\<close>

lemma length_head_blk [simp]: "length (head_blk n sec d) = length d"
proof -
  have "length (fold (\<lambda>i d. put32l d (4 + 4 * i) (sec i)) ks e) = length e" for ks e
    by (induction ks arbitrary: e) simp_all
  then show ?thesis by (simp add: head_blk_def)
qed

lemma head_blk_get:
  assumes "length d = BSIZE" "0 \<le> n" "n < LOGSIZE"
  shows "sint (get32l (head_blk n sec d) 0) = n" "\<And>k. k < nat n \<Longrightarrow> get32l (head_blk n sec d) (4 + 4 * k) = sec k"
proof -
  let ?f = "\<lambda>m e. fold (\<lambda>i d. put32l d (4 + 4 * i) (sec i)) [0..<m] e"
  have l: "length (?f m e) = length e" for m e
    by (induction m) simp_all
  have z: "get32l (?f m e) 0 = get32l e 0" for m e
    by (induction m) (simp_all add: get_put_other)
  have "\<forall>k < m. get32l (?f m e) (4 + 4 * k) = sec k" if "m \<le> 30" "length e = 512" for m e
    using that
  proof (induction m)
    case (Suc m)
    show ?case
    proof (intro allI impI)
      fix k assume "k < Suc m"
      then consider "k = m" | "k < m" by linarith
      then show "get32l (?f (Suc m) e) (4 + 4 * k) = sec k"
      proof cases
        case 1
        then show ?thesis using l [of m e] Suc.prems by simp
      next
        case 2
        then show ?thesis using Suc by (simp add: get_put_other)
      qed
    qed
  qed simp
  from this [of "nat n" "put32l d 0 (of_int n)"] assms
  show "get32l (head_blk n sec d) (4 + 4 * k) = sec k" if "k < nat n" for k
    using that by (simp add: head_blk_def BSIZE_def LOGSIZE_def)
  have "sint (of_int n :: uint) = n" using assms by (simp add: LOGSIZE_def signed_of_int signed_take_bit_int_eq_self)
  then show "sint (get32l (head_blk n sec d) 0) = n"
    using assms(1) by (simp add: head_blk_def z BSIZE_def)
qed

lemma cache_cong:
  assumes "bufs t = bufs s" "disk t = disk s"
  shows "bc_inv t = bc_inv s" "bview t = bview s" "busy_bufs t = busy_bufs s" "dirty_secs t = dirty_secs s" "quiet t = quiet s"
    "held t = held s"
proof -
  show a: "bc_inv t = bc_inv s" "busy_bufs t = busy_bufs s" "dirty_secs t = dirty_secs s"
    by (simp_all add: assms bc_inv_def busy_bufs_def dirty_secs_def)
  show "bview t = bview s" by (rule ext) (simp only: bview_def assms)
  show "held t = held s" by (intro ext) (simp add: held_def assms)
  show "quiet t = quiet s" by (simp add: quiet_def a)
qed

lemma write_head_ok:
  assumes q: "quiet s" and g: "log_geom s" and c: "card (dirty_secs s) < NBUF" and nl: "lg_start s \<notin> dirty_secs s"
  defines "h \<equiv> head_blk (lh_n s) (lh_sector s) (bview s (lg_start s))"
  obtains t where "write_head s = Done () t" "quiet t" "dirty_secs t = dirty_secs s" "bc_frame s t"
    "bview t = (bview s)(lg_start s := h)" "disk t = (disk s)(lg_start s := h)" "dwrites t = dwrites s @ [(lg_start s, h)]"
proof -
  have inv: "bc_inv s" and nb: "busy_bufs s = {}" using q by (simp_all add: quiet_def)
  have sz: "unat (lg_start s) < disksize s" "lg_dev s = 1" using g by (auto simp: log_geom_def)
  have "bavail (lg_start s) s" by (rule bavailI [OF inv sz(1)]) (use nb c in auto)
  from bread_view [OF inv this] obtain i s1 where s1: "bread 1 (lg_start s) s = Done i s1" "bc_inv s1" "held s1 i (lg_start s)"
    "busy_bufs s1 = {i}" "dirty_secs s1 = dirty_secs s" "bview s1 = bview s" "disk s1 = disk s" "dwrites s1 = dwrites s"
    "bc_frame s s1" using nb by metis
  note fr = log_more_cong [OF s1(9)]
  have dt: "head_blk (lh_n s1) (lh_sector s1) (b_data (buf_at s1 i)) = h"
    using held_bview [OF s1(2,3)] by (simp add: fr h_def s1(6))
  note sd = set_data_view [OF s1(2,3), where d = h]
  have "unat (lg_start s) < disksize (set_data i h s1)" using sz(1) s1(9) sd(10) by (simp add: bc_frame_def)
  from bwrite_view [OF sd(1,2) this] obtain s2 where s2: "bwrite i (set_data i h s1) = Done () s2" "bc_inv s2" "held s2 i (lg_start s)"
    "bview s2 = (bview s)(lg_start s := h)" "busy_bufs s2 = {i}" "dirty_secs s2 = dirty_secs s - {lg_start s}"
    "disk s2 = (disk s)(lg_start s := h)" "dwrites s2 = dwrites s @ [(lg_start s, h)]" "bc_frame (set_data i h s1) s2"
    using sd s1 by (metis fun_upd_same)
  have "bview s2 (lg_start s) = disk s2 (lg_start s)" by (simp add: s2)
  from brelse_view [OF s2(2,3) disjI2 [OF this]] obtain t where t: "brelse i s2 = Done () t" "bc_inv t" "bview t = bview s2"
    "busy_bufs t = busy_bufs s2 - {i}" "dirty_secs t = dirty_secs s2" "disk t = disk s2" "dwrites t = dwrites s2" "bc_frame s2 t" by metis
  have "write_head s = Done () t" using s1(1) s2(1) t(1) by (simp add: write_head_def sz(2) dt)
  moreover have "bc_frame s t" using s1(9) sd(10) s2(9) t(8) by (simp add: bc_frame_def)
  moreover have "quiet t" using t(2,4) s2(5) by (simp add: quiet_def)
  ultimately show ?thesis using that t s2 nl by simp
qed

section \<open>Commit\<close>

text \<open>
  The log between two operations on it: no buffer is held, exactly the sectors in the header are pinned, and the header
  on the disk is empty.
\<close>

definition log_ready :: "'x log_state_scheme \<Rightarrow> bool" where
  "log_ready s \<longleftrightarrow> quiet s \<and> log_geom s \<and> dirty_secs s = lh_sector s ` {..<nat (lh_n s)} \<and>
     length (disk s (lg_start s)) = BSIZE \<and> sint (get32l (disk s (lg_start s)) 0) = 0"

definition log_area :: "'x log_state_scheme \<Rightarrow> uint \<Rightarrow> bool" where
  "log_area s x \<longleftrightarrow> unat (lg_start s) \<le> unat x \<and> unat x < unat (lg_start s) + 30"

text \<open>The sector writes of a commit, in order.\<close>

definition commit_log :: "'x log_state_scheme \<Rightarrow> (uint \<times> blk) list" where
  "commit_log s = map (\<lambda>k. (logblk s k, bview s (lh_sector s k))) [0..<nat (lh_n s)]"

definition commit_head :: "'x log_state_scheme \<Rightarrow> blk" where
  "commit_head s = head_blk (lh_n s) (lh_sector s) (disk s (lg_start s))"

definition commit_home :: "'x log_state_scheme \<Rightarrow> (uint \<times> blk) list" where
  "commit_home s = map (\<lambda>k. (lh_sector s k, bview s (lh_sector s k))) [0..<nat (lh_n s)]"

definition commit_ws :: "'x log_state_scheme \<Rightarrow> (uint \<times> blk) list" where
  "commit_ws s = commit_log s @ (lg_start s, commit_head s) # commit_home s @
     [(lg_start s, head_blk 0 (lh_sector s) (commit_head s))]"

lemma log_readyD:
  assumes "log_ready s"
  shows "quiet s" "log_geom s" "\<And>k. k < nat (lh_n s) \<Longrightarrow> lh_sector s k \<in> dirty_secs s"
    "lg_start s \<notin> dirty_secs s" "\<And>k. k < nat (lh_n s) \<Longrightarrow> logblk s k \<notin> dirty_secs s" "card (dirty_secs s) < NBUF"
proof -
  have d: "dirty_secs s = lh_sector s ` {..<nat (lh_n s)}" and n: "lh_n s < 30"
    using assms by (simp_all add: log_ready_def log_geom_def LOGSIZE_def)
  show q: "quiet s" "log_geom s" using assms by (simp_all add: log_ready_def)
  show "lh_sector s k \<in> dirty_secs s" if "k < nat (lh_n s)" for k using d that by simp
  show "lg_start s \<notin> dirty_secs s" using d log_geomD(4) [OF q(2)] by (metis imageE lessThan_iff)
  show "logblk s k \<notin> dirty_secs s" if "k < nat (lh_n s)" for k
    using d log_geomD(5) [OF q(2) _ that] by auto
  have "card (dirty_secs s) \<le> nat (lh_n s)" using card_image_le [of "{..<nat (lh_n s)}" "lh_sector s"] by (simp add: d)
  then show "card (dirty_secs s) < NBUF" using n by (simp add: NBUF_def)
qed

lemma commit_log_other:
  assumes "log_geom s" "x = lg_start s \<or> (\<exists>k < nat (lh_n s). x = lh_sector s k) \<or> \<not> log_area s x"
  shows "x \<notin> fst ` set (take m (commit_log s))"
proof
  assume "x \<in> fst ` set (take m (commit_log s))"
  then have "x \<in> fst ` set (commit_log s)" by (meson image_mono set_take_subset subsetD)
  then obtain k where k: "k < nat (lh_n s)" "x = logblk s k" by (auto simp: commit_log_def)
  have "nat (lh_n s) < 30" using assms(1) by (auto simp: log_geom_def LOGSIZE_def)
  then have "log_area s x" using unat_logblk [OF assms(1) k(1)] k by (simp add: log_area_def)
  then show False using assms(2) k log_geomD(3,5) [OF assms(1)] by metis
qed

lemma commit_log_block:
  assumes "log_geom s" "k < nat (lh_n s)"
  shows "apply_ws (commit_log s) d (logblk s k) = bview s (lh_sector s k)"
  unfolding commit_log_def
  by (rule apply_ws_map) (use assms log_geomD(6) [OF assms(1) assms(2)] in auto)

lemma commit_ok:
  assumes r: "log_ready s" and n: "0 < lh_n s"
  obtains t where "commit s = Done () t" "quiet t" "dirty_secs t = {}" "lh_n t = 0"
    "dwrites t = dwrites s @ commit_ws s" "disk t = apply_ws (commit_ws s) (disk s)" "bview t = apply_ws (commit_ws s) (bview s)"
    "bc_frame (s\<lparr>lh_n := 0\<rparr>) t"
proof -
  note rd = log_readyD [OF r]
  let ?st = "lg_start s" and ?n = "nat (lh_n s)"
  have "\<exists>t. kfor write_log_one [0..<?n] s = Done () t \<and> quiet t \<and> dirty_secs t = dirty_secs s \<and> bc_frame s t \<and>
     (let ws = map (\<lambda>k. (logblk s k, bview s (lh_sector s k))) [0..<?n]
      in bview t = apply_ws ws (bview s) \<and> disk t = apply_ws ws (disk s) \<and> dwrites t = dwrites s @ ws)"
    by (rule write_log_loop) (use rd in auto)
  then obtain s1 where s1: "write_log s = Done () s1" "quiet s1" "dirty_secs s1 = dirty_secs s" "bc_frame s s1"
    "bview s1 = apply_ws (commit_log s) (bview s)" "disk s1 = apply_ws (commit_log s) (disk s)" "dwrites s1 = dwrites s @ commit_log s"
    unfolding commit_log_def [symmetric] write_log_def Let_def by blast
  note f1 = log_more_cong [OF s1(4)] log_frame [OF s1(4)]
  have st: "bview s1 ?st = disk s ?st"
    using commit_log_other [OF rd(2), of ?st "length (commit_log s)"] quiet_clean [OF rd(1,4)]
    by (simp add: s1(5) apply_ws_other)
  then have h: "head_blk (lh_n s1) (lh_sector s1) (bview s1 (lg_start s1)) = commit_head s" by (simp add: f1 commit_head_def)
  obtain s2 where s2: "write_head s1 = Done () s2" "quiet s2" "dirty_secs s2 = dirty_secs s" "bc_frame s1 s2"
    "bview s2 = (bview s1)(?st := commit_head s)" "disk s2 = (disk s1)(?st := commit_head s)"
    "dwrites s2 = dwrites s1 @ [(?st, commit_head s)]"
    using write_head_ok [of s1] s1(2,3) rd f1 unfolding h by metis
  note f2 = log_more_cong [OF s2(4), unfolded f1] log_frame [OF s2(4), unfolded f1]
  have "\<exists>t. kfor install_one [0..<?n] s2 = Done () t \<and> quiet t \<and> dirty_secs t = dirty_secs s2 - lh_sector s2 ` set [0..<?n] \<and> bc_frame s2 t \<and>
     (let ws = map (\<lambda>k. (lh_sector s2 k, bview s2 (logblk s2 k))) [0..<?n]
      in bview t = apply_ws ws (bview s2) \<and> disk t = apply_ws ws (disk s2) \<and> dwrites t = dwrites s2 @ ws)"
    by (rule install_loop) (use rd s2(2,3) f2 in \<open>auto simp: room_def\<close>)
  moreover have "map (\<lambda>k. (lh_sector s2 k, bview s2 (logblk s2 k))) [0..<?n] = commit_home s"
    using commit_log_block [OF rd(2)] log_geomD(3) [OF rd(2)]
    by (auto simp: commit_home_def f2 s2(5) s1(5))
  moreover have "dirty_secs s2 - lh_sector s2 ` set [0..<?n] = {}"
    using r s2(3) f2 by (auto simp: log_ready_def atLeast0LessThan)
  ultimately obtain s3 where s3: "install_trans s2 = Done () s3" "quiet s3" "dirty_secs s3 = {}" "bc_frame s2 s3"
    "bview s3 = apply_ws (commit_home s) (bview s2)" "disk s3 = apply_ws (commit_home s) (disk s2)" "dwrites s3 = dwrites s2 @ commit_home s"
    unfolding install_trans_def Let_def f2 by auto
  note f3 = log_more_cong [OF s3(4), unfolded f2] log_frame [OF s3(4), unfolded f2]
  let ?s3 = "s3\<lparr>lh_n := 0\<rparr>"
  have cc: "quiet ?s3" "dirty_secs ?s3 = {}" "bview ?s3 = bview s3" "disk ?s3 = disk s3" "dwrites ?s3 = dwrites s3"
    using cache_cong [of ?s3 s3] s3(2,3) by simp_all
  have g3: "log_geom ?s3" using rd(2) f3 by (simp add: log_geom_def LOGSIZE_def)
  have "?st \<notin> fst ` set (commit_home s)" using log_geomD(4) [OF rd(2)] by (fastforce simp: commit_home_def)
  then have h3: "head_blk (lh_n ?s3) (lh_sector ?s3) (bview ?s3 (lg_start ?s3)) = head_blk 0 (lh_sector s) (commit_head s)"
    by (simp add: cc(3) s3(5) f3 apply_ws_other s2(5))
  obtain t where t: "write_head ?s3 = Done () t" "quiet t" "dirty_secs t = {}" "bc_frame ?s3 t"
    "bview t = (bview ?s3)(?st := head_blk 0 (lh_sector s) (commit_head s))" "disk t = (disk ?s3)(?st := head_blk 0 (lh_sector s) (commit_head s))"
    "dwrites t = dwrites ?s3 @ [(?st, head_blk 0 (lh_sector s) (commit_head s))]"
    using write_head_ok [of ?s3] cc g3 f3 unfolding h3 by (metis card.empty empty_iff log_state.select_convs(1) log_state.surjective log_state.update_convs(6) rd(6) bot_nat_0.extremum_strict gr0I)
  have "commit s = Done () t" using n s1(1) s2(1) s3(1) t(1) by (simp add: commit_def)
  moreover have "bc_frame (s\<lparr>lh_n := 0\<rparr>) t"
    using s1(4) s2(4) s3(4) t(4) by (cases s, cases s3) (auto simp: bc_frame_def)
  moreover have "lh_n t = 0" using log_more_cong(6) [OF t(4)] by simp
  ultimately show ?thesis
    using that t(2,3) t(5-7) cc(3-5) s3(5-7) s2(5-7) s1(5-7) by (simp add: commit_ws_def)
qed

section \<open>Recovery\<close>

lemma head_blk_0: "head_blk 0 sec d = put32l d 0 0"
  by (simp add: head_blk_def)

lemma read_release:
  assumes q: "quiet s" and c: "card (dirty_secs s) < NBUF" and sz: "unat sec < disksize s"
  obtains i s1 where "bread 1 sec s = Done i s1" "bc_inv s1" "held s1 i sec" "bview s1 = bview s" "disk s1 = disk s" "bc_frame s s1"
    "b_data (buf_at s1 i) = bview s sec" "busy_bufs s1 = {i}" "dirty_secs s1 = dirty_secs s" "dwrites s1 = dwrites s"
    "sec \<in> dirty_secs s1 \<or> bview s1 sec = disk s1 sec"
proof -
  have inv: "bc_inv s" and nb: "busy_bufs s = {}" using q by (simp_all add: quiet_def)
  have "bavail sec s" by (rule bavailI [OF inv sz]) (use nb c in auto)
  from bread_view [OF inv this] obtain i s1 where s1: "bread 1 sec s = Done i s1" "bc_inv s1" "held s1 i sec"
    "busy_bufs s1 = {i}" "dirty_secs s1 = dirty_secs s" "bview s1 = bview s" "disk s1 = disk s" "dwrites s1 = dwrites s"
    "bc_frame s s1" using nb by metis
  moreover have "sec \<in> dirty_secs s1 \<or> bview s1 sec = disk s1 sec" using quiet_clean [OF q] s1 by metis
  ultimately show ?thesis using that held_bview [OF s1(2,3)] by simp
qed

lemma brelse_quiet:
  assumes "bc_inv s" "held s i sec" "sec \<in> dirty_secs s \<or> bview s sec = disk s sec" "busy_bufs s = {i}"
  obtains t where "brelse i s = Done () t" "quiet t" "bview t = bview s" "dirty_secs t = dirty_secs s" "disk t = disk s"
    "dwrites t = dwrites s" "bc_frame s t"
  using brelse_view [OF assms(1-3)] assms(4) unfolding quiet_def by (metis Diff_cancel)

lemma readsb_ok:
  assumes "quiet s" "card (dirty_secs s) < NBUF" "1 < disksize s"
  obtains t where "readsb 1 s = Done \<lparr>sb_size = get32l (bview s 1) 0, sb_nblocks = get32l (bview s 1) 4,
      sb_ninodes = get32l (bview s 1) 8, sb_nlog = get32l (bview s 1) 12\<rparr> t"
    "quiet t" "bview t = bview s" "dirty_secs t = dirty_secs s" "disk t = disk s" "dwrites t = dwrites s" "bc_frame s t"
proof -
  have sz: "unat (1 :: uint) < disksize s" using assms(3) by simp
  obtain i s1 where s1: "bread 1 1 s = Done i s1" "bc_inv s1" "held s1 i 1" "bview s1 = bview s" "disk s1 = disk s" "bc_frame s s1"
    "b_data (buf_at s1 i) = bview s 1" "busy_bufs s1 = {i}" "dirty_secs s1 = dirty_secs s" "dwrites s1 = dwrites s"
    "1 \<in> dirty_secs s1 \<or> bview s1 1 = disk s1 1" by (rule read_release [OF assms(1,2) sz])
  obtain t where t: "brelse i s1 = Done () t" "quiet t" "bview t = bview s1" "dirty_secs t = dirty_secs s1" "disk t = disk s1"
    "dwrites t = dwrites s1" "bc_frame s1 t" by (rule brelse_quiet [OF s1(2,3,11,8)])
  show ?thesis
    by (rule that [of t]) (use s1 t bc_frame_trans [OF s1(6) t(7)] in \<open>simp_all add: readsb_def Let_def\<close>)
qed

text \<open>The in-memory header after read_head.\<close>

definition dhead_n :: "(uint \<Rightarrow> blk) \<Rightarrow> uint \<Rightarrow> int" where
  "dhead_n d st = sint (get32l (d st) 0)"

definition dhead_sec :: "(uint \<Rightarrow> blk) \<Rightarrow> uint \<Rightarrow> nat \<Rightarrow> uint" where
  "dhead_sec d st k = get32l (d st) (4 + 4 * k)"

lemma log_geom_sectors_cong:
  assumes "\<And>k. k < nat (lh_n s) \<Longrightarrow> f k = lh_sector s k"
  shows "log_geom (s\<lparr>lh_sector := f\<rparr>) = log_geom s"
  using assms by (auto simp: log_geom_def)

lemma read_head_ok:
  assumes q: "quiet s" and c: "dirty_secs s = {}" and sz: "unat (lg_start s) < disksize s" "lg_dev s = 1"
  obtains t f where "read_head s = Done () t" "quiet t" "bview t = bview s" "dirty_secs t = {}" "disk t = disk s" "dwrites t = dwrites s"
    "bc_frame (s\<lparr>lh_n := dhead_n (disk s) (lg_start s), lh_sector := f\<rparr>) t"
    "\<And>k. k < nat (dhead_n (disk s) (lg_start s)) \<Longrightarrow> f k = dhead_sec (disk s) (lg_start s) k"
proof -
  let ?st = "lg_start s" and ?n = "dhead_n (disk s) (lg_start s)"
  have c0: "card (dirty_secs s) < NBUF" by (simp add: c NBUF_def)
  obtain i s1 where s1: "bread 1 ?st s = Done i s1" "bc_inv s1" "held s1 i ?st" "bview s1 = bview s" "disk s1 = disk s" "bc_frame s s1"
    "b_data (buf_at s1 i) = bview s ?st" "busy_bufs s1 = {i}" "dirty_secs s1 = dirty_secs s" "dwrites s1 = dwrites s"
    "?st \<in> dirty_secs s1 \<or> bview s1 ?st = disk s1 ?st" by (rule read_release [OF q c0 sz(1)])
  define f where "f = (\<lambda>k. if k < nat ?n then dhead_sec (disk s) ?st k else lh_sector s1 k)"
  have bv: "bview s ?st = disk s ?st" using quiet_clean [OF q] c by simp
  define s2 where "s2 = s1\<lparr>lh_n := ?n, lh_sector := f\<rparr>"
  have cc: "bc_inv s2" "held s2 = held s1" "busy_bufs s2 = busy_bufs s1" "dirty_secs s2 = dirty_secs s1" "bview s2 = bview s1" "disk s2 = disk s1"
    "dwrites s2 = dwrites s1" using cache_cong [of s2 s1] s1(2) by (simp_all add: s2_def)
  obtain t where t: "brelse i s2 = Done () t" "quiet t" "bview t = bview s2" "dirty_secs t = dirty_secs s2" "disk t = disk s2"
    "dwrites t = dwrites s2" "bc_frame s2 t" by (rule brelse_quiet [of s2 i ?st]) (use s1 cc in simp_all)
  have "read_head s = Done () t"
    using s1(1) t(1) unfolding s2_def f_def dhead_n_def dhead_sec_def by (simp add: read_head_def sz(2) Let_def s1(7) bv cong: if_cong)
  moreover have "bc_frame (s\<lparr>lh_n := ?n, lh_sector := f\<rparr>) t"
    using s1(6) t(7) by (cases s, cases s1) (auto simp: bc_frame_def s2_def)
  ultimately show ?thesis
    using that [of t f] t cc s1 c by (simp add: f_def)
qed

text \<open>The sector writes of recovery, from the disk alone.\<close>

definition recover_ws :: "(uint \<Rightarrow> blk) \<Rightarrow> uint \<Rightarrow> (uint \<times> blk) list" where
  "recover_ws d st = map (\<lambda>k. (dhead_sec d st k, d (st + of_nat k + 1))) [0..<nat (dhead_n d st)] @ [(st, put32l (d st) 0 0)]"

lemma recover_ok:
  assumes q: "quiet s" and c: "dirty_secs s = {}"
    and g: "log_geom (s\<lparr>lh_n := dhead_n (disk s) (lg_start s), lh_sector := dhead_sec (disk s) (lg_start s)\<rparr>)"
  obtains t where "recover_from_log s = Done () t" "quiet t" "dirty_secs t = {}" "lh_n t = 0"
    "lg_start t = lg_start s" "lg_size t = lg_size s" "lg_dev t = lg_dev s" "lg_outstanding t = lg_outstanding s" "lg_committing t = lg_committing s" "disksize t = disksize s"
    "disk t = apply_ws (recover_ws (disk s) (lg_start s)) (disk s)" "dwrites t = dwrites s @ recover_ws (disk s) (lg_start s)"
proof -
  let ?st = "lg_start s" and ?n = "dhead_n (disk s) (lg_start s)"
  have sz: "unat ?st < disksize s" "lg_dev s = 1" using g by (auto simp: log_geom_def)
  obtain s1 f where s1: "read_head s = Done () s1" "quiet s1" "bview s1 = bview s" "dirty_secs s1 = {}" "disk s1 = disk s" "dwrites s1 = dwrites s"
    "bc_frame (s\<lparr>lh_n := ?n, lh_sector := f\<rparr>) s1" and f: "\<And>k. k < nat ?n \<Longrightarrow> f k = dhead_sec (disk s) ?st k"
    using read_head_ok [OF q c sz] by blast
  note f1 = log_more_cong [OF s1(7), simplified]
  have "log_geom (s\<lparr>lh_n := ?n, lh_sector := f\<rparr>)"
    using log_geom_sectors_cong [of "s\<lparr>lh_n := ?n, lh_sector := dhead_sec (disk s) ?st\<rparr>" f] g f by simp
  then have g1: "log_geom s1" using log_frame(1) [OF s1(7)] by simp
  have "\<exists>t. kfor install_one [0..<nat ?n] s1 = Done () t \<and> quiet t \<and> dirty_secs t = dirty_secs s1 - lh_sector s1 ` set [0..<nat ?n] \<and> bc_frame s1 t \<and>
     (let ws = map (\<lambda>k. (lh_sector s1 k, bview s1 (logblk s1 k))) [0..<nat ?n]
      in bview t = apply_ws ws (bview s1) \<and> disk t = apply_ws ws (disk s1) \<and> dwrites t = dwrites s1 @ ws)"
    by (rule install_loop) (use s1 g1 f1 in \<open>auto simp: room_def NBUF_def\<close>)
  moreover have bd: "bview s = disk s" using quiet_clean [OF q] c by (simp add: fun_eq_iff)
  define ws where "ws = map (\<lambda>k. (dhead_sec (disk s) ?st k, disk s (?st + of_nat k + 1))) [0..<nat ?n]"
  have "map (\<lambda>k. (lh_sector s1 k, bview s1 (logblk s1 k))) [0..<nat ?n] = ws"
    using f by (simp add: ws_def f1 s1(3) bd logblk_def)
  ultimately obtain s2 where s2: "install_trans s1 = Done () s2" "quiet s2" "dirty_secs s2 = {}" "bc_frame s1 s2"
    "bview s2 = apply_ws ws (disk s)" "disk s2 = apply_ws ws (disk s)" "dwrites s2 = dwrites s @ ws"
    unfolding install_trans_def Let_def f1 by (auto simp: s1 bd)
  note f2 = log_more_cong [OF s2(4), unfolded f1]
  let ?s2 = "s2\<lparr>lh_n := 0\<rparr>"
  have cc: "quiet ?s2" "dirty_secs ?s2 = {}" "bview ?s2 = bview s2" "disk ?s2 = disk s2" "dwrites ?s2 = dwrites s2"
    using cache_cong [of ?s2 s2] s2(2,3) by simp_all
  have g2: "log_geom ?s2" using g f2 by (simp add: log_geom_def)
  have "?st \<notin> fst ` set ws"
  proof
    assume "?st \<in> fst ` set ws"
    then obtain k where k: "k < nat ?n" "?st = dhead_sec (disk s) ?st k" by (auto simp: ws_def)
    then show False using log_geomD(4) [OF g, of k] by simp
  qed
  then have h2: "head_blk (lh_n ?s2) (lh_sector ?s2) (bview ?s2 (lg_start ?s2)) = put32l (disk s ?st) 0 0"
    by (simp add: cc(3) s2(5) f2 apply_ws_other head_blk_0)
  have c2: "card (dirty_secs ?s2) < NBUF" "lg_start ?s2 \<notin> dirty_secs ?s2" using cc(2) by (simp_all add: NBUF_def)
  obtain t where t: "write_head ?s2 = Done () t" "quiet t" "dirty_secs t = dirty_secs ?s2" "bc_frame ?s2 t"
    "disk t = (disk ?s2)(lg_start ?s2 := put32l (disk s ?st) 0 0)" "dwrites t = dwrites ?s2 @ [(lg_start ?s2, put32l (disk s ?st) 0 0)]"
    using write_head_ok [OF cc(1) g2 c2, unfolded h2] by metis
  have "recover_from_log s = Done () t" using s1(1) s2(1) t(1) by (simp add: recover_from_log_def)
  moreover have "disk t = apply_ws (recover_ws (disk s) ?st) (disk s)" "dwrites t = dwrites s @ recover_ws (disk s) ?st"
    using t(5,6) s2(6,7) f2 by (simp_all add: recover_ws_def ws_def)
  ultimately show ?thesis
    using that t(2,3) cc(2) log_more_cong [OF t(4)] f2 by simp
qed

section \<open>Crashes\<close>

definition sb_start :: "(uint \<Rightarrow> blk) \<Rightarrow> uint" where
  "sb_start d = get32l (d 1) 0 - get32l (d 1) 12"

definition disk_geom :: "(uint \<Rightarrow> blk) \<Rightarrow> uint \<Rightarrow> nat \<Rightarrow> bool" where
  "disk_geom d st sz \<longleftrightarrow> 0 \<le> dhead_n d st \<and> dhead_n d st < LOGSIZE \<and> 1 < sz \<and> unat st + 30 \<le> sz \<and> sz \<le> 2 ^ 31 \<and>
     (\<forall>k < nat (dhead_n d st). unat (dhead_sec d st k) < sz \<and>
        \<not> (unat st \<le> unat (dhead_sec d st k) \<and> unat (dhead_sec d st k) < unat st + 30))"

lemma binit_more [simp]: "bcache_state.more (binit s) = bcache_state.more s" "dwrites (binit s) = dwrites s"
  by (simp_all add: binit_def Let_def)

lemma binit_quiet:
  assumes "bufs_zero s"
  shows "quiet (binit s)" "dirty_secs (binit s) = {}" "bview (binit s) = disk s"
proof -
  note f = binit_fields [OF assms]
  show q: "quiet (binit s)" "dirty_secs (binit s) = {}"
    using binit_inv [OF assms] f by (auto simp: quiet_def busy_bufs_def dirty_secs_def)
  show "bview (binit s) = disk s" using quiet_clean [OF q(1)] q(2) by (simp add: fun_eq_iff)
qed

lemma boot_ok:
  assumes z: "bufs_zero r" and g: "disk_geom (disk r) st (disksize r)" and st: "st = sb_start (disk r)"
  obtains t where "initlog (binit r) = Done () t" "quiet t" "dirty_secs t = {}" "lh_n t = 0"
    "lg_start t = st" "lg_dev t = 1" "disksize t = disksize r" "lg_size t = sint (get32l (disk r 1) 12)"
    "lg_outstanding t = lg_outstanding r" "lg_committing t = lg_committing r"
    "disk t = apply_ws (recover_ws (disk r) st) (disk r)" "dwrites t = dwrites r @ recover_ws (disk r) st"
proof -
  note q = binit_quiet [OF z]
  have c0: "card (dirty_secs (binit r)) < NBUF" "1 < disksize (binit r)" using q(2) g by (simp_all add: NBUF_def disk_geom_def)
  obtain s1 where s1: "readsb 1 (binit r) = Done \<lparr>sb_size = get32l (bview (binit r) 1) 0, sb_nblocks = get32l (bview (binit r) 1) 4,
      sb_ninodes = get32l (bview (binit r) 1) 8, sb_nlog = get32l (bview (binit r) 1) 12\<rparr> s1"
    "quiet s1" "bview s1 = bview (binit r)" "dirty_secs s1 = dirty_secs (binit r)" "disk s1 = disk (binit r)" "dwrites s1 = dwrites (binit r)"
    "bc_frame (binit r) s1" by (rule readsb_ok [OF q(1) c0])
  define s2 where "s2 = s1\<lparr>lg_start := st, lg_size := sint (get32l (disk r 1) 12), lg_dev := 1\<rparr>"
  have cc: "quiet s2" "dirty_secs s2 = {}" "disk s2 = disk r" "dwrites s2 = dwrites r" "lg_start s2 = st" "lg_dev s2 = 1" "disksize s2 = disksize r"
    using cache_cong [of s2 s1] s1 q(2) by (simp_all add: s2_def bc_frame_def)
  have "log_geom (s2\<lparr>lh_n := dhead_n (disk s2) (lg_start s2), lh_sector := dhead_sec (disk s2) (lg_start s2)\<rparr>)"
    using g by (simp add: log_geom_def disk_geom_def cc)
  from recover_ok [OF cc(1,2) this] obtain t where t: "recover_from_log s2 = Done () t" "quiet t" "dirty_secs t = {}" "lh_n t = 0"
    "lg_start t = lg_start s2" "lg_dev t = lg_dev s2" "disksize t = disksize s2"
    "lg_size t = lg_size s2" "lg_outstanding t = lg_outstanding s2" "lg_committing t = lg_committing s2"
    "disk t = apply_ws (recover_ws (disk s2) (lg_start s2)) (disk s2)" "dwrites t = dwrites s2 @ recover_ws (disk s2) (lg_start s2)" by metis
  have "bc_frame r s1" using s1(7) by (simp add: bc_frame_def)
  note fr = log_more_cong [OF this]
  have fs: "lg_size s2 = sint (get32l (disk r 1) 12)" "lg_outstanding s2 = lg_outstanding r" "lg_committing s2 = lg_committing r"
    using fr by (simp_all add: s2_def)
  have "initlog (binit r) = recover_from_log s2"
    using s1(1) by (simp add: initlog_def LOGSIZE_def BSIZE_def ROOTDEV_def s2_def st sb_start_def q(3))
  then show ?thesis using that t cc fs by simp
qed

text \<open>
  The disks a crash can leave: the old contents, the new contents, or a committed log whose installation is not finished.
\<close>

definition crash_inv :: "'x log_state_scheme \<Rightarrow> (uint \<Rightarrow> blk) \<Rightarrow> bool" where
  "crash_inv s d \<longleftrightarrow> d 1 = disk s 1 \<and> length (d (lg_start s)) = BSIZE \<and>
     (dhead_n d (lg_start s) = 0 \<and> (\<forall>x. \<not> log_area s x \<longrightarrow> d x = disk s x) \<or>
      dhead_n d (lg_start s) = 0 \<and> (\<forall>x. \<not> log_area s x \<longrightarrow> d x = bview s x) \<or>
      d (lg_start s) = commit_head s \<and> (\<forall>k < nat (lh_n s). d (logblk s k) = bview s (lh_sector s k)) \<and>
      (\<forall>x. \<not> log_area s x \<longrightarrow> x \<notin> dirty_secs s \<longrightarrow> d x = bview s x))"

definition sb_ok :: "'x log_state_scheme \<Rightarrow> bool" where
  "sb_ok s \<longleftrightarrow> lg_start s = sb_start (disk s) \<and> 1 < unat (lg_start s) \<and> 1 \<notin> dirty_secs s"

lemma sb_sector:
  assumes "sb_ok s"
  shows "\<not> log_area s 1" "lg_start s \<noteq> 1"
  using assms by (auto simp: sb_ok_def log_area_def)

lemma dhead_clear: "length (d st) = BSIZE \<Longrightarrow> dhead_n (d(st := put32l (d st) 0 0)) st = 0"
  by (simp add: dhead_n_def BSIZE_def)

lemma log_area_start: "log_area s (lg_start s)"
  by (simp add: log_area_def)

lemma commit_head_read:
  assumes "log_ready s"
  shows "length (commit_head s) = BSIZE" "sint (get32l (commit_head s) 0) = lh_n s"
    "\<And>k. k < nat (lh_n s) \<Longrightarrow> get32l (commit_head s) (4 + 4 * k) = lh_sector s k"
proof -
  have "length (disk s (lg_start s)) = BSIZE" "0 \<le> lh_n s" "lh_n s < LOGSIZE"
    using assms by (simp_all add: log_ready_def log_geom_def)
  note h = head_blk_get [OF this]
  show "sint (get32l (commit_head s) 0) = lh_n s" using h(1) by (simp add: commit_head_def)
  show "get32l (commit_head s) (4 + 4 * k) = lh_sector s k" if "k < nat (lh_n s)" for k using h(2) [OF that] by (simp add: commit_head_def)
  show "length (commit_head s) = BSIZE" using assms by (simp add: commit_head_def log_ready_def)
qed

lemma recover_ws_committed:
  assumes r: "log_ready s" and d: "d (lg_start s) = commit_head s" "\<forall>k < nat (lh_n s). d (logblk s k) = bview s (lh_sector s k)"
  shows "recover_ws d (lg_start s) = commit_home s @ [(lg_start s, put32l (commit_head s) 0 0)]"
proof -
  note h = commit_head_read [OF r]
  have "dhead_n d (lg_start s) = lh_n s" using h(2) d(1) by (simp add: dhead_n_def)
  moreover have "dhead_sec d (lg_start s) k = lh_sector s k \<and> d (lg_start s + of_nat k + 1) = bview s (lh_sector s k)" if "k < nat (lh_n s)" for k
    using h(3) [OF that] d that by (simp add: dhead_sec_def logblk_def)
  ultimately show ?thesis using d(1) by (simp add: recover_ws_def commit_home_def)
qed

lemma commit_home_sectors: "log_ready s \<Longrightarrow> fst ` set (commit_home s) = dirty_secs s"
  by (auto simp: commit_home_def log_ready_def image_image atLeast0LessThan)

lemma take_subset_fst: "x \<notin> fst ` set ws \<Longrightarrow> x \<notin> fst ` set (take j ws)"
  using set_take_subset [of j ws] by auto

lemma dirty_home:
  assumes "log_ready s" "x \<in> dirty_secs s"
  shows "\<not> log_area s x"
proof -
  obtain k where k: "k < nat (lh_n s)" "x = lh_sector s k" using assms by (auto simp: log_ready_def)
  have "\<forall>k < nat (lh_n s). unat (lh_sector s k) < disksize s \<and>
        \<not> (unat (lg_start s) \<le> unat (lh_sector s k) \<and> unat (lh_sector s k) < unat (lg_start s) + 30)"
    using assms(1) by (simp add: log_ready_def log_geom_def)
  then show ?thesis using k by (simp add: log_area_def)
qed

lemma logblk_area:
  assumes "log_geom s" "k < nat (lh_n s)"
  shows "log_area s (logblk s k)"
proof -
  have "nat (lh_n s) < 30" using assms(1) by (auto simp: log_geom_def LOGSIZE_def)
  then show ?thesis using unat_logblk [OF assms] assms(2) by (simp add: log_area_def)
qed

text \<open>Installing part of a committed transaction, or all of it and clearing the header, keeps the invariant.\<close>

lemma crash_inv_install:
  assumes r: "log_ready s" and sb: "sb_ok s" and d1: "d 1 = disk s 1"
    and h: "d (lg_start s) = commit_head s" and b: "\<forall>k < nat (lh_n s). d (logblk s k) = bview s (lh_sector s k)"
    and o: "\<forall>x. \<not> log_area s x \<longrightarrow> x \<notin> dirty_secs s \<longrightarrow> d x = bview s x"
  shows "crash_inv s (apply_ws (take j (recover_ws d (lg_start s))) d)"
proof (cases "j \<le> length (commit_home s)")
  case True
  let ?d = "apply_ws (take j (recover_ws d (lg_start s))) d"
  have ws: "take j (recover_ws d (lg_start s)) = take j (commit_home s)" using True by (simp add: recover_ws_committed [OF r h b])
  have same: "?d x = d x" if "x \<notin> dirty_secs s" for x
    unfolding ws by (rule apply_ws_other [OF take_subset_fst]) (use that commit_home_sectors [OF r] in simp)
  have "1 \<notin> dirty_secs s" using sb by (simp add: sb_ok_def)
  then show ?thesis
    unfolding crash_inv_def using same d1 h b o log_readyD(4,5) [OF r] commit_head_read(1) [OF r] by simp
next
  case False
  let ?e = "apply_ws (commit_home s) d"
  have "take j (recover_ws d (lg_start s)) = recover_ws d (lg_start s)" using False by (simp add: recover_ws_committed [OF r h b])
  then have ws: "apply_ws (take j (recover_ws d (lg_start s))) d = ?e(lg_start s := put32l (commit_head s) 0 0)"
    by (simp add: recover_ws_committed [OF r h b])
  have same: "?e x = d x" if "x \<notin> dirty_secs s" for x
    by (rule apply_ws_other) (use that commit_home_sectors [OF r] in simp)
  have new: "?e x = bview s x" if "x \<in> dirty_secs s" for x
    unfolding commit_home_def by (rule apply_ws_map) (use that r in \<open>auto simp: log_ready_def\<close>)
  have hs: "?e (lg_start s) = commit_head s" using same [OF log_readyD(4) [OF r]] h by simp
  have "1 \<notin> dirty_secs s" using sb by (simp add: sb_ok_def)
  moreover have "?e x = bview s x" if "\<not> log_area s x" for x using same [of x] new [of x] o that by (cases "x \<in> dirty_secs s") simp_all
  moreover have "dhead_n (?e(lg_start s := put32l (commit_head s) 0 0)) (lg_start s) = 0"
    using dhead_clear [of ?e "lg_start s"] commit_head_read(1) [OF r] hs by simp
  ultimately show ?thesis
    unfolding ws crash_inv_def using d1 same [of 1] sb_sector [OF sb] commit_head_read(1) [OF r] log_area_start [of s] by auto
qed

lemma crash_inv_recover:
  assumes r: "log_ready s" and sb: "sb_ok s" and c: "crash_inv s d"
  shows "crash_inv s (apply_ws (take j (recover_ws d (lg_start s))) d)"
proof (cases "dhead_n d (lg_start s) = 0")
  case True
  let ?st = "lg_start s"
  have rw: "recover_ws d ?st = [(?st, put32l (d ?st) 0 0)]" by (simp add: recover_ws_def True)
  have l: "length (d ?st) = BSIZE" using c by (simp add: crash_inv_def)
  show ?thesis
  proof (cases j)
    case 0
    then show ?thesis using c by simp
  next
    case (Suc i)
    have "(\<forall>x. \<not> log_area s x \<longrightarrow> d x = disk s x) \<or> (\<forall>x. \<not> log_area s x \<longrightarrow> d x = bview s x)"
    proof (rule ccontr)
      assume n: "\<not> ?thesis"
      then have "d ?st = commit_head s" "\<forall>x. \<not> log_area s x \<longrightarrow> x \<notin> dirty_secs s \<longrightarrow> d x = bview s x"
        using c by (auto simp: crash_inv_def)
      moreover have "lh_n s = 0" using calculation(1) commit_head_read(2) [OF r] True by (simp add: dhead_n_def)
      then have "dirty_secs s = {}" using r by (simp add: log_ready_def)
      ultimately show False using n by simp
    qed
    moreover have "apply_ws (take j (recover_ws d ?st)) d = d(?st := put32l (d ?st) 0 0)" by (simp add: rw Suc)
    moreover have "d 1 = disk s 1" using c by (simp add: crash_inv_def)
    ultimately show ?thesis
      unfolding crash_inv_def using dhead_clear [of d ?st, OF l] l sb_sector [OF sb] log_area_start [of s] by auto
  qed
next
  case False
  then show ?thesis using c by (intro crash_inv_install [OF r sb]) (auto simp: crash_inv_def)
qed

lemma crash_inv_commit:
  assumes r: "log_ready s" and sb: "sb_ok s" and n: "0 < lh_n s"
  shows "crash_inv s (apply_ws (take m (commit_ws s)) (disk s))"
proof -
  let ?st = "lg_start s"
  note g = log_readyD(2) [OF r]
  have cl: "apply_ws (take i (commit_log s)) (disk s) x = disk s x" if "x = ?st \<or> \<not> log_area s x" for i x
    by (rule apply_ws_other [OF commit_log_other [OF g]]) (use that in blast)
  show ?thesis
  proof (cases "m \<le> length (commit_log s)")
    case True
    then have "take m (commit_ws s) = take m (commit_log s)" by (simp add: commit_ws_def)
    then show ?thesis using cl [of _ m] sb_sector [OF sb] r
      by (auto simp: crash_inv_def dhead_n_def log_ready_def)
  next
    case False
    then obtain j where m: "m = length (commit_log s) + Suc j" by (metis add_Suc_right less_imp_Suc_add not_le)
    let ?d = "(apply_ws (commit_log s) (disk s))(?st := commit_head s)"
    have c: "apply_ws (commit_log s) (disk s) x = disk s x" if "x = ?st \<or> \<not> log_area s x" for x
      using cl [OF that, of "length (commit_log s)"] by simp
    have b: "\<forall>k < nat (lh_n s). ?d (logblk s k) = bview s (lh_sector s k)"
      using commit_log_block [OF g] log_geomD(3) [OF g] by simp
    have "recover_ws ?d ?st = commit_home s @ [(?st, put32l (commit_head s) 0 0)]"
      by (rule recover_ws_committed [OF r _ b]) simp
    then have "apply_ws (take m (commit_ws s)) (disk s) = apply_ws (take j (recover_ws ?d ?st)) ?d"
      by (simp add: commit_ws_def m head_blk_0)
    moreover have "crash_inv s (apply_ws (take j (recover_ws ?d ?st)) ?d)"
    proof (rule crash_inv_install [OF r sb _ _ b])
      show "?d 1 = disk s 1" using c [of 1] sb_sector [OF sb] by simp
      show "\<forall>x. \<not> log_area s x \<longrightarrow> x \<notin> dirty_secs s \<longrightarrow> ?d x = bview s x"
        using c log_area_start [of s] quiet_clean [OF log_readyD(1) [OF r]] by auto
    qed simp
    ultimately show ?thesis by simp
  qed
qed

lemma crash_inv_self: "log_ready s \<Longrightarrow> crash_inv s (disk s)"
  by (simp add: crash_inv_def log_ready_def dhead_n_def)

text \<open>
  The disks that crashes of the machine can leave behind: after some of the sector writes of the commit, and then
  any number of times after some of the sector writes of the recovery at the next boot.
\<close>

inductive crash_disk :: "'x log_state_scheme \<Rightarrow> (uint \<Rightarrow> blk) \<Rightarrow> bool" for s :: "'x log_state_scheme" where
  cd_commit: "commit s = Done () t \<Longrightarrow> dwrites t = dwrites s @ ws \<Longrightarrow> crash_disk s (apply_ws (take m ws) (disk s))"
| cd_boot: "crash_disk s (disk r) \<Longrightarrow> bufs_zero (r :: 'x log_state_scheme) \<Longrightarrow> disksize r = disksize s \<Longrightarrow> initlog (binit r) = Done () t \<Longrightarrow>
    dwrites t = dwrites r @ ws \<Longrightarrow> crash_disk s (apply_ws (take m ws) (disk r))"

lemma crash_inv_geom:
  assumes r: "log_ready s" and sb: "sb_ok s" and c: "crash_inv s d"
  shows "disk_geom d (lg_start s) (disksize s)" "lg_start s = sb_start d"
proof -
  have d1: "d 1 = disk s 1" using c by (simp add: crash_inv_def)
  show "lg_start s = sb_start d" using sb d1 by (simp add: sb_ok_def sb_start_def)
  have g: "log_geom s" using r by (simp add: log_ready_def)
  show "disk_geom d (lg_start s) (disksize s)"
  proof (cases "dhead_n d (lg_start s) = 0")
    case True
    then show ?thesis using g sb by (auto simp: disk_geom_def log_geom_def sb_ok_def LOGSIZE_def)
  next
    case False
    then have h: "d (lg_start s) = commit_head s" using c by (auto simp: crash_inv_def)
    have n: "dhead_n d (lg_start s) = lh_n s" using commit_head_read(2) [OF r] h by (simp add: dhead_n_def)
    have "dhead_sec d (lg_start s) k = lh_sector s k" if "k < nat (lh_n s)" for k
      using commit_head_read(3) [OF r that] h by (simp add: dhead_sec_def)
    then show ?thesis using g sb n by (auto simp: disk_geom_def log_geom_def sb_ok_def)
  qed
qed

lemma boot_after_crash:
  assumes r: "log_ready s" and sb: "sb_ok s" and c: "crash_inv s (disk q)" and q: "bufs_zero q" "disksize q = disksize s"
  obtains t where "initlog (binit q) = Done () t" "quiet t" "dirty_secs t = {}" "lh_n t = 0"
    "lg_start t = lg_start s" "lg_dev t = 1" "disksize t = disksize s"
    "disk t = apply_ws (recover_ws (disk q) (lg_start s)) (disk q)" "dwrites t = dwrites q @ recover_ws (disk q) (lg_start s)"
proof -
  note g = crash_inv_geom [OF r sb c]
  from boot_ok [OF q(1) g(1) [folded q(2)] g(2)] that q(2) show ?thesis by metis
qed

lemma crash_disk_inv:
  assumes "crash_disk s d" "log_ready s" "sb_ok s"
  shows "crash_inv s d"
  using assms
proof (induction rule: crash_disk.induct)
  case (cd_commit t ws m)
  show ?case
  proof (cases "0 < lh_n s")
    case True
    obtain t' where "commit s = Done () t'" "dwrites t' = dwrites s @ commit_ws s" using commit_ok [OF cd_commit(3) True] by metis
    then have "ws = commit_ws s" using cd_commit by simp
    then show ?thesis using crash_inv_commit [OF cd_commit(3,4) True] by simp
  next
    case False
    then have "ws = []" using cd_commit by (auto simp: commit_def)
    then show ?thesis using crash_inv_self [OF cd_commit(3)] by simp
  qed
next
  case (cd_boot r t ws m)
  have c: "crash_inv s (disk r)" by (rule cd_boot.IH [OF cd_boot.prems])
  obtain t' where "initlog (binit r) = Done () t'" "dwrites t' = dwrites r @ recover_ws (disk r) (lg_start s)"
    using boot_after_crash [OF cd_boot.prems c cd_boot.hyps(2,3)] by metis
  then have "ws = recover_ws (disk r) (lg_start s)" using cd_boot.hyps(4,5) by simp
  then show ?case using crash_inv_recover [OF cd_boot.prems c] by simp
qed

text \<open>
  C1. A file system transaction is atomic. Whatever prefix of the sector writes of commit reached the disk, and however
  often the recovery itself was cut short, the next boot reaches a log that is empty and ready, and outside the log area the
  disk has either all the contents it had before the transaction or all those the transaction made.
\<close>

theorem commit_crash_atomic:
  assumes "log_ready s" "sb_ok s" "crash_disk s (disk q)" "bufs_zero q" "disksize q = disksize s"
  shows "\<exists>t. initlog (binit q) = Done () t \<and> log_ready t \<and> lh_n t = 0 \<and>
     ((\<forall>x. \<not> log_area s x \<longrightarrow> disk t x = disk s x) \<or> (\<forall>x. \<not> log_area s x \<longrightarrow> disk t x = bview s x))"
proof -
  let ?st = "lg_start s" and ?ws = "recover_ws (disk q) (lg_start s)"
  have c: "crash_inv s (disk q)" by (rule crash_disk_inv [OF assms(3,1,2)])
  obtain t where t: "initlog (binit q) = Done () t" "quiet t" "dirty_secs t = {}" "lh_n t = 0"
    "lg_start t = ?st" "lg_dev t = 1" "disksize t = disksize s" "disk t = apply_ws ?ws (disk q)"
    by (rule boot_after_crash [OF assms(1,2) c assms(4,5)])
  have ct: "crash_inv s (disk t)"
    using crash_inv_recover [OF assms(1,2) c, of "length ?ws"] by (simp add: t(8))
  have "disk t ?st = put32l (disk q ?st) 0 0" by (simp add: t(8) recover_ws_def)
  moreover have "length (disk q ?st) = BSIZE" using c by (simp add: crash_inv_def)
  ultimately have h: "length (disk t ?st) = BSIZE" "sint (get32l (disk t ?st) 0) = 0" by (simp_all add: BSIZE_def)
  have "log_geom t" using assms(1) t by (simp add: log_ready_def log_geom_def LOGSIZE_def)
  then have "log_ready t" using t h by (simp add: log_ready_def)
  moreover have "(\<forall>x. \<not> log_area s x \<longrightarrow> disk t x = disk s x) \<or> (\<forall>x. \<not> log_area s x \<longrightarrow> disk t x = bview s x)"
  proof (rule ccontr)
    assume n: "\<not> ?thesis"
    then have "disk t ?st = commit_head s" "\<forall>x. \<not> log_area s x \<longrightarrow> x \<notin> dirty_secs s \<longrightarrow> disk t x = bview s x"
      using ct by (auto simp: crash_inv_def)
    moreover have "lh_n s = 0" using calculation(1) commit_head_read(2) [OF assms(1)] h(2) by simp
    then have "dirty_secs s = {}" using assms(1) by (simp add: log_ready_def)
    ultimately show False using n by simp
  qed
  ultimately show ?thesis using t(1,4) by blast
qed

section \<open>Updates inside a transaction\<close>

text \<open>The way the file system updates a sector: read, change the data, log_write, release.\<close>

definition log_put :: "uint \<Rightarrow> blk \<Rightarrow> 'x log_state_scheme \<Rightarrow> (unit, 'x log_state_scheme) kres" where
  "log_put sec d s = kbind (bread 1 sec s) (\<lambda>i s1. kbind (log_write i (set_data i d s1)) (\<lambda>_ s2. brelse i s2))"

definition logged :: "'x log_state_scheme \<Rightarrow> uint list" where
  "logged s = map (lh_sector s) [0..<nat (lh_n s)]"

definition log_open :: "'x log_state_scheme \<Rightarrow> bool" where
  "log_open s \<longleftrightarrow> 0 \<le> lh_n s \<and> lh_n s < lg_size s - 1 \<and> lg_size s \<le> LOGSIZE \<and> 1 \<le> lg_outstanding s"

lemma logged_absorb:
  fixes sec :: uint
  assumes n: "0 \<le> lh_n s"
  defines "i \<equiv> (case find_idx (\<lambda>k. lh_sector s k = sec) [0..<nat (lh_n s)] of Some k \<Rightarrow> k | None \<Rightarrow> nat (lh_n s))"
  shows "int i = lh_n s \<longleftrightarrow> sec \<notin> set (logged s)"
    "map ((lh_sector s)(i := sec)) [0..<nat (if int i = lh_n s then lh_n s + 1 else lh_n s)] =
       (if sec \<in> set (logged s) then logged s else logged s @ [sec])"
proof -
  have a: "i = nat (lh_n s) \<and> sec \<notin> set (logged s) \<or> i < nat (lh_n s) \<and> sec \<in> set (logged s) \<and> lh_sector s i = sec"
  proof (cases "find_idx (\<lambda>k. lh_sector s k = sec) [0..<nat (lh_n s)]")
    case None
    then have "i = nat (lh_n s)" unfolding i_def None by simp
    moreover have "sec \<notin> set (logged s)" using None by (auto simp: logged_def)
    ultimately show ?thesis by simp
  next
    case (Some k)
    then have "i = k" unfolding i_def by simp
    moreover have "k < nat (lh_n s)" "lh_sector s k = sec" using Some by (auto simp: find_idx_Some)
    ultimately show ?thesis by (auto simp: logged_def)
  qed
  then show "int i = lh_n s \<longleftrightarrow> sec \<notin> set (logged s)" using n by auto
  from a show "map ((lh_sector s)(i := sec)) [0..<nat (if int i = lh_n s then lh_n s + 1 else lh_n s)] =
       (if sec \<in> set (logged s) then logged s else logged s @ [sec])"
  proof
    assume i: "i = nat (lh_n s) \<and> sec \<notin> set (logged s)"
    have "nat (lh_n s + 1) = Suc (nat (lh_n s))" using n by simp
    then show ?thesis using i n by (simp add: logged_def)
  next
    assume i: "i < nat (lh_n s) \<and> sec \<in> set (logged s) \<and> lh_sector s i = sec"
    then have "(lh_sector s)(i := sec) = lh_sector s" by auto
    moreover have "int i \<noteq> lh_n s" using i by auto
    ultimately show ?thesis using i by (simp add: logged_def)
  qed
qed

lemma log_write_ok:
  assumes o: "log_open s" and inv: "bc_inv s" and h: "held s b sec"
  obtains t where "log_write b s = Done () t" "bc_inv t" "held t b sec" "bview t = bview s" "busy_bufs t = busy_bufs s"
    "dirty_secs t = insert sec (dirty_secs s)" "disk t = disk s" "dwrites t = dwrites s" "disksize t = disksize s"
    "logged t = (if sec \<in> set (logged s) then logged s else logged s @ [sec])" "lh_n t = int (length (logged t))"
    "lg_start t = lg_start s" "lg_size t = lg_size s" "lg_outstanding t = lg_outstanding s" "lg_committing t = lg_committing s" "lg_dev t = lg_dev s"
    "log_state.more t = log_state.more s"
proof -
  define i where "i = (case find_idx (\<lambda>k. lh_sector s k = sec) [0..<nat (lh_n s)] of Some k \<Rightarrow> k | None \<Rightarrow> nat (lh_n s))"
  define n where "n = (if int i = lh_n s then lh_n s + 1 else lh_n s)"
  define t where "t = upd_buf b (\<lambda>b. b\<lparr>b_dirty := True\<rparr>) (s\<lparr>lh_n := n, lh_sector := (lh_sector s)(i := sec)\<rparr>)"
  have b: "b < NBUF" "b_busy (buf_at s b)" "b_valid (buf_at s b)" "b_dev (buf_at s b) = 1" "b_sector (buf_at s b) = sec"
    using h by (simp_all add: held_def)
  have bl: "b < length (bufs s)" using b(1) bc_length [OF inv] by simp
  have o': "0 \<le> lh_n s" "lh_n s < LOGSIZE" "lh_n s < lg_size s - 1" "\<not> lg_outstanding s < 1" using o by (auto simp: log_open_def)
  note ab = logged_absorb [OF o'(1), of sec, folded i_def]
  have r: "log_write b s = Done () t" using o' b(5) by (simp add: log_write_def Let_def t_def n_def i_def)
  have it: "bc_inv t"
    by (rule bc_inv_flags [OF inv b(1), where b = "(buf_at s b)\<lparr>b_dirty := True\<rparr>" and d = "disk s"])
      (use b in \<open>simp_all add: t_def buf_ok_def\<close>)
  have f: "b_valid (buf_at t j) = b_valid (buf_at s j)" "b_busy (buf_at t j) = b_busy (buf_at s j)" "b_dev (buf_at t j) = b_dev (buf_at s j)"
      "b_sector (buf_at t j) = b_sector (buf_at s j)" "b_data (buf_at t j) = b_data (buf_at s j)"
      "b_dirty (buf_at t j) = (j = b \<or> b_dirty (buf_at s j))" for j
    using bl by (auto simp: t_def nth_upd)
  have "bview t x = bview s x" for x
  proof (rule bview_eqI [OF it])
    show "b_data (buf_at t j) = bview s x" if "j < NBUF" "b_valid (buf_at t j)" "b_sector (buf_at t j) = x" for j
      using that bview_cached [OF inv that(1)] bc_inv_bufD(1) [OF inv that(1)] unfolding f by simp
    assume nn: "\<And>j. j < NBUF \<Longrightarrow> b_valid (buf_at t j) \<Longrightarrow> b_sector (buf_at t j) \<noteq> x"
    have "bview s x = disk s x" by (rule bview_uncached [OF inv]) (use nn [unfolded f] in blast)
    then show "disk t x = bview s x" by (simp add: t_def)
  qed
  then have bv: "bview t = bview s" by (rule ext)
  have ht: "held t b sec" using b by (simp add: held_def f)
  have bd: "busy_bufs t = busy_bufs s" "dirty_secs t = insert sec (dirty_secs s)"
    using b by (auto simp: busy_bufs_def dirty_secs_def f)
  have nt: "lh_n t = n" "lh_sector t = (lh_sector s)(i := sec)" by (simp_all add: t_def upd_buf_def)
  have lg: "logged t = (if sec \<in> set (logged s) then logged s else logged s @ [sec])"
    using ab(2) unfolding logged_def [of t] nt n_def .
  have ln: "lh_n t = int (length (logged t))" using o'(1) by (simp add: logged_def nt n_def)
  show ?thesis
    by (rule that [OF r it ht bv bd _ _ _ lg ln]) (simp_all add: t_def upd_buf_def)
qed

lemma log_geom_logged:
  "log_geom s \<longleftrightarrow> lg_dev s = 1 \<and> 0 \<le> lh_n s \<and> lh_n s < LOGSIZE \<and> unat (lg_start s) + 30 \<le> disksize s \<and> disksize s \<le> 2 ^ 31 \<and>
     (\<forall>x \<in> set (logged s). unat x < disksize s \<and> \<not> log_area s x)"
  by (auto simp: log_geom_def logged_def log_area_def)

text \<open>A logged update of any sector; the log keeps its invariant when the sector is not one of its own.\<close>

lemma log_put_any:
  assumes r: "log_ready s" and o: "log_open s" and sec: "unat sec < disksize s"
  obtains i s1 s2 t where "bread 1 sec s = Done i s1" "b_data (buf_at s1 i) = bview s sec"
    "log_write i (set_data i d s1) = Done () s2" "brelse i s2 = Done () t"
    "\<not> log_area s sec \<Longrightarrow> log_ready t" "bview t = (bview s)(sec := d)" "disk t = disk s" "dwrites t = dwrites s" "disksize t = disksize s"
    "logged t = (if sec \<in> set (logged s) then logged s else logged s @ [sec])"
    "lg_start t = lg_start s" "lg_size t = lg_size s" "lg_outstanding t = lg_outstanding s" "lg_committing t = lg_committing s"
    "log_state.more t = log_state.more s" "bc_frame s s1"
proof -
  note rd = log_readyD [OF r]
  obtain i s1 where s1: "bread 1 sec s = Done i s1" "bc_inv s1" "held s1 i sec" "bview s1 = bview s" "disk s1 = disk s" "bc_frame s s1"
    "b_data (buf_at s1 i) = bview s sec" "busy_bufs s1 = {i}" "dirty_secs s1 = dirty_secs s" "dwrites s1 = dwrites s"
    by (rule read_release [OF rd(1,6) sec])
  note sd = set_data_view [OF s1(2,3), where d = d]
  let ?s = "set_data i d s1"
  have fs: "bc_frame s ?s" using s1(6) sd(10) by (rule bc_frame_trans)
  note f = log_more_cong [OF fs]
  have lo: "log_open ?s" "logged ?s = logged s" using o f by (simp_all add: log_open_def logged_def)
  obtain s2 where s2: "log_write i ?s = Done () s2" "bc_inv s2" "held s2 i sec" "bview s2 = bview ?s" "busy_bufs s2 = busy_bufs ?s"
    "dirty_secs s2 = insert sec (dirty_secs ?s)" "disk s2 = disk ?s" "dwrites s2 = dwrites ?s" "disksize s2 = disksize ?s"
    "logged s2 = (if sec \<in> set (logged ?s) then logged ?s else logged ?s @ [sec])" "lh_n s2 = int (length (logged s2))"
    "lg_start s2 = lg_start ?s" "lg_size s2 = lg_size ?s" "lg_outstanding s2 = lg_outstanding ?s" "lg_committing s2 = lg_committing ?s" "lg_dev s2 = lg_dev ?s"
    "log_state.more s2 = log_state.more ?s"
    by (rule log_write_ok [OF lo(1) sd(1,2)])
  have dc: "sec \<in> dirty_secs s2 \<or> bview s2 sec = disk s2 sec" "busy_bufs s2 = {i}" using s2(5,6) sd(4) s1(8) by auto
  obtain t where t: "brelse i s2 = Done () t" "quiet t" "bview t = bview s2" "dirty_secs t = dirty_secs s2" "disk t = disk s2"
    "dwrites t = dwrites s2" "bc_frame s2 t" by (rule brelse_quiet [OF s2(2,3) dc])
  note ft = log_more_cong [OF t(7)]
  have "logged t = logged s2" unfolding logged_def ft by (rule refl)
  then have lt: "logged t = (if sec \<in> set (logged s) then logged s else logged s @ [sec])" using s2(10) unfolding lo(2) by simp
  have ln: "int (length (logged s)) = lh_n s" using o by (simp add: logged_def log_open_def)
  have lg: "lh_n t < LOGSIZE" "0 \<le> lh_n t" using s2(11) ft lo(2) s2(10) ln o by (auto simp: log_open_def)
  have "log_geom t" if na: "\<not> log_area s sec"
    using na rd(2) lg sec lt ft s2(9,12,16) f unfolding log_geom_logged by (auto simp: log_area_def)
  moreover have "dirty_secs t = lh_sector t ` {..<nat (lh_n t)}"
  proof -
    have "dirty_secs t = insert sec (dirty_secs s)" using t(4) s2(6) sd(5) s1(9) by simp
    also have "dirty_secs s = set (logged s)" using r by (auto simp: log_ready_def logged_def atLeast0LessThan)
    also have "insert sec (set (logged s)) = set (logged t)" using lt by auto
    also have "\<dots> = lh_sector t ` {..<nat (lh_n t)}" by (auto simp: logged_def atLeast0LessThan)
    finally show ?thesis .
  qed
  ultimately have "log_ready t" if "\<not> log_area s sec" using that r t(2,5) s2(7) sd(8) s1(5) ft s2(12) f by (simp add: log_ready_def)
  moreover have "log_state.more ?s = log_state.more s" using fs by (cases s, cases ?s) (simp add: bc_frame_def)
  moreover have "log_state.more t = log_state.more s2" using t(7) by (cases t, cases s2) (simp add: bc_frame_def)
  ultimately show ?thesis
    using that [of i s1 s2 t] s1 s2 t sd lt ft f by simp
qed

lemma log_put_ok:
  assumes r: "log_ready s" and o: "log_open s" and sec: "unat sec < disksize s" "\<not> log_area s sec"
  obtains i s1 s2 t where "bread 1 sec s = Done i s1" "b_data (buf_at s1 i) = bview s sec"
    "log_write i (set_data i d s1) = Done () s2" "brelse i s2 = Done () t"
    "log_ready t" "bview t = (bview s)(sec := d)" "disk t = disk s" "dwrites t = dwrites s" "disksize t = disksize s"
    "logged t = (if sec \<in> set (logged s) then logged s else logged s @ [sec])"
    "lg_start t = lg_start s" "lg_size t = lg_size s" "lg_outstanding t = lg_outstanding s" "lg_committing t = lg_committing s"
    "log_state.more t = log_state.more s" "bc_frame s s1"
  by (rule log_put_any [OF r o sec(1), of d]) (use that sec(2) in blast)

lemma wakeup_log [simp]:
  fixes s :: "'x log_state_scheme"
  shows "bufs (wakeup c s) = bufs s" "disk (wakeup c s) = disk s" "dwrites (wakeup c s) = dwrites s" "disksize (wakeup c s) = disksize s"
    "lg_start (wakeup c s) = lg_start s" "lg_size (wakeup c s) = lg_size s" "lg_outstanding (wakeup c s) = lg_outstanding s"
    "lg_committing (wakeup c s) = lg_committing s" "lg_dev (wakeup c s) = lg_dev s" "lh_n (wakeup c s) = lh_n s" "lh_sector (wakeup c s) = lh_sector s"
  by (simp_all add: wakeup_def wakeup1_def)

lemma log_ready_cong:
  assumes "log_ready s" "bufs t = bufs s" "disk t = disk s" "disksize t = disksize s" "lg_start t = lg_start s" "lg_dev t = lg_dev s"
    "lh_n t = lh_n s" "lh_sector t = lh_sector s"
  shows "log_ready t"
  using assms cache_cong [OF assms(2,3)] by (simp add: log_ready_def log_geom_def)

text \<open>
  C2. The last end_op of a group makes the group's updates durable: it returns with an empty log, every sector outside
  the log area has on the disk the content the group's operations saw in the cache, and every process that waits in begin_op is woken.
\<close>

theorem end_op_durable:
  assumes r: "log_ready s" and o: "lg_outstanding s = 1" "\<not> lg_committing s"
  shows "\<exists>t. end_op s = Done () t \<and> log_ready t \<and> lh_n t = 0 \<and> lg_outstanding t = 0 \<and> \<not> lg_committing t \<and>
     no_sleeper ChanLog t \<and> (\<forall>x. \<not> log_area s x \<longrightarrow> disk t x = bview s x \<and> bview t x = bview s x)"
proof -
  let ?s = "s\<lparr>lg_outstanding := 0, lg_committing := True\<rparr>"
  have cc: "bview ?s = bview s" "dirty_secs ?s = dirty_secs s" using cache_cong [of ?s s] by simp_all
  have rs: "log_ready ?s" by (rule log_ready_cong [OF r]) simp_all
  have ar: "log_area ?s = log_area s" by (simp add: log_area_def fun_eq_iff)
  have "\<exists>u. commit ?s = Done () u \<and> log_ready u \<and> lh_n u = 0 \<and> lg_outstanding u = 0 \<and>
     (\<forall>x. \<not> log_area s x \<longrightarrow> disk u x = bview s x \<and> bview u x = bview s x)"
  proof (cases "0 < lh_n s")
    case True
    then have n: "0 < lh_n ?s" by simp
    obtain u where u: "commit ?s = Done () u" "quiet u" "dirty_secs u = {}" "lh_n u = 0"
      "disk u = apply_ws (commit_ws ?s) (disk ?s)" "bc_frame (?s\<lparr>lh_n := 0\<rparr>) u"
      using commit_ok [OF rs n] by metis
    note fu = log_more_cong [OF u(6), simplified]
    note rd = log_readyD [OF rs]
    let ?d = "(apply_ws (commit_log ?s) (disk ?s))(lg_start ?s := commit_head ?s)"
    have b: "\<forall>k < nat (lh_n ?s). ?d (logblk ?s k) = bview ?s (lh_sector ?s k)"
      using commit_log_block [OF rd(2)] log_geomD(3) [OF rd(2)] by simp
    have rc: "recover_ws ?d (lg_start ?s) = commit_home ?s @ [(lg_start ?s, put32l (commit_head ?s) 0 0)]"
      by (rule recover_ws_committed [OF rs _ b]) simp
    have du: "disk u = (apply_ws (commit_home ?s) ?d)(lg_start ?s := put32l (commit_head ?s) 0 0)"
      by (simp add: u(5) commit_ws_def head_blk_0)
    have "disk u x = bview s x" if x: "\<not> log_area s x" for x
    proof -
      have xs: "x \<noteq> lg_start s" using x log_area_start [of s] by auto
      have "apply_ws (commit_home ?s) ?d x = bview ?s x"
        unfolding commit_home_def
      proof (rule apply_ws_map)
        have "x \<in> dirty_secs ?s \<or> x \<notin> dirty_secs ?s" by blast
        then show "x \<in> lh_sector ?s ` set [0..<nat (lh_n ?s)] \<or> ?d x = bview ?s x"
        proof
          assume "x \<in> dirty_secs ?s"
          then show ?thesis using rs by (simp add: log_ready_def atLeast0LessThan)
        next
          assume nd: "x \<notin> dirty_secs ?s"
          have "x \<notin> fst ` set (commit_log ?s)"
            using commit_log_other [OF rd(2), of x "length (commit_log ?s)"] x ar by simp
          then show ?thesis using quiet_clean [OF rd(1) nd] xs by (simp add: apply_ws_other)
        qed
      qed simp
      then show ?thesis using xs by (simp add: du cc)
    qed
    moreover have "bview u = disk u" using quiet_clean [OF u(2)] u(3) by (simp add: fun_eq_iff)
    moreover have "log_ready u"
      using rs u(2-4) commit_head_read(1) [OF rs] fu by (simp add: log_ready_def log_geom_def du LOGSIZE_def BSIZE_def)
    ultimately show ?thesis using u(1,4) fu by auto
  next
    case False
    then have n: "lh_n s = 0" using r by (simp add: log_ready_def log_geom_def)
    then have "dirty_secs s = {}" using r by (simp add: log_ready_def)
    then have "disk s x = bview s x" for x using quiet_clean [OF log_readyD(1) [OF r]] by simp
    then show ?thesis using n rs cc by (simp add: commit_def)
  qed
  then obtain u where u: "commit ?s = Done () u" "log_ready u" "lh_n u = 0" "lg_outstanding u = 0"
    "\<And>x. \<not> log_area s x \<Longrightarrow> disk u x = bview s x \<and> bview u x = bview s x" by blast
  let ?t = "wakeup ChanLog (u\<lparr>lg_committing := False\<rparr>)"
  have "end_op s = Done () ?t" using o u(1) by (simp add: end_op_def Let_def)
  moreover have "log_ready ?t" by (rule log_ready_cong [OF u(2)]) simp_all
  moreover have "bview ?t = bview u" by (rule cache_cong) simp_all
  ultimately show ?thesis using u by simp
qed

text \<open>
  C12. Between begin_op and end_op, reading a sector, changing it, log_write and brelse change exactly that sector of the cache's content and
  nothing on the disk; the sector is in the log once, however often it is written.
\<close>

theorem log_put_absorbs:
  assumes "log_ready s" "log_open s" "unat sec < disksize s" "\<not> log_area s sec"
  shows "\<exists>t. log_put sec d s = Done () t \<and> log_ready t \<and> bview t = (bview s)(sec := d) \<and> disk t = disk s \<and> dwrites t = dwrites s \<and>
     logged t = (if sec \<in> set (logged s) then logged s else logged s @ [sec])"
proof -
  obtain i s1 s2 t where p: "bread 1 sec s = Done i s1" "log_write i (set_data i d s1) = Done () s2" "brelse i s2 = Done () t"
    "log_ready t" "bview t = (bview s)(sec := d)" "disk t = disk s" "dwrites t = dwrites s"
    "logged t = (if sec \<in> set (logged s) then logged s else logged s @ [sec])"
    using log_put_ok [OF assms, of d] by metis
  then have "log_put sec d s = Done () t" by (simp add: log_put_def)
  then show ?thesis using p by blast
qed

text \<open>
  C38. begin_op admits three operations of MAXOPBLOCKS blocks each, thirty blocks in all, but on the image mkfs makes (nlog = LOGSIZE) log_write
  stops the machine at the thirtieth distinct block: the log has room for twenty-nine.
\<close>

theorem begin_op_overcommits:
  assumes "lg_size s = LOGSIZE" "lh_n s = 0" "lg_outstanding s = 0" "\<not> lg_committing s"
  shows "\<exists>t. kbind (begin_op s) (\<lambda>_ s1. kbind (begin_op s1) (\<lambda>_ s2. begin_op s2)) = Done () t \<and>
     (\<forall>u b. lh_n u = lg_outstanding t * MAXOPBLOCKS - 1 \<and> lg_size u = lg_size t \<longrightarrow>
        log_write b (u :: 'x log_state_scheme) = Panic ''too big a transaction'')"
  using assms by (simp add: begin_op_def MAXOPBLOCKS_def LOGSIZE_def log_write_def)

section \<open>A concrete file system\<close>

text \<open>An image of 1024 sectors with its log in the last thirty, a machine booted from it, and a transaction that has written sector 100.\<close>

definition image_sample :: "uint \<Rightarrow> blk" where
  "image_sample = (\<lambda>_. replicate 512 0)(1 := put32l (put32l (replicate 512 0) 0 1024) 12 30)"

definition log_sample :: log_state where
  "log_sample = bcache_state.extend (bcache_sample\<lparr>disk := image_sample\<rparr>)
     \<lparr>lg_start = 0, lg_size = 0, lg_outstanding = 0, lg_committing = False, lg_dev = 0, lh_n = 0, lh_sector = (\<lambda>_. 0)\<rparr>"

definition boot_image :: "(uint \<Rightarrow> blk) \<Rightarrow> log_state" where
  "boot_image img = (case initlog (binit (log_sample\<lparr>disk := img\<rparr>)) of Done _ t \<Rightarrow> t | _ \<Rightarrow> log_sample)"

definition log_booted :: log_state where
  "log_booted = boot_image image_sample"

definition log_written :: log_state where
  "log_written = (case log_put 100 (replicate 512 7) (log_booted\<lparr>lg_outstanding := 1\<rparr>) of Done _ t \<Rightarrow> t | _ \<Rightarrow> log_sample)"

lemma log_sample_sel [simp]:
  "disk log_sample = image_sample" "disksize log_sample = 1024" "lg_outstanding log_sample = 0" "\<not> lg_committing log_sample"
  "bufs_zero (log_sample\<lparr>disk := d\<rparr>)" "bufs_zero log_sample"
  using bcache_sample_zero
  by (simp_all add: log_sample_def bcache_state.defs bufs_zero_def bcache_sample_def pipe_state.defs zero_buf_def)

lemma image_sample_sel:
  "get32l (image_sample 1) 0 = 1024" "get32l (image_sample 1) 12 = 30" "get32l (image_sample 994) 0 = 0" "length (image_sample x) = 512"
  by (simp_all add: image_sample_def get_put_other) (simp add: get32l_def)

lemma boot_image_ok:
  assumes "img 1 = image_sample 1" "img 994 = replicate 512 0"
  shows "log_ready (boot_image img)" "lg_start (boot_image img) = 994" "lg_size (boot_image img) = LOGSIZE" "lh_n (boot_image img) = 0"
    "lg_outstanding (boot_image img) = 0" "\<not> lg_committing (boot_image img)" "disksize (boot_image img) = 1024"
    "\<And>x. x \<noteq> 994 \<Longrightarrow> disk (boot_image img) x = img x" "length (disk (boot_image img) 994) = 512"
    "bview (boot_image img) = disk (boot_image img)"
proof -
  let ?r = "log_sample\<lparr>disk := img\<rparr>"
  have n: "dhead_n img 994 = 0" by (simp add: dhead_n_def assms(2) get32l_def)
  have g: "disk_geom (disk ?r) 994 (disksize ?r)" "994 = sb_start (disk ?r)"
    by (simp_all add: disk_geom_def n LOGSIZE_def sb_start_def assms(1) image_sample_sel)
  from boot_ok [OF log_sample_sel(5) g] obtain t where t: "initlog (binit ?r) = Done () t" "quiet t" "dirty_secs t = {}" "lh_n t = 0"
    "lg_start t = 994" "lg_dev t = 1" "disksize t = 1024" "lg_size t = sint (get32l (img 1) 12)" "lg_outstanding t = 0" "\<not> lg_committing t"
    "disk t = apply_ws (recover_ws (disk ?r) 994) (disk ?r)"
    using log_sample_sel by auto
  have b: "boot_image img = t" by (simp add: boot_image_def t(1))
  have d: "disk t = img(994 := put32l (replicate 512 0) 0 0)" by (simp add: t(11) recover_ws_def n assms(2))
  have "log_geom t" by (simp add: log_geom_def t LOGSIZE_def)
  then show "log_ready (boot_image img)" using t(1-10) d by (simp add: b log_ready_def BSIZE_def)
  show "lg_start (boot_image img) = 994" "lg_size (boot_image img) = LOGSIZE" "lh_n (boot_image img) = 0"
    "lg_outstanding (boot_image img) = 0" "\<not> lg_committing (boot_image img)" "disksize (boot_image img) = 1024"
    "\<And>x. x \<noteq> 994 \<Longrightarrow> disk (boot_image img) x = img x" "length (disk (boot_image img) 994) = 512"
    using t(1-10) d by (simp_all add: b assms(1) image_sample_sel LOGSIZE_def)
  show "bview (boot_image img) = disk (boot_image img)" using quiet_clean [OF t(2)] t(3) by (simp add: b fun_eq_iff)
qed

lemma image_sample_log: "image_sample 994 = replicate 512 0"
  by (simp add: image_sample_def)

lemmas log_booted_ok = boot_image_ok [OF refl image_sample_log, folded log_booted_def]

lemma log_booted_open:
  "log_ready (log_booted\<lparr>lg_outstanding := 1\<rparr>)" "log_open (log_booted\<lparr>lg_outstanding := 1\<rparr>)"
  "unat (100 :: uint) < disksize (log_booted\<lparr>lg_outstanding := 1\<rparr>)" "\<not> log_area (log_booted\<lparr>lg_outstanding := 1\<rparr>) 100"
proof -
  show "log_ready (log_booted\<lparr>lg_outstanding := 1\<rparr>)" by (rule log_ready_cong [OF log_booted_ok(1)]) simp_all
qed (simp_all add: log_open_def log_area_def log_booted_ok LOGSIZE_def)

lemma log_written_ok:
  "log_ready log_written" "sb_ok log_written" "lh_n log_written = 1" "lg_outstanding log_written = 1" "\<not> lg_committing log_written"
  "disksize log_written = 1024" "bview log_written 100 = replicate 512 7" "\<not> log_area log_written 100"
proof -
  let ?s = "log_booted\<lparr>lg_outstanding := 1\<rparr>"
  obtain i s1 s2 t where p: "bread 1 100 ?s = Done i s1" "log_write i (set_data i (replicate 512 7) s1) = Done () s2" "brelse i s2 = Done () t"
    "log_ready t" "bview t = (bview ?s)(100 := replicate 512 7)" "disk t = disk ?s" "disksize t = disksize ?s"
    "logged t = (if 100 \<in> set (logged ?s) then logged ?s else logged ?s @ [100])" "lg_start t = lg_start ?s"
    "lg_outstanding t = lg_outstanding ?s" "lg_committing t = lg_committing ?s"
    by (rule log_put_ok [OF log_booted_open, where d = "replicate 512 7"])
  have t: "log_written = t" by (simp add: log_written_def log_put_def p(1-3))
  have l: "logged t = [100]" using p(8) by (simp add: logged_def log_booted_ok)
  have n0: "0 \<le> lh_n t" using p(4) by (simp add: log_ready_def log_geom_def)
  have n: "lh_n t = 1" using arg_cong [OF l, of length] n0 by (simp add: logged_def)
  have "dirty_secs t = {100}" using p(4) arg_cong [OF l, of set] by (auto simp: log_ready_def logged_def atLeast0LessThan)
  then show "sb_ok log_written" by (simp add: t sb_ok_def p log_booted_ok sb_start_def image_sample_sel)
  show "log_ready log_written" "lh_n log_written = 1" "lg_outstanding log_written = 1" "\<not> lg_committing log_written"
    "disksize log_written = 1024" "bview log_written 100 = replicate 512 7" "\<not> log_area log_written 100"
    using p n by (simp_all add: t log_booted_ok log_area_def)
qed

theorem commit_crash_atomic_witness:
  "\<exists>t. initlog (binit (log_sample\<lparr>disk := apply_ws (take 2 (commit_ws log_written)) (disk log_written)\<rparr>)) = Done () t \<and> log_ready t \<and> lh_n t = 0 \<and>
     (disk t 100 = disk log_written 100 \<or> disk t 100 = replicate 512 7)"
proof -
  let ?q = "log_sample\<lparr>disk := apply_ws (take 2 (commit_ws log_written)) (disk log_written)\<rparr>"
  obtain t where "commit log_written = Done () t" "dwrites t = dwrites log_written @ commit_ws log_written"
    using commit_ok [OF log_written_ok(1)] log_written_ok(3) by (metis zero_less_one)
  then have "crash_disk log_written (disk ?q)" using cd_commit [of log_written t _ 2] by simp
  from commit_crash_atomic [OF log_written_ok(1,2) this] show ?thesis
    using log_written_ok(6-8) by auto
qed

theorem end_op_durable_witness:
  "\<exists>t. end_op log_written = Done () t \<and> lh_n t = 0 \<and> disk t 100 = replicate 512 7"
  using end_op_durable [OF log_written_ok(1,4,5)] log_written_ok(7,8) by auto

theorem log_put_absorbs_witness:
  "\<exists>t. log_put 100 (replicate 512 7) (log_booted\<lparr>lg_outstanding := 1\<rparr>) = Done () t \<and> logged t = [100]"
proof -
  have "logged (log_booted\<lparr>lg_outstanding := 1\<rparr>) = []" by (simp add: logged_def log_booted_ok)
  then show ?thesis using log_put_absorbs [OF log_booted_open, of "replicate 512 7"] by auto
qed

theorem begin_op_overcommits_witness:
  "\<exists>t. kbind (begin_op log_booted) (\<lambda>_ s1. kbind (begin_op s1) (\<lambda>_ s2. begin_op s2)) = Done () t \<and>
     log_write 0 (log_booted\<lparr>lh_n := lg_outstanding t * MAXOPBLOCKS - 1, lg_size := lg_size t\<rparr>) = Panic ''too big a transaction''"
proof -
  obtain t where t: "kbind (begin_op log_booted) (\<lambda>_ s1. kbind (begin_op s1) (\<lambda>_ s2. begin_op s2)) = Done () t"
    "\<And>u b. lh_n u = lg_outstanding t * MAXOPBLOCKS - 1 \<and> lg_size u = lg_size t \<Longrightarrow>
        log_write b (u :: log_state) = Panic ''too big a transaction''"
    using begin_op_overcommits [OF log_booted_ok(3-6)] by blast
  have "log_write 0 (log_booted\<lparr>lh_n := lg_outstanding t * MAXOPBLOCKS - 1, lg_size := lg_size t\<rparr>) = Panic ''too big a transaction''"
    by (rule t(2)) simp
  then show ?thesis using t(1) by blast
qed

end
