(* ===== verification/Fs.thy ===== *)
theory Fs
  imports Log Kstring
begin

text \<open>
  The file system (fs.c): allocation of blocks, inodes and their cache, the content of inodes, directories
  and path names. All of it works on buffers of the cache and hands every modified buffer to
  the log. An inode is named by its slot in the inode cache; the bytes that readi copies to \<open>dst\<close> are
  part of its result, and those that writei copies from \<open>src\<close> are an argument. The device switch table (devsw) is an argument of
  the operations that look into it. A path is the list of its bytes before the terminating NUL.
\<close>

section \<open>Layout\<close>

definition NINODE :: nat where "NINODE = 50"

definition NDEV :: int where "NDEV = 10"

definition ROOTINO :: uint where "ROOTINO = 1"

definition NDIRECT :: nat where "NDIRECT = 12"

definition NINDIRECT :: nat where "NINDIRECT = BSIZE div 4"

definition MAXFILE :: nat where "MAXFILE = NDIRECT + NINDIRECT"

definition IPB :: uint where "IPB = 8"

definition IBLOCK :: "uint \<Rightarrow> uint" where "IBLOCK i = i div IPB + 2"

definition BPB :: nat where "BPB = BSIZE * 8"

definition BBLOCK :: "uint \<Rightarrow> uint \<Rightarrow> uint" where "BBLOCK b ninodes = b div of_nat BPB + ninodes div IPB + 3"

definition DIRSIZ :: nat where "DIRSIZ = 14"

definition T_DIR :: ushort where "T_DIR = 1"

definition T_FILE :: ushort where "T_FILE = 2"

definition T_DEV :: ushort where "T_DEV = 3"

record dinode =
  di_type :: ushort
  di_major :: ushort
  di_minor :: ushort
  di_nlink :: ushort
  di_size :: uint
  di_addrs :: "uint list"

text \<open>Reading and writing the structure at byte \<open>o\<close> of a block.\<close>

definition get_dinode :: "blk \<Rightarrow> nat \<Rightarrow> dinode" where
  "get_dinode d p = \<lparr>di_type = get16l d p, di_major = get16l d (p + 2), di_minor = get16l d (p + 4), di_nlink = get16l d (p + 6),
     di_size = get32l d (p + 8), di_addrs = map (\<lambda>k. get32l d (p + 12 + 4 * k)) [0..<NDIRECT + 1]\<rparr>"

definition put_addrs :: "uint list \<Rightarrow> nat \<Rightarrow> blk \<Rightarrow> blk" where
  "put_addrs as p d = fold (\<lambda>k d. put32l d (p + 4 * k) (as ! k)) [0..<length as] d"

definition put_dinode :: "dinode \<Rightarrow> nat \<Rightarrow> blk \<Rightarrow> blk" where
  "put_dinode di p d = put_addrs (di_addrs di) (p + 12)
     (put32l (put16l (put16l (put16l (put16l d p (di_type di)) (p + 2) (di_major di)) (p + 4) (di_minor di))
        (p + 6) (di_nlink di)) (p + 8) (di_size di))"

definition dinode_off :: "uint \<Rightarrow> nat" where "dinode_off inum = unat (inum mod IPB) * 64"

record inode =
  i_dev :: uint
  i_inum :: uint
  i_ref :: int
  i_busy :: bool
  i_valid :: bool
  i_type :: ushort
  i_major :: ushort
  i_minor :: ushort
  i_nlink :: ushort
  i_size :: uint
  i_addrs :: "uint list"

record icache_state = log_state +
  inodes :: "inode list"

record 's devsw =
  dev_read :: "nat \<Rightarrow> (nat \<Rightarrow> uint \<Rightarrow> 's \<Rightarrow> (int \<times> uchar list, 's) kres) option"
  dev_write :: "nat \<Rightarrow> (nat \<Rightarrow> uchar list \<Rightarrow> 's \<Rightarrow> (int, 's) kres) option"

record stat =
  st_type :: ushort
  st_dev :: uint
  st_ino :: uint
  st_nlink :: ushort
  st_size :: uint

definition upd_inode :: "nat \<Rightarrow> (inode \<Rightarrow> inode) \<Rightarrow> 'x icache_state_scheme \<Rightarrow> 'x icache_state_scheme" where
  "upd_inode i f s = s\<lparr>inodes := (inodes s)[i := f (inodes s ! i)]\<rparr>"

abbreviation ino :: "'x icache_state_scheme \<Rightarrow> nat \<Rightarrow> inode" where
  "ino s i \<equiv> inodes s ! i"

section \<open>Blocks\<close>

definition bzero :: "uint \<Rightarrow> uint \<Rightarrow> 'x log_state_scheme \<Rightarrow> (unit, 'x log_state_scheme) kres" where
  "bzero dev bno s =
     kbind (bread dev bno s) (\<lambda>bp s1.
     kbind (log_write bp (set_data bp (replicate BSIZE 0) s1)) (\<lambda>_ s2. brelse bp s2))"

definition bit_mask :: "nat \<Rightarrow> uchar" where "bit_mask bi = push_bit (bi mod 8) 1"

definition bit_free :: "blk \<Rightarrow> nat \<Rightarrow> bool" where
  "bit_free d bi \<longleftrightarrow> and (d ! (bi div 8)) (bit_mask bi) = 0"

definition set_bit_in :: "nat \<Rightarrow> blk \<Rightarrow> blk" where
  "set_bit_in bi d = d[bi div 8 := or (d ! (bi div 8)) (bit_mask bi)]"

definition clear_bit_in :: "nat \<Rightarrow> blk \<Rightarrow> blk" where
  "clear_bit_in bi d = d[bi div 8 := and (d ! (bi div 8)) (not (bit_mask bi))]"

primrec balloc_loop :: "uint \<Rightarrow> superblock \<Rightarrow> nat list \<Rightarrow> 'x log_state_scheme \<Rightarrow> (uint, 'x log_state_scheme) kres" where
  "balloc_loop dev sb [] s = Panic ''balloc: out of blocks''"
| "balloc_loop dev sb (b # bs) s =
     kbind (bread dev (BBLOCK (of_nat b) (sb_ninodes sb)) s) (\<lambda>bp s1.
       (case find (bit_free (b_data (buf_at s1 bp))) [0..<min BPB (unat (sb_size sb) - b)] of
          Some bi \<Rightarrow>
            kbind (log_write bp (set_data bp (set_bit_in bi (b_data (buf_at s1 bp))) s1)) (\<lambda>_ s2.
            kbind (brelse bp s2) (\<lambda>_ s3.
            kbind (bzero dev (of_nat (b + bi)) s3) (\<lambda>_ s4. Done (of_nat (b + bi)) s4)))
        | None \<Rightarrow> kbind (brelse bp s1) (\<lambda>_ s2. balloc_loop dev sb bs s2)))"

definition balloc :: "uint \<Rightarrow> 'x log_state_scheme \<Rightarrow> (uint, 'x log_state_scheme) kres" where
  "balloc dev s =
     kbind (readsb dev s) (\<lambda>sb s1.
       balloc_loop dev sb (map (\<lambda>k. k * BPB) [0..<(unat (sb_size sb) + BPB - 1) div BPB]) s1)"

definition bfree :: "uint \<Rightarrow> uint \<Rightarrow> 'x log_state_scheme \<Rightarrow> (unit, 'x log_state_scheme) kres" where
  "bfree dev b s =
     kbind (readsb dev s) (\<lambda>sb s1.
     kbind (bread dev (BBLOCK b (sb_ninodes sb)) s1) (\<lambda>bp s2.
       let bi = unat b mod BPB
       in if bit_free (b_data (buf_at s2 bp)) bi then Panic ''freeing free block''
          else kbind (log_write bp (set_data bp (clear_bit_in bi (b_data (buf_at s2 bp))) s2)) (\<lambda>_ s3. brelse bp s3)))"

section \<open>Inodes\<close>

definition iget :: "uint \<Rightarrow> uint \<Rightarrow> 'x icache_state_scheme \<Rightarrow> (nat, 'x icache_state_scheme) kres" where
  "iget dev inum s =
     (case find_idx (\<lambda>ip. i_ref ip > 0 \<and> i_dev ip = dev \<and> i_inum ip = inum) (inodes s) of
        Some i \<Rightarrow> Done i (upd_inode i (\<lambda>ip. ip\<lparr>i_ref := i_ref ip + 1\<rparr>) s)
      | None \<Rightarrow>
          (case find_idx (\<lambda>ip. i_ref ip = 0) (inodes s) of
             None \<Rightarrow> Panic ''iget: no inodes''
           | Some i \<Rightarrow> Done i (upd_inode i (\<lambda>ip. ip\<lparr>i_dev := dev, i_inum := inum, i_ref := 1,
                                               i_busy := False, i_valid := False\<rparr>) s)))"

primrec ialloc_loop :: "uint \<Rightarrow> ushort \<Rightarrow> nat list \<Rightarrow> 'x icache_state_scheme \<Rightarrow> (nat, 'x icache_state_scheme) kres" where
  "ialloc_loop dev ty [] s = Panic ''ialloc: no inodes''"
| "ialloc_loop dev ty (n # ns) s =
     (let inum = of_nat n in
      kbind (bread dev (IBLOCK inum) s) (\<lambda>bp s1.
        let d = b_data (buf_at s1 bp); p = dinode_off inum
        in if get16l d p = 0 then
             kbind (log_write bp (set_data bp (put16l (putbl d p (replicate 64 0)) p ty) s1)) (\<lambda>_ s2.
             kbind (brelse bp s2) (\<lambda>_ s3. iget dev inum s3))
           else kbind (brelse bp s1) (\<lambda>_ s2. ialloc_loop dev ty ns s2)))"

definition ialloc :: "uint \<Rightarrow> ushort \<Rightarrow> 'x icache_state_scheme \<Rightarrow> (nat, 'x icache_state_scheme) kres" where
  "ialloc dev ty s =
     kbind (readsb dev s) (\<lambda>sb s1. ialloc_loop dev ty [1..<unat (sb_ninodes sb)] s1)"

definition iupdate :: "nat \<Rightarrow> 'x icache_state_scheme \<Rightarrow> (unit, 'x icache_state_scheme) kres" where
  "iupdate i s =
     kbind (bread (i_dev (ino s i)) (IBLOCK (i_inum (ino s i))) s) (\<lambda>bp s1.
        let ip = ino s1 i;
            di = \<lparr>di_type = i_type ip, di_major = i_major ip, di_minor = i_minor ip, di_nlink = i_nlink ip,
                  di_size = i_size ip, di_addrs = i_addrs ip\<rparr>
        in kbind (log_write bp (set_data bp (put_dinode di (dinode_off (i_inum ip)) (b_data (buf_at s1 bp))) s1)) (\<lambda>_ s2.
           brelse bp s2))"

definition idup :: "nat \<Rightarrow> 'x icache_state_scheme \<Rightarrow> (nat, 'x icache_state_scheme) kres" where
  "idup i s = Done i (upd_inode i (\<lambda>ip. ip\<lparr>i_ref := i_ref ip + 1\<rparr>) s)"

definition ilock :: "nat \<Rightarrow> 'x icache_state_scheme \<Rightarrow> (unit, 'x icache_state_scheme) kres" where
  "ilock i s =
     (if i_ref (ino s i) < 1 then Panic ''ilock''
      else if i_busy (ino s i) then sleep_on (ChanInode i) s
      else let s1 = upd_inode i (\<lambda>ip. ip\<lparr>i_busy := True\<rparr>) s
           in if i_valid (ino s1 i) then Done () s1
              else kbind (bread (i_dev (ino s1 i)) (IBLOCK (i_inum (ino s1 i))) s1) (\<lambda>bp s2.
                let di = get_dinode (b_data (buf_at s2 bp)) (dinode_off (i_inum (ino s2 i)));
                    s3 = upd_inode i (\<lambda>ip. ip\<lparr>i_type := di_type di, i_major := di_major di, i_minor := di_minor di,
                           i_nlink := di_nlink di, i_size := di_size di, i_addrs := di_addrs di\<rparr>) s2
                in kbind (brelse bp s3) (\<lambda>_ s4.
                   let s5 = upd_inode i (\<lambda>ip. ip\<lparr>i_valid := True\<rparr>) s4
                   in if i_type (ino s5 i) = 0 then Panic ''ilock: no type'' else Done () s5)))"

definition iunlock :: "nat \<Rightarrow> 'x icache_state_scheme \<Rightarrow> (unit, 'x icache_state_scheme) kres" where
  "iunlock i s =
     (if \<not> i_busy (ino s i) \<or> i_ref (ino s i) < 1 then Panic ''iunlock''
      else Done () (wakeup (ChanInode i) (upd_inode i (\<lambda>ip. ip\<lparr>i_busy := False\<rparr>) s)))"

section \<open>Content of inodes\<close>

text \<open>balloc on the state with the inode cache, and the address it stores.\<close>

definition bmap_alloc :: "nat \<Rightarrow> nat \<Rightarrow> 'x icache_state_scheme \<Rightarrow> (uint, 'x icache_state_scheme) kres" where
  "bmap_alloc i k s =
     (if i_addrs (ino s i) ! k = 0 then
        kbind (balloc (i_dev (ino s i)) s) (\<lambda>addr s1.
          Done addr (upd_inode i (\<lambda>ip. ip\<lparr>i_addrs := (i_addrs ip)[k := addr]\<rparr>) s1))
      else Done (i_addrs (ino s i) ! k) s)"

definition bmap :: "nat \<Rightarrow> nat \<Rightarrow> 'x icache_state_scheme \<Rightarrow> (uint, 'x icache_state_scheme) kres" where
  "bmap i bn s =
     (if bn < NDIRECT then bmap_alloc i bn s
      else let bn = bn - NDIRECT in
        if bn < NINDIRECT then
          kbind (bmap_alloc i NDIRECT s) (\<lambda>addr s1.
          kbind (bread (i_dev (ino s1 i)) addr s1) (\<lambda>bp s2.
            let addr = get32l (b_data (buf_at s2 bp)) (4 * bn)
            in if addr = 0 then
                 kbind (balloc (i_dev (ino s2 i)) s2) (\<lambda>addr s3.
                 kbind (log_write bp (set_data bp (put32l (b_data (buf_at s3 bp)) (4 * bn) addr) s3)) (\<lambda>_ s4.
                 kbind (brelse bp s4) (\<lambda>_ s5. Done addr s5)))
               else kbind (brelse bp s2) (\<lambda>_ s3. Done addr s3)))
        else Panic ''bmap: out of range'')"

definition itrunc_direct :: "nat \<Rightarrow> nat \<Rightarrow> 'x icache_state_scheme \<Rightarrow> (unit, 'x icache_state_scheme) kres" where
  "itrunc_direct i k s =
     (if i_addrs (ino s i) ! k \<noteq> 0 then
        kbind (bfree (i_dev (ino s i)) (i_addrs (ino s i) ! k) s) (\<lambda>_ s1.
          Done () (upd_inode i (\<lambda>ip. ip\<lparr>i_addrs := (i_addrs ip)[k := 0]\<rparr>) s1))
      else Done () s)"

definition itrunc_indirect :: "nat \<Rightarrow> nat \<Rightarrow> nat \<Rightarrow> 'x icache_state_scheme \<Rightarrow> (unit, 'x icache_state_scheme) kres" where
  "itrunc_indirect i bp j s =
     (let a = get32l (b_data (buf_at s bp)) (4 * j)
      in if a \<noteq> 0 then bfree (i_dev (ino s i)) a s else Done () s)"

definition itrunc :: "nat \<Rightarrow> 'x icache_state_scheme \<Rightarrow> (unit, 'x icache_state_scheme) kres" where
  "itrunc i s =
     kbind (kfor (itrunc_direct i) [0..<NDIRECT] s) (\<lambda>_ s1.
     kbind (if i_addrs (ino s1 i) ! NDIRECT \<noteq> 0 then
              kbind (bread (i_dev (ino s1 i)) (i_addrs (ino s1 i) ! NDIRECT) s1) (\<lambda>bp s2.
              kbind (kfor (itrunc_indirect i bp) [0..<NINDIRECT] s2) (\<lambda>_ s3.
              kbind (brelse bp s3) (\<lambda>_ s4.
              kbind (bfree (i_dev (ino s4 i)) (i_addrs (ino s4 i) ! NDIRECT) s4) (\<lambda>_ s5.
                Done () (upd_inode i (\<lambda>ip. ip\<lparr>i_addrs := (i_addrs ip)[NDIRECT := 0]\<rparr>) s5)))))
            else Done () s1) (\<lambda>_ s6.
     iupdate i (upd_inode i (\<lambda>ip. ip\<lparr>i_size := 0\<rparr>) s6)))"

definition iput :: "nat \<Rightarrow> 'x icache_state_scheme \<Rightarrow> (unit, 'x icache_state_scheme) kres" where
  "iput i s =
     kbind (if i_ref (ino s i) = 1 \<and> i_valid (ino s i) \<and> i_nlink (ino s i) = 0 then
              if i_busy (ino s i) then Panic ''iput busy''
              else kbind (itrunc i (upd_inode i (\<lambda>ip. ip\<lparr>i_busy := True\<rparr>) s)) (\<lambda>_ s1.
                   kbind (iupdate i (upd_inode i (\<lambda>ip. ip\<lparr>i_type := 0\<rparr>) s1)) (\<lambda>_ s2.
                     Done () (wakeup (ChanInode i) (upd_inode i (\<lambda>ip. ip\<lparr>i_busy := False, i_valid := False\<rparr>) s2))))
            else Done () s) (\<lambda>_ s3.
     Done () (upd_inode i (\<lambda>ip. ip\<lparr>i_ref := i_ref ip - 1\<rparr>) s3))"

definition iunlockput :: "nat \<Rightarrow> 'x icache_state_scheme \<Rightarrow> (unit, 'x icache_state_scheme) kres" where
  "iunlockput i s = kbind (iunlock i s) (\<lambda>_ s1. iput i s1)"

definition stati :: "nat \<Rightarrow> 'x icache_state_scheme \<Rightarrow> stat" where
  "stati i s = (let ip = ino s i in
     \<lparr>st_type = i_type ip, st_dev = i_dev ip, st_ino = i_inum ip, st_nlink = i_nlink ip, st_size = i_size ip\<rparr>)"

function readi_loop :: "nat \<Rightarrow> nat \<Rightarrow> nat \<Rightarrow> 'x icache_state_scheme \<Rightarrow> (uchar list, 'x icache_state_scheme) kres" where
  "readi_loop i off n s =
     (if n = 0 then Done [] s
      else kbind (bmap i (off div BSIZE) s) (\<lambda>addr s1.
           kbind (bread (i_dev (ino s1 i)) addr s1) (\<lambda>bp s2.
             let m = min n (BSIZE - off mod BSIZE);
                 c = getbl (b_data (buf_at s2 bp)) (off mod BSIZE) m
             in kbind (brelse bp s2) (\<lambda>_ s3.
                kbind (readi_loop i (off + m) (n - m) s3) (\<lambda>cs s4. Done (c @ cs) s4)))))"
  by pat_completeness auto
termination
  by (relation "measure (\<lambda>(i, off, n, s). n)") (auto simp: BSIZE_def)

definition readi :: "'x icache_state_scheme devsw \<Rightarrow> nat \<Rightarrow> uint \<Rightarrow> uint \<Rightarrow> 'x icache_state_scheme \<Rightarrow>
    (int \<times> uchar list, 'x icache_state_scheme) kres" where
  "readi dv i off n s =
     (let ip = ino s i in
      if i_type ip = T_DEV then
        (if sint (i_major ip) < 0 \<or> sint (i_major ip) \<ge> NDEV then Done (-1, []) s
         else case dev_read dv (unat (i_major ip)) of None \<Rightarrow> Done (-1, []) s | Some rd \<Rightarrow> rd i n s)
      else if off > i_size ip \<or> off + n < off then Done (-1, []) s
      else let n = (if off + n > i_size ip then i_size ip - off else n)
           in kbind (readi_loop i (unat off) (unat n) s) (\<lambda>bs s1. Done (sint n, bs) s1))"

function writei_loop :: "nat \<Rightarrow> uchar list \<Rightarrow> nat \<Rightarrow> 'x icache_state_scheme \<Rightarrow> (unit, 'x icache_state_scheme) kres" where
  "writei_loop i src off s =
     (if src = [] then Done () s
      else kbind (bmap i (off div BSIZE) s) (\<lambda>addr s1.
           kbind (bread (i_dev (ino s1 i)) addr s1) (\<lambda>bp s2.
             let m = min (length src) (BSIZE - off mod BSIZE)
             in kbind (log_write bp (set_data bp (putbl (b_data (buf_at s2 bp)) (off mod BSIZE) (take m src)) s2)) (\<lambda>_ s3.
                kbind (brelse bp s3) (\<lambda>_ s4. writei_loop i (drop m src) (off + m) s4)))))"
  by pat_completeness auto
termination
  by (relation "measure (\<lambda>(i, src, off, s). length src)") (auto simp: BSIZE_def)

definition writei :: "'x icache_state_scheme devsw \<Rightarrow> nat \<Rightarrow> uchar list \<Rightarrow> uint \<Rightarrow> uint \<Rightarrow> 'x icache_state_scheme \<Rightarrow>
    (int, 'x icache_state_scheme) kres" where
  "writei dv i src off n s =
     (let ip = ino s i in
      if i_type ip = T_DEV then
        (if sint (i_major ip) < 0 \<or> sint (i_major ip) \<ge> NDEV then Done (-1) s
         else case dev_write dv (unat (i_major ip)) of None \<Rightarrow> Done (-1) s | Some wr \<Rightarrow> wr i (take (unat n) src) s)
      else if off > i_size ip \<or> off + n < off then Done (-1) s
      else if unat (off + n) > MAXFILE * BSIZE then Done (-1) s
      else kbind (writei_loop i (take (unat n) src) (unat off) s) (\<lambda>_ s1.
           kbind (if n > 0 \<and> off + n > i_size (ino s1 i) then iupdate i (upd_inode i (\<lambda>ip. ip\<lparr>i_size := off + n\<rparr>) s1)
                  else Done () s1) (\<lambda>_ s2. Done (sint n) s2)))"

section \<open>Directories\<close>

definition namecmp :: "cptr \<Rightarrow> cptr \<Rightarrow> int" where
  "namecmp s t = strncmp s t DIRSIZ"

text \<open>A C string in memory, from the list of its bytes.\<close>

definition cstr :: "uchar list \<Rightarrow> cptr" where
  "cstr l = (\<lambda>i. if i < length l then l ! i else 0)"

definition de_inum :: "uchar list \<Rightarrow> ushort" where "de_inum e = get16l e 0"

definition de_name :: "uchar list \<Rightarrow> cptr" where "de_name e = (\<lambda>i. e ! (2 + i))"

primrec dirlookup_loop :: "'x icache_state_scheme devsw \<Rightarrow> nat \<Rightarrow> cptr \<Rightarrow> nat list \<Rightarrow> 'x icache_state_scheme \<Rightarrow>
    ((nat \<times> uint) option, 'x icache_state_scheme) kres" where
  "dirlookup_loop dv dp name [] s = Done None s"
| "dirlookup_loop dv dp name (off # offs) s =
     kbind (readi dv dp (of_nat off) 16 s) (\<lambda>(r, de) s1.
       if r \<noteq> 16 then Panic ''dirlink read''
       else if de_inum de = 0 then dirlookup_loop dv dp name offs s1
       else if namecmp name (de_name de) = 0 then
         kbind (iget (i_dev (ino s1 dp)) (ucast (de_inum de)) s1) (\<lambda>ip s2. Done (Some (ip, of_nat off)) s2)
       else dirlookup_loop dv dp name offs s1)"

text \<open>The offsets \<open>off = 0; off < size; off += sizeof(de)\<close>.\<close>

definition dir_offs :: "uint \<Rightarrow> nat list" where
  "dir_offs sz = map (\<lambda>k. 16 * k) [0..<(unat sz + 15) div 16]"

definition dirlookup :: "'x icache_state_scheme devsw \<Rightarrow> nat \<Rightarrow> cptr \<Rightarrow> 'x icache_state_scheme \<Rightarrow>
    ((nat \<times> uint) option, 'x icache_state_scheme) kres" where
  "dirlookup dv dp name s =
     (if i_type (ino s dp) \<noteq> T_DIR then Panic ''dirlookup not DIR''
      else dirlookup_loop dv dp name (dir_offs (i_size (ino s dp))) s)"

primrec dirlink_loop :: "'x icache_state_scheme devsw \<Rightarrow> nat \<Rightarrow> nat list \<Rightarrow> nat \<Rightarrow> 'x icache_state_scheme \<Rightarrow>
    (nat, 'x icache_state_scheme) kres" where
  "dirlink_loop dv dp [] fin s = Done fin s"
| "dirlink_loop dv dp (off # offs) fin s =
     kbind (readi dv dp (of_nat off) 16 s) (\<lambda>(r, de) s1.
       if r \<noteq> 16 then Panic ''dirlink read''
       else if de_inum de = 0 then Done off s1
       else dirlink_loop dv dp offs (off + 16) s1)"

definition dirlink :: "'x icache_state_scheme devsw \<Rightarrow> nat \<Rightarrow> cptr \<Rightarrow> uint \<Rightarrow> 'x icache_state_scheme \<Rightarrow>
    (int, 'x icache_state_scheme) kres" where
  "dirlink dv dp name inum s =
     kbind (dirlookup dv dp name s) (\<lambda>r s1.
       (case r of
          Some (ip, _) \<Rightarrow> kbind (iput ip s1) (\<lambda>_ s2. Done (-1) s2)
        | None \<Rightarrow>
            kbind (dirlink_loop dv dp (dir_offs (i_size (ino s1 dp))) 0 s1) (\<lambda>off s2.
              let nm = strncpy (\<lambda>_. 0) name (int DIRSIZ);
                  de = put16l (replicate 2 0) 0 (ucast inum) @ map nm [0..<DIRSIZ]
              in kbind (writei dv dp de (of_nat off) 16 s2) (\<lambda>w s3.
                 if w \<noteq> 16 then Panic ''dirlink'' else Done 0 s3))))"

section \<open>Paths\<close>

definition slash :: uchar where "slash = 0x2F"

definition skipelem :: "uchar list \<Rightarrow> cptr \<Rightarrow> (uchar list \<times> cptr) option" where
  "skipelem path name =
     (let p = dropWhile (\<lambda>c. c = slash) path
      in if p = [] then None
         else let e = takeWhile (\<lambda>c. c \<noteq> slash) p;
                  rest = dropWhile (\<lambda>c. c \<noteq> slash) p;
                  name' = (if length e \<ge> DIRSIZ then (\<lambda>i. if i < DIRSIZ then e ! i else name i)
                           else (\<lambda>i. if i < length e then e ! i else if i = length e then 0 else name i))
              in Some (dropWhile (\<lambda>c. c = slash) rest, name'))"

lemma skipelem_shorter:
  assumes "skipelem path name = Some (rest, name')"
  shows "length rest < length path"
proof -
  let ?p = "dropWhile (\<lambda>c. c = slash) path"
  have p: "?p \<noteq> []" and r: "rest = dropWhile (\<lambda>c. c = slash) (dropWhile (\<lambda>c. c \<noteq> slash) ?p)"
    using assms by (auto simp: skipelem_def Let_def split: if_splits)
  have "length rest \<le> length (dropWhile (\<lambda>c. c \<noteq> slash) ?p)" unfolding r by (rule length_dropWhile_le)
  also have "\<dots> < length ?p"
  proof -
    obtain c cs where c: "?p = c # cs" using p by (cases ?p) auto
    then have "c \<noteq> slash" using hd_dropWhile [OF p] by simp
    then have "dropWhile (\<lambda>c. c \<noteq> slash) ?p = dropWhile (\<lambda>c. c \<noteq> slash) cs" by (simp add: c)
    then show ?thesis using length_dropWhile_le [of "\<lambda>c. c \<noteq> slash" cs] by (simp add: c)
  qed
  also have "\<dots> \<le> length path" by (rule length_dropWhile_le)
  finally show ?thesis .
qed

function namex_loop :: "'x icache_state_scheme devsw \<Rightarrow> bool \<Rightarrow> uchar list \<Rightarrow> cptr \<Rightarrow> nat \<Rightarrow> 'x icache_state_scheme \<Rightarrow>
    (nat option \<times> cptr, 'x icache_state_scheme) kres" where
  "namex_loop dv parent path name i s =
     (case skipelem path name of
        None \<Rightarrow> if parent then kbind (iput i s) (\<lambda>_ s1. Done (None, name) s1) else Done (Some i, name) s
      | Some (rest, name') \<Rightarrow>
          kbind (ilock i s) (\<lambda>_ s1.
            if i_type (ino s1 i) \<noteq> T_DIR then kbind (iunlockput i s1) (\<lambda>_ s2. Done (None, name') s2)
            else if parent \<and> rest = [] then kbind (iunlock i s1) (\<lambda>_ s2. Done (Some i, name') s2)
            else kbind (dirlookup dv i name' s1) (\<lambda>r s2.
              (case r of
                 None \<Rightarrow> kbind (iunlockput i s2) (\<lambda>_ s3. Done (None, name') s3)
               | Some (nx, _) \<Rightarrow> kbind (iunlockput i s2) (\<lambda>_ s3. namex_loop dv parent rest name' nx s3)))))"
  by pat_completeness auto
termination
  by (relation "measure (\<lambda>(dv, parent, path, name, i, s). length path)") (auto dest: skipelem_shorter)

definition namex :: "'x icache_state_scheme devsw \<Rightarrow> uchar list \<Rightarrow> bool \<Rightarrow> cptr \<Rightarrow> 'x icache_state_scheme \<Rightarrow>
    (nat option \<times> cptr, 'x icache_state_scheme) kres" where
  "namex dv path parent name s =
     kbind (if path \<noteq> [] \<and> hd path = slash then iget ROOTDEV ROOTINO s else idup (the (p_cwd (curproc s))) s)
       (\<lambda>i s1. namex_loop dv parent path name i s1)"

definition namei :: "'x icache_state_scheme devsw \<Rightarrow> uchar list \<Rightarrow> 'x icache_state_scheme \<Rightarrow>
    (nat option, 'x icache_state_scheme) kres" where
  "namei dv path s = kbind (namex dv path False (\<lambda>_. 0) s) (\<lambda>(r, _) s1. Done r s1)"

definition nameiparent :: "'x icache_state_scheme devsw \<Rightarrow> uchar list \<Rightarrow> cptr \<Rightarrow> 'x icache_state_scheme \<Rightarrow>
    (nat option \<times> cptr, 'x icache_state_scheme) kres" where
  "nameiparent dv path name s = namex dv path True name s"

end
