(* ===== verification/Balloc.thy ===== *)
theory Balloc
  imports Fs
begin

text \<open>
  The block allocator of \<open>fs.c\<close> (\<open>bzero\<close>, \<open>balloc\<close>, \<open>bfree\<close>), specified by the set of free blocks that the bitmap in
  the buffer cache denotes. The first section states what one read or one logged update of a sector does to
  the cache's view of the disk; the inode layer uses the same contracts.
\<close>

section \<open>Contracts of the operations on blocks\<close>

text \<open>What a caller of the log keeps: everything but the cache, the woken processes and the log's list of sectors.\<close>

definition lg_frame :: "'x log_state_scheme \<Rightarrow> 'x log_state_scheme \<Rightarrow> bool" where
  "lg_frame s t \<longleftrightarrow> log_state.more t = log_state.more s \<and> disk t = disk s \<and> dwrites t = dwrites s \<and> disksize t = disksize s \<and>
     lg_start t = lg_start s \<and> lg_size t = lg_size s \<and> lg_outstanding t = lg_outstanding s \<and> lg_committing t = lg_committing s"

lemma lg_frame_refl [simp]: "lg_frame s s"
  by (simp add: lg_frame_def)

lemma lg_frame_trans [trans]: "lg_frame s t \<Longrightarrow> lg_frame t u \<Longrightarrow> lg_frame s u"
  by (simp add: lg_frame_def)

lemma bc_frame_lg:
  fixes s t :: "'x log_state_scheme"
  assumes "bc_frame s t" "disk t = disk s" "dwrites t = dwrites s"
  shows "lg_frame s t" "logged t = logged s"
proof -
  have "log_state.more t = log_state.more s" using assms(1) by (cases s; cases t) (simp add: bc_frame_def)
  then show "lg_frame s t" using assms log_more_cong [OF assms(1)] by (simp add: lg_frame_def)
  show "logged t = logged s" unfolding logged_def log_more_cong [OF assms(1)] ..
qed

lemma inodes_frame: "lg_frame s t \<Longrightarrow> inodes t = inodes s"
  by (cases s; cases t) (simp add: lg_frame_def)

lemma log_area_frame: "lg_frame s t \<Longrightarrow> log_area t = log_area s"
  by (simp add: lg_frame_def log_area_def fun_eq_iff)

text \<open>Reading a sector and releasing it.\<close>

lemma log_get_ok:
  assumes r: "log_ready s" and sec: "unat sec < disksize s"
  obtains i s1 t where "bread 1 sec s = Done i s1" "b_data (buf_at s1 i) = bview s sec" "brelse i s1 = Done () t"
    "log_ready t" "bview t = bview s" "lg_frame s t" "logged t = logged s" "bc_frame s s1"
proof -
  note rd = log_readyD [OF r]
  obtain i s1 where s1: "bread 1 sec s = Done i s1" "bc_inv s1" "held s1 i sec" "bview s1 = bview s" "disk s1 = disk s" "bc_frame s s1"
    "b_data (buf_at s1 i) = bview s sec" "busy_bufs s1 = {i}" "dirty_secs s1 = dirty_secs s" "dwrites s1 = dwrites s"
    "sec \<in> dirty_secs s1 \<or> bview s1 sec = disk s1 sec"
    by (rule read_release [OF rd(1,6) sec])
  obtain t where t: "brelse i s1 = Done () t" "quiet t" "bview t = bview s1" "dirty_secs t = dirty_secs s1" "disk t = disk s1"
    "dwrites t = dwrites s1" "bc_frame s1 t" by (rule brelse_quiet [OF s1(2,3,11,8)])
  have fr: "bc_frame s t" by (rule bc_frame_trans [OF s1(6) t(7)])
  have eq: "disk t = disk s" "dwrites t = dwrites s" using t s1 by simp_all
  note lf = bc_frame_lg [OF fr eq]
  have "log_ready t"
    using r t(2,4) s1(9) eq log_more_cong [OF fr] log_frame(1) [OF fr] by (simp add: log_ready_def)
  then show ?thesis using that [OF s1(1,7) t(1)] t(3) s1(4,6) lf by simp
qed

text \<open>Changing a sector through the log.\<close>

lemma log_upd_ok:
  assumes r: "log_ready s" and o: "log_open s" and sec: "unat sec < disksize s" "\<not> log_area s sec"
  obtains i s1 s2 t where "bread 1 sec s = Done i s1" "b_data (buf_at s1 i) = bview s sec" "bc_frame s s1"
    "log_write i (set_data i d s1) = Done () s2" "brelse i s2 = Done () t"
    "log_ready t" "bview t = (bview s)(sec := d)" "lg_frame s t"
    "logged t = (if sec \<in> set (logged s) then logged s else logged s @ [sec])"
  by (rule log_put_ok [OF r o sec, of d]) (simp add: lg_frame_def)

lemma log_upd_any:
  assumes r: "log_ready s" and o: "log_open s" and sec: "unat sec < disksize s"
  obtains i s1 s2 t where "bread 1 sec s = Done i s1" "log_write i (set_data i d s1) = Done () s2" "brelse i s2 = Done () t"
    "\<not> log_area s sec \<longrightarrow> log_ready t" "bview t = (bview s)(sec := d)" "lg_frame s t"
    "logged t = (if sec \<in> set (logged s) then logged s else logged s @ [sec])"
  by (rule log_put_any [OF r o sec, of d]) (simp add: lg_frame_def)

lemma log_n_logged: "log_ready s \<Longrightarrow> lh_n s = int (length (logged s))"
  by (simp add: logged_def log_ready_def log_geom_def)

text \<open>The room left in the log for \<open>k\<close> more sectors.\<close>

definition log_room :: "nat \<Rightarrow> 'x log_state_scheme \<Rightarrow> bool" where
  "log_room k s \<longleftrightarrow> int (length (logged s)) + int k < lg_size s \<and> lg_size s \<le> LOGSIZE \<and> 1 \<le> lg_outstanding s"

lemma log_room_open: "log_ready s \<Longrightarrow> log_room (Suc k) s \<Longrightarrow> log_open s"
  by (simp add: log_open_def log_room_def log_n_logged)

lemma log_room_step:
  assumes "log_room (Suc k) s" "lg_frame s t" "logged t = (if sec \<in> set (logged s) then logged s else logged s @ [sec])"
  shows "log_room k t"
  using assms by (auto simp: log_room_def lg_frame_def)

lemma log_room_same: "log_room k s \<Longrightarrow> lg_frame s t \<Longrightarrow> logged t = logged s \<Longrightarrow> log_room k t"
  by (simp add: log_room_def lg_frame_def)

lemma bzero_ok:
  assumes r: "log_ready s" and o: "log_room (Suc k) s" and sec: "unat sec < disksize s"
  obtains t where "bzero 1 sec s = Done () t" "\<not> log_area s sec \<longrightarrow> log_ready t" "bview t = (bview s)(sec := replicate BSIZE 0)" "lg_frame s t"
    "log_room k t"
proof -
  obtain i s1 s2 t where u: "bread 1 sec s = Done i s1" "log_write i (set_data i (replicate BSIZE 0) s1) = Done () s2" "brelse i s2 = Done () t"
    "\<not> log_area s sec \<longrightarrow> log_ready t" "bview t = (bview s)(sec := replicate BSIZE 0)" "lg_frame s t"
    "logged t = (if sec \<in> set (logged s) then logged s else logged s @ [sec])"
    by (rule log_upd_any [OF r log_room_open [OF r o] sec, of "replicate BSIZE 0"])
  have "bzero 1 sec s = Done () t" using u(1-3) by (simp add: bzero_def)
  then show ?thesis using that u(4-6) log_room_step [OF o u(6,7)] by blast
qed

section \<open>The block allocator\<close>

text \<open>The superblock as the cache has it, the sector of a block's bit, and whether a block is free.\<close>

definition sb_of :: "(uint \<Rightarrow> blk) \<Rightarrow> superblock" where
  "sb_of v = \<lparr>sb_size = get32l (v 1) 0, sb_nblocks = get32l (v 1) 4, sb_ninodes = get32l (v 1) 8, sb_nlog = get32l (v 1) 12\<rparr>"

definition bit_sec :: "(uint \<Rightarrow> blk) \<Rightarrow> nat \<Rightarrow> uint" where
  "bit_sec v b = BBLOCK (of_nat b) (sb_ninodes (sb_of v))"

definition blk_free :: "(uint \<Rightarrow> blk) \<Rightarrow> nat \<Rightarrow> bool" where
  "blk_free v b \<longleftrightarrow> bit_free (v (bit_sec v b)) (b mod BPB)"

text \<open>
  The layout that the allocator relies on: bitmap sectors are on the disk, outside the log and distinct from the superblock, and a free block is
  on the disk and none of these sectors. A free block may be a block of the log, because mkfs.c leaves the blocks of the log free in the bitmap.
\<close>

definition fs_layout :: "'x log_state_scheme \<Rightarrow> bool" where
  "fs_layout s \<longleftrightarrow> (let v = bview s; n = unat (sb_size (sb_of v)) in
     1 < disksize s \<and> \<not> log_area s 1 \<and> (\<forall>x. length (v x) = BSIZE) \<and> n \<le> 2 ^ 31 \<and>
     (\<forall>b < n. unat (bit_sec v b) < disksize s \<and> \<not> log_area s (bit_sec v b) \<and> bit_sec v b \<noteq> 1) \<and>
     (\<forall>b < n. blk_free v b \<longrightarrow> b < disksize s \<and> of_nat b \<noteq> (1 :: uint) \<and>
        (\<forall>c < n. of_nat b \<noteq> bit_sec v c)))"

lemma readsb_log:
  assumes r: "log_ready s" and sz: "1 < disksize s"
  obtains t where "readsb 1 s = Done (sb_of (bview s)) t" "log_ready t" "bview t = bview s" "lg_frame s t" "logged t = logged s"
proof -
  obtain i s1 t where g: "bread 1 1 s = Done i s1" "b_data (buf_at s1 i) = bview s 1" "brelse i s1 = Done () t"
    "log_ready t" "bview t = bview s" "lg_frame s t" "logged t = logged s"
    by (rule log_get_ok [OF r, of 1]) (use sz in simp)
  have "readsb 1 s = Done (sb_of (bview s)) t" using g(1-3) by (simp add: readsb_def sb_of_def Let_def)
  then show ?thesis using that g by blast
qed

lemma udiv_BPB: "n < 2 ^ 31 \<Longrightarrow> unat (of_nat n div of_nat BPB :: uint) = n div BPB"
  by (simp add: unat_div_distrib unat_of_nat32 BPB_def BSIZE_def)

lemma bit_sec_block:
  assumes "b < 2 ^ 31"
  shows "bit_sec v b = BBLOCK (of_nat (b div BPB * BPB)) (sb_ninodes (sb_of v))"
proof -
  have "b div BPB * BPB \<le> b" by simp
  then have "b div BPB * BPB < 2 ^ 31" using assms by linarith
  then have "(of_nat (b div BPB * BPB) :: uint) div of_nat BPB = of_nat b div of_nat BPB"
    unfolding word_unat_eq_iff using udiv_BPB [OF assms] udiv_BPB [of "b div BPB * BPB"] by (simp add: BPB_def BSIZE_def del: of_nat_mult)
  then show ?thesis by (simp add: bit_sec_def BBLOCK_def del: of_nat_mult)
qed

lemma bit_free_iff: "bit_free d j \<longleftrightarrow> \<not> bit (d ! (j div 8)) (j mod 8)"
proof -
  have "and x (bit_mask j) = 0 \<longleftrightarrow> \<not> bit x (j mod 8)" for x :: uchar
    unfolding bit_mask_def push_bit_of_1 by (rule and_exp_eq_0_iff_not_bit)
  then show ?thesis by (simp add: bit_free_def)
qed

lemma bit_free_set:
  assumes "i div 8 < length d"
  shows "bit_free (set_bit_in i d) j \<longleftrightarrow> j \<noteq> i \<and> bit_free d j"
proof (cases "j div 8 = i div 8")
  case True
  then have "j = i \<longleftrightarrow> j mod 8 = i mod 8" by (metis div_mult_mod_eq)
  moreover have "j mod 8 < 8" "i mod 8 < 8" by simp_all
  ultimately show ?thesis
    using assms True by (auto simp: bit_free_iff set_bit_in_def bit_mask_def bit_or_iff bit_exp_iff push_bit_of_1)
next
  case False
  then show ?thesis by (auto simp: bit_free_def set_bit_in_def)
qed

lemma bit_free_clear:
  assumes "i div 8 < length d"
  shows "bit_free (clear_bit_in i d) j \<longleftrightarrow> j = i \<or> bit_free d j"
proof (cases "j div 8 = i div 8")
  case True
  then have "j = i \<longleftrightarrow> j mod 8 = i mod 8" by (metis div_mult_mod_eq)
  moreover have "j mod 8 < 8" "i mod 8 < 8" by simp_all
  ultimately show ?thesis
    using assms True by (auto simp: bit_free_iff clear_bit_in_def bit_mask_def bit_and_iff bit_not_iff bit_exp_iff push_bit_of_1)
next
  case False
  then show ?thesis by (auto simp: bit_free_def clear_bit_in_def)
qed

lemma length_bits [simp]: "length (set_bit_in i d) = length d" "length (clear_bit_in i d) = length d"
  by (simp_all add: set_bit_in_def clear_bit_in_def)

lemma find_upt: "find P [0..<m] = Some i \<longleftrightarrow> i < m \<and> P i \<and> (\<forall>j < i. \<not> P j)"
  by (auto simp: find_Some_iff)

lemma div_ceiling_less:
  fixes b n c :: nat
  assumes "b < n" "0 < c"
  shows "b div c < (n + c - 1) div c"
proof -
  have "Suc (b div c) = (b + c) div c" using assms(2) div_add_self2 [of c b] by simp
  also have "\<dots> \<le> (n + c - 1) div c" using assms by (intro div_le_mono) simp
  finally show ?thesis by simp
qed

lemma block_index:
  assumes "bi < BPB"
  shows "(k * BPB + bi) div BPB = k" "(k * BPB + bi) mod BPB = bi"
  using assms by simp_all

definition alloc_view :: "(uint \<Rightarrow> blk) \<Rightarrow> nat \<Rightarrow> uint \<Rightarrow> blk" where
  "alloc_view v b = v(bit_sec v b := set_bit_in (b mod BPB) (v (bit_sec v b)), of_nat b := replicate BSIZE 0)"

lemma fs_layoutD:
  assumes "fs_layout s"
  defines "v \<equiv> bview s" and "n \<equiv> unat (sb_size (sb_of (bview s)))"
  shows "1 < disksize s" "\<not> log_area s 1" "\<And>x. length (v x) = BSIZE" "n \<le> 2 ^ 31"
    "\<And>b. b < n \<Longrightarrow> unat (bit_sec v b) < disksize s" "\<And>b. b < n \<Longrightarrow> \<not> log_area s (bit_sec v b)" "\<And>b. b < n \<Longrightarrow> bit_sec v b \<noteq> 1"
    "\<And>b. b < n \<Longrightarrow> blk_free v b \<Longrightarrow> b < disksize s \<and> of_nat b \<noteq> (1 :: uint)"
    "\<And>b c. b < n \<Longrightarrow> blk_free v b \<Longrightarrow> c < n \<Longrightarrow> of_nat b \<noteq> bit_sec v c"
  using assms(1) unfolding fs_layout_def Let_def v_def n_def by blast+

lemma balloc_loop_ok:
  assumes "log_ready s" "log_room (Suc (Suc m)) s" "bview s = v" "fs_layout s"
    and "k \<le> b div BPB" "b < unat (sb_size (sb_of v))" "blk_free v b" "\<forall>c < b. \<not> blk_free v c"
  shows "\<exists>t. balloc_loop 1 (sb_of v) (map (\<lambda>k. k * BPB) [k..<(unat (sb_size (sb_of v)) + BPB - 1) div BPB]) s = Done (of_nat b) t \<and>
     (\<not> log_area s (of_nat b) \<longrightarrow> log_ready t) \<and> bview t = alloc_view v b \<and> lg_frame s t \<and> log_room m t"
  using assms
proof (induction "b div BPB - k" arbitrary: k s)
  case 0
  let ?n = "unat (sb_size (sb_of v))" and ?sec = "bit_sec v b" and ?bi = "b mod BPB"
  note L = fs_layoutD [OF 0(5), unfolded 0(4)]
  have k: "k = b div BPB" using 0 by simp
  have bp: "0 < BPB" by (simp add: BPB_def BSIZE_def)
  have b31: "b < 2 ^ 31" using 0(7) L(4) by simp
  have kb: "k * BPB \<le> b" unfolding k by simp
  have kn: "k < (?n + BPB - 1) div BPB" unfolding k by (rule div_ceiling_less [OF 0(7) bp])
  have sec: "BBLOCK (of_nat (k * BPB)) (sb_ninodes (sb_of v)) = ?sec" using bit_sec_block [OF b31, of v] by (simp add: k)
  have b_eq: "k * BPB + ?bi = b" unfolding k by simp
  have fnd: "find (bit_free (v ?sec)) [0..<min BPB (?n - k * BPB)] = Some ?bi"
    unfolding find_upt
  proof (intro conjI allI impI)
    show "?bi < min BPB (?n - k * BPB)" using bp 0(7) b_eq by (simp add: less_diff_conv add.commute)
    show "bit_free (v ?sec) ?bi" using 0(8) by (simp add: blk_free_def)
    fix j assume j: "j < ?bi"
    then have jb: "j < BPB" using mod_less_divisor [OF bp, of b] by linarith
    have "k * BPB + j < b" using j b_eq by linarith
    then have "\<not> blk_free v (k * BPB + j)" using 0(9) by blast
    moreover have "bit_sec v (k * BPB + j) = ?sec"
      using bit_sec_block [of "k * BPB + j" v] \<open>k * BPB + j < b\<close> b31 block_index(1) [OF jb, of k] sec by simp
    ultimately show "\<not> bit_free (v ?sec) j" using block_index(2) [OF jb, of k] by (simp add: blk_free_def)
  qed
  note r2 = 0(3)
  obtain i s1 s2 t1 where u: "bread 1 ?sec s = Done i s1" "b_data (buf_at s1 i) = bview s ?sec"
    "log_write i (set_data i (set_bit_in ?bi (v ?sec)) s1) = Done () s2" "brelse i s2 = Done () t1"
    "log_ready t1" "bview t1 = (bview s)(?sec := set_bit_in ?bi (v ?sec))" "lg_frame s t1"
    "logged t1 = (if ?sec \<in> set (logged s) then logged s else logged s @ [?sec])"
    using log_upd_ok [OF 0(2) log_room_open [OF 0(2) r2] L(5) [OF 0(7)] L(6) [OF 0(7)]] by metis
  have ub: "unat (of_nat b :: uint) = b" using b31 by (simp add: unat_of_nat32)
  have bs: "unat (of_nat b :: uint) < disksize t1"
    using L(8) [OF 0(7,8)] ub u(7) by (simp add: lg_frame_def)
  obtain t where t: "bzero 1 (of_nat b) t1 = Done () t" "\<not> log_area t1 (of_nat b) \<longrightarrow> log_ready t" "bview t = (bview t1)(of_nat b := replicate BSIZE 0)" "lg_frame t1 t" "log_room m t"
    by (rule bzero_ok [OF u(5) log_room_step [OF r2 u(7,8)] bs])
  have "balloc_loop 1 (sb_of v) (map (\<lambda>k. k * BPB) [k..<(?n + BPB - 1) div BPB]) s = Done (of_nat b) t"
    using u(1-4) t(1) fnd unfolding upt_conv_Cons [OF kn] list.map balloc_loop.simps sec
    by (simp add: 0(4) b_eq del: of_nat_add of_nat_mult)
  then show ?case
    using t u(6) 0(4) lg_frame_trans [OF u(7) t(4)] log_area_frame [OF u(7)] by (auto simp: alloc_view_def)
next
  case (Suc d)
  let ?n = "unat (sb_size (sb_of v))"
  note L = fs_layoutD [OF Suc(6), unfolded Suc(5)]
  have bp: "0 < BPB" by (simp add: BPB_def BSIZE_def)
  have b31: "b < 2 ^ 31" using Suc(8) L(4) by simp
  have kl: "k < b div BPB" using Suc(2) by simp
  have "Suc k * BPB \<le> b div BPB * BPB" using kl by (intro mult_le_mono1) simp
  also have "\<dots> \<le> b" by (rule div_times_less_eq_dividend)
  finally have kb: "k * BPB + BPB \<le> b" by simp
  have kn: "k < (?n + BPB - 1) div BPB" using kl div_ceiling_less [OF Suc(8) bp] by linarith
  let ?sec = "BBLOCK (of_nat (k * BPB)) (sb_ninodes (sb_of v))"
  have sec: "bit_sec v (k * BPB + j) = ?sec" if "j < BPB" for j
    using bit_sec_block [of "k * BPB + j" v] that kb b31 block_index(1) [OF that, of k] by simp
  have k0: "k * BPB < ?n" using kb bp Suc(8) by linarith
  have "find (bit_free (v ?sec)) [0..<min BPB (?n - k * BPB)] = None"
    unfolding find_None_iff
  proof
    assume "\<exists>x. x \<in> set [0..<min BPB (?n - k * BPB)] \<and> bit_free (v ?sec) x"
    then obtain j where j: "j < BPB" "bit_free (v ?sec) j" by auto
    then have "blk_free v (k * BPB + j)" using sec [OF j(1)] block_index(2) [OF j(1), of k] by (simp add: blk_free_def)
    then show False using Suc(10) kb j(1) by auto
  qed
  moreover have ss: "unat ?sec < disksize s" using L(5) [OF k0] sec [OF bp] by simp
  obtain i s1 t1 where g: "bread 1 ?sec s = Done i s1" "b_data (buf_at s1 i) = bview s ?sec" "brelse i s1 = Done () t1"
    "log_ready t1" "bview t1 = bview s" "lg_frame s t1" "logged t1 = logged s"
    using log_get_ok [OF Suc(3) ss] by metis
  ultimately have step: "balloc_loop 1 (sb_of v) (map (\<lambda>k. k * BPB) [k..<(?n + BPB - 1) div BPB]) s =
      balloc_loop 1 (sb_of v) (map (\<lambda>k. k * BPB) [Suc k..<(?n + BPB - 1) div BPB]) t1"
    unfolding upt_conv_Cons [OF kn] list.map balloc_loop.simps by (simp add: Suc(5) del: of_nat_mult)
  have fl: "fs_layout t1" using Suc(6) g(5,6) log_area_frame [OF g(6)] by (simp add: fs_layout_def lg_frame_def)
  have rm: "log_room (Suc (Suc m)) t1" by (rule log_room_same [OF Suc(4) g(6,7)])
  have "\<exists>t. balloc_loop 1 (sb_of v) (map (\<lambda>k. k * BPB) [Suc k..<(?n + BPB - 1) div BPB]) t1 = Done (of_nat b) t \<and>
     (\<not> log_area t1 (of_nat b) \<longrightarrow> log_ready t) \<and> bview t = alloc_view v b \<and> lg_frame t1 t \<and> log_room m t"
    by (rule Suc(1)) (use Suc g fl rm kl in simp_all)
  then show ?case using step lg_frame_trans [OF g(6)] log_area_frame [OF g(6)] by auto
qed

lemma bit_sec_range: "b mod BPB div 8 < BSIZE"
proof -
  have "b mod BPB < BSIZE * 8" by (simp add: BPB_def BSIZE_def)
  then show ?thesis by (rule less_mult_imp_div_less)
qed

lemma bit_sec_cong: "v 1 = v' 1 \<Longrightarrow> bit_sec v = bit_sec v'" "v 1 = v' 1 \<Longrightarrow> sb_of v = sb_of v'"
  by (simp_all add: bit_sec_def sb_of_def fun_eq_iff)

text \<open>Two blocks whose bits are in the same sector have different bits.\<close>

lemma bit_sec_inj:
  assumes "bit_sec v b = bit_sec v c" "b mod BPB = c mod BPB" "b < 2 ^ 31" "c < 2 ^ 31"
  shows "b = c"
proof -
  have "(of_nat b :: uint) div of_nat BPB = of_nat c div of_nat BPB" using assms(1) by (simp add: bit_sec_def BBLOCK_def)
  then have "b div BPB = c div BPB" using udiv_BPB [OF assms(3)] udiv_BPB [OF assms(4)] by metis
  then show ?thesis using assms(2) by (metis div_mult_mod_eq)
qed

text \<open>What changing the bit of one block, and perhaps the content of that block, does to the others.\<close>

lemma blk_free_upd:
  assumes sec: "bit_sec v b \<noteq> 1" and d: "length (v (bit_sec v b)) = BSIZE"
    and b: "b < 2 ^ 31" "c < 2 ^ 31"
    and e: "\<And>j. bit_free e j = (if j = b mod BPB then f else bit_free (v (bit_sec v b)) j)"
  shows "blk_free (v(bit_sec v b := e)) c = (if c = b then f else blk_free v c)"
proof -
  have bs: "bit_sec (v(bit_sec v b := e)) = bit_sec v" by (rule bit_sec_cong) (use sec in simp)
  show ?thesis
  proof (cases "bit_sec v c = bit_sec v b")
    case True
    then have "c mod BPB = b mod BPB \<longleftrightarrow> c = b" using bit_sec_inj [OF True] b by metis
    then show ?thesis using True e by (simp add: blk_free_def bs)
  next
    case False
    then show ?thesis by (auto simp: blk_free_def bs)
  qed
qed

lemma alloc_view_ok:
  assumes fl: "fs_layout s" and b: "b < unat (sb_size (sb_of (bview s)))" "blk_free (bview s) b"
  defines "v \<equiv> bview s" and "n \<equiv> unat (sb_size (sb_of (bview s)))"
  shows "sb_of (alloc_view v b) = sb_of v" "bit_sec (alloc_view v b) = bit_sec v"
    "\<And>c. c < n \<Longrightarrow> blk_free (alloc_view v b) c \<longleftrightarrow> c \<noteq> b \<and> blk_free v c"
    "alloc_view v b (of_nat b) = replicate BSIZE 0"
    "\<And>x. x \<noteq> of_nat b \<Longrightarrow> x \<noteq> bit_sec v b \<Longrightarrow> alloc_view v b x = v x" "\<And>x. length (alloc_view v b x) = BSIZE"
proof -
  note L = fs_layoutD [OF fl, folded v_def n_def]
  have bn: "b < n" "blk_free v b" using b by (simp_all add: n_def v_def)
  have b31: "b < 2 ^ 31" using bn L(4) by simp
  have s1: "bit_sec v b \<noteq> 1" "of_nat b \<noteq> (1 :: uint)" using L(7,8) bn by blast+
  then have one: "alloc_view v b 1 = v 1" by (simp add: alloc_view_def)
  show "sb_of (alloc_view v b) = sb_of v" "bit_sec (alloc_view v b) = bit_sec v" by (rule bit_sec_cong [of "alloc_view v b" v, OF one])+
  show "alloc_view v b (of_nat b) = replicate BSIZE 0" "\<And>x. x \<noteq> of_nat b \<Longrightarrow> x \<noteq> bit_sec v b \<Longrightarrow> alloc_view v b x = v x"
    by (simp_all add: alloc_view_def)
  show "length (alloc_view v b x) = BSIZE" for x using L(3) by (simp add: alloc_view_def)
  show "blk_free (alloc_view v b) c \<longleftrightarrow> c \<noteq> b \<and> blk_free v c" if c: "c < n" for c
  proof -
    let ?v = "v(bit_sec v b := set_bit_in (b mod BPB) (v (bit_sec v b)))"
    have c31: "c < 2 ^ 31" using c L(4) by simp
    have "bit_sec v c \<noteq> of_nat b" using L(9) [OF bn c] by auto
    then have "blk_free (alloc_view v b) c = blk_free ?v c"
      using bit_sec_cong(1) [of "alloc_view v b" v, OF one] bit_sec_cong(1) [of ?v v] s1 by (simp add: blk_free_def alloc_view_def)
    also have "\<dots> = (if c = b then False else blk_free v c)"
      by (rule blk_free_upd [OF s1(1) L(3) b31 c31]) (use bit_free_set bit_sec_range L(3) in auto)
    finally show ?thesis by auto
  qed
qed

lemma balloc_ok:
  assumes r: "log_ready s" and o: "log_room (Suc (Suc m)) s" and fl: "fs_layout s"
    and b: "b < unat (sb_size (sb_of (bview s)))" "blk_free (bview s) b" "\<forall>c < b. \<not> blk_free (bview s) c"
  obtains t where "balloc 1 s = Done (of_nat b) t" "\<not> log_area s (of_nat b) \<longrightarrow> log_ready t" "bview t = alloc_view (bview s) b" "lg_frame s t" "log_room m t"
proof -
  obtain s1 where s1: "readsb 1 s = Done (sb_of (bview s)) s1" "log_ready s1" "bview s1 = bview s" "lg_frame s s1" "logged s1 = logged s"
    by (rule readsb_log [OF r fs_layoutD(1) [OF fl]])
  have fl1: "fs_layout s1" using fl s1(3,4) log_area_frame [OF s1(4)] by (simp add: fs_layout_def lg_frame_def)
  have "\<exists>t. balloc_loop 1 (sb_of (bview s)) (map (\<lambda>k. k * BPB) [0..<(unat (sb_size (sb_of (bview s))) + BPB - 1) div BPB]) s1 = Done (of_nat b) t \<and>
     (\<not> log_area s1 (of_nat b) \<longrightarrow> log_ready t) \<and> bview t = alloc_view (bview s) b \<and> lg_frame s1 t \<and> log_room m t"
    by (rule balloc_loop_ok [OF s1(2) log_room_same [OF o s1(4,5)] s1(3) fl1 _ b]) simp
  then obtain t where t: "balloc_loop 1 (sb_of (bview s)) (map (\<lambda>k. k * BPB) [0..<(unat (sb_size (sb_of (bview s))) + BPB - 1) div BPB]) s1 = Done (of_nat b) t"
     "\<not> log_area s1 (of_nat b) \<longrightarrow> log_ready t" "bview t = alloc_view (bview s) b" "lg_frame s1 t" "log_room m t" by blast
  have "balloc 1 s = Done (of_nat b) t" unfolding balloc_def s1(1) kbind.simps by (rule t(1))
  then show ?thesis using that t lg_frame_trans [OF s1(4) t(4)] log_area_frame [OF s1(4)] by simp
qed

lemma balloc_loop_full:
  assumes "log_ready s" "bview s = v" "fs_layout s" "\<And>b. b < unat (sb_size (sb_of v)) \<Longrightarrow> \<not> blk_free v b"
    "\<And>k. k \<in> set ks \<Longrightarrow> k * BPB < unat (sb_size (sb_of v))"
  shows "balloc_loop 1 (sb_of v) (map (\<lambda>k. k * BPB) ks) s = Panic ''balloc: out of blocks''"
  using assms
proof (induction ks arbitrary: s)
  case (Cons k ks)
  let ?n = "unat (sb_size (sb_of v))" and ?sec = "BBLOCK (of_nat (k * BPB)) (sb_ninodes (sb_of v))"
  note L = fs_layoutD [OF Cons.prems(3), unfolded Cons.prems(2)]
  have bp: "0 < BPB" by (simp add: BPB_def BSIZE_def)
  have k0: "k * BPB < ?n" using Cons.prems(5) by simp
  have sec: "bit_sec v (k * BPB + j) = ?sec" if "j < BPB" "k * BPB + j < ?n" for j
    using bit_sec_block [of "k * BPB + j" v] that L(4) block_index(1) [OF that(1), of k] by simp
  have "find (bit_free (v ?sec)) [0..<min BPB (?n - k * BPB)] = None"
    unfolding find_None_iff
  proof
    assume "\<exists>x. x \<in> set [0..<min BPB (?n - k * BPB)] \<and> bit_free (v ?sec) x"
    then obtain j where j: "j < BPB" "k * BPB + j < ?n" "bit_free (v ?sec) j" by auto
    then have "blk_free v (k * BPB + j)" using sec [OF j(1,2)] block_index(2) [OF j(1), of k] by (simp add: blk_free_def)
    then show False using Cons.prems(4) j(2) by blast
  qed
  moreover have ss: "unat ?sec < disksize s" using L(5) [OF k0] sec [OF bp] k0 by simp
  obtain i s1 t1 where g: "bread 1 ?sec s = Done i s1" "b_data (buf_at s1 i) = bview s ?sec" "brelse i s1 = Done () t1"
    "log_ready t1" "bview t1 = bview s" "lg_frame s t1"
    using log_get_ok [OF Cons.prems(1) ss] by metis
  ultimately have "balloc_loop 1 (sb_of v) (map (\<lambda>k. k * BPB) (k # ks)) s = balloc_loop 1 (sb_of v) (map (\<lambda>k. k * BPB) ks) t1"
    unfolding list.map balloc_loop.simps by (simp add: Cons.prems(2) del: of_nat_mult)
  moreover have "fs_layout t1" using Cons.prems(3) g(5,6) log_area_frame [OF g(6)] by (simp add: fs_layout_def lg_frame_def)
  then have "balloc_loop 1 (sb_of v) (map (\<lambda>k. k * BPB) ks) t1 = Panic ''balloc: out of blocks''"
    by (intro Cons.IH) (use Cons.prems g in simp_all)
  ultimately show ?case by simp
qed simp

lemma balloc_full:
  assumes r: "log_ready s" and fl: "fs_layout s" and n: "\<And>b. b < unat (sb_size (sb_of (bview s))) \<Longrightarrow> \<not> blk_free (bview s) b"
  shows "balloc 1 s = Panic ''balloc: out of blocks''"
proof -
  let ?n = "unat (sb_size (sb_of (bview s)))"
  obtain s1 where s1: "readsb 1 s = Done (sb_of (bview s)) s1" "log_ready s1" "bview s1 = bview s" "lg_frame s s1"
    by (rule readsb_log [OF r fs_layoutD(1) [OF fl]])
  have fl1: "fs_layout s1" using fl s1(3,4) log_area_frame [OF s1(4)] by (simp add: fs_layout_def lg_frame_def)
  have kn: "k * BPB < ?n" if "k \<in> set [0..<(?n + BPB - 1) div BPB]" for k
  proof -
    have "Suc k \<le> (?n + BPB - 1) div BPB" using that by simp
    then have "Suc k * BPB \<le> (?n + BPB - 1) div BPB * BPB" by (rule mult_le_mono1)
    also have "\<dots> \<le> ?n + BPB - 1" by (rule div_times_less_eq_dividend)
    finally show ?thesis by (simp add: BPB_def BSIZE_def)
  qed
  show ?thesis unfolding balloc_def s1(1) kbind.simps by (rule balloc_loop_full [OF s1(2,3) fl1 n kn])
qed

lemma bfree_ok:
  assumes r: "log_ready s" and o: "log_room (Suc k) s" and fl: "fs_layout s"
    and b: "unat b < unat (sb_size (sb_of (bview s)))" "\<not> blk_free (bview s) (unat b)"
  obtains t where "bfree 1 b s = Done () t" "log_ready t" "lg_frame s t" "log_room k t"
    "bview t = (bview s)(bit_sec (bview s) (unat b) := clear_bit_in (unat b mod BPB) (bview s (bit_sec (bview s) (unat b))))"
proof -
  let ?sec = "bit_sec (bview s) (unat b)"
  note L = fs_layoutD [OF fl]
  obtain s1 where s1: "readsb 1 s = Done (sb_of (bview s)) s1" "log_ready s1" "bview s1 = bview s" "lg_frame s s1" "logged s1 = logged s"
    by (rule readsb_log [OF r L(1)])
  have sec: "BBLOCK b (sb_ninodes (sb_of (bview s))) = ?sec" by (simp add: bit_sec_def)
  have o1: "log_room (Suc k) s1" by (rule log_room_same [OF o s1(4,5)])
  have ss: "unat ?sec < disksize s1" "\<not> log_area s1 ?sec"
    using L(5,6) [OF b(1)] s1(4) log_area_frame [OF s1(4)] by (simp_all add: lg_frame_def)
  obtain i s2 s3 t where u: "bread 1 ?sec s1 = Done i s2" "b_data (buf_at s2 i) = bview s1 ?sec"
    "log_write i (set_data i (clear_bit_in (unat b mod BPB) (bview s ?sec)) s2) = Done () s3" "brelse i s3 = Done () t"
    "log_ready t" "bview t = (bview s1)(?sec := clear_bit_in (unat b mod BPB) (bview s ?sec))" "lg_frame s1 t"
    "logged t = (if ?sec \<in> set (logged s1) then logged s1 else logged s1 @ [?sec])"
    using log_upd_ok [OF s1(2) log_room_open [OF s1(2) o1] ss] by metis
  have "\<not> bit_free (bview s ?sec) (unat b mod BPB)" using b(2) by (simp add: blk_free_def)
  then have "bfree 1 b s = Done () t"
    using s1(1) u(1-4) by (simp add: bfree_def Let_def sec s1(3))
  then show ?thesis
    using that u(5,6) s1(3) lg_frame_trans [OF s1(4) u(7)] log_room_step [OF o1 u(7,8)] by simp
qed

lemma bfree_free:
  assumes r: "log_ready s" and fl: "fs_layout s"
    and b: "unat b < unat (sb_size (sb_of (bview s)))" "blk_free (bview s) (unat b)"
  shows "bfree 1 b s = Panic ''freeing free block''"
proof -
  let ?sec = "bit_sec (bview s) (unat b)"
  note L = fs_layoutD [OF fl]
  obtain s1 where s1: "readsb 1 s = Done (sb_of (bview s)) s1" "log_ready s1" "bview s1 = bview s" "lg_frame s s1"
    by (rule readsb_log [OF r L(1)])
  have sec: "BBLOCK b (sb_ninodes (sb_of (bview s))) = ?sec" by (simp add: bit_sec_def)
  have ss: "unat ?sec < disksize s1" using L(5) [OF b(1)] s1(4) by (simp add: lg_frame_def)
  obtain i s2 where g: "bread 1 ?sec s1 = Done i s2" "b_data (buf_at s2 i) = bview s1 ?sec" using log_get_ok [OF s1(2) ss] by metis
  have "bit_free (bview s ?sec) (unat b mod BPB)" using b(2) by (simp add: blk_free_def)
  then show ?thesis using s1(1) g by (simp add: bfree_def Let_def sec s1(3))
qed

text \<open>
  C15. balloc returns the first free block of the bitmap, marks it and no other block as in use, clears its content and changes no
  other sector; with no free block it stops the machine. The log stays in order when that block is not one of the log's own. Nothing
  keeps balloc from returning a block of the log: with the bitmap that mkfs makes, it does so as soon as the data blocks are used up.
\<close>

theorem balloc_takes_first_free:
  assumes "log_ready s" "log_room 2 s" "fs_layout s"
  defines "v \<equiv> bview s" and "n \<equiv> unat (sb_size (sb_of (bview s)))"
  shows "case find (blk_free v) [0..<n] of
      None \<Rightarrow> balloc 1 s = Panic ''balloc: out of blocks''
    | Some b \<Rightarrow> \<exists>t. balloc 1 s = Done (of_nat b) t \<and> (\<not> log_area s (of_nat b) \<longrightarrow> log_ready t) \<and>
        (\<forall>c < n. blk_free (bview t) c \<longleftrightarrow> c \<noteq> b \<and> blk_free v c) \<and> bview t (of_nat b) = replicate BSIZE 0 \<and>
        (\<forall>x. x \<noteq> of_nat b \<and> x \<noteq> bit_sec v b \<longrightarrow> bview t x = v x)"
proof (cases "find (blk_free v) [0..<n]")
  case None
  then have "\<not> blk_free (bview s) b" if "b < unat (sb_size (sb_of (bview s)))" for b
    using that by (auto simp: find_None_iff v_def n_def)
  then show ?thesis using balloc_full [OF assms(1,3)] None by simp
next
  case (Some b)
  then have b: "b < n" "blk_free v b" "\<forall>c < b. \<not> blk_free v c" by (simp_all add: find_upt)
  obtain t where t: "balloc 1 s = Done (of_nat b) t" "\<not> log_area s (of_nat b) \<longrightarrow> log_ready t" "bview t = alloc_view v b"
    using balloc_ok [OF assms(1) _ assms(3), of 0] assms(2) b unfolding v_def n_def numeral_2_eq_2 by metis
  have a: "b < unat (sb_size (sb_of (bview s)))" "blk_free (bview s) b" using b by (simp_all add: v_def n_def)
  show ?thesis using Some t alloc_view_ok [OF assms(3) a] by (auto simp: v_def n_def)
qed

lemma fs_layout_frame: "fs_layout s \<Longrightarrow> lg_frame s t \<Longrightarrow> bview t = bview s \<Longrightarrow> fs_layout t"
  using log_area_frame [of s t] by (simp add: fs_layout_def lg_frame_def)

lemma fs_layout_alloc:
  assumes fl: "fs_layout s" and b: "b < unat (sb_size (sb_of (bview s)))" "blk_free (bview s) b"
    and t: "bview t = alloc_view (bview s) b" "lg_frame s t"
  shows "fs_layout t"
proof -
  note A = alloc_view_ok [OF fl b] and L = fs_layoutD [OF fl]
  have fr: "disksize t = disksize s" "log_area t = log_area s" using t(2) log_area_frame [OF t(2)] by (simp_all add: lg_frame_def)
  show ?thesis
    unfolding fs_layout_def Let_def t(1) A(1,2) fr
  proof (intro conjI allI impI)
    fix c assume c: "c < unat (sb_size (sb_of (bview s)))"
    show "unat (bit_sec (bview s) c) < disksize s" "\<not> log_area s (bit_sec (bview s) c)" "bit_sec (bview s) c \<noteq> 1"
      by (rule L(5) [OF c], rule L(6) [OF c], rule L(7) [OF c])
    assume "blk_free (alloc_view (bview s) b) c"
    then have f: "blk_free (bview s) c" using A(3) [OF c] by blast
    from L(8) [OF c f] show "c < disksize s" "of_nat c \<noteq> (1 :: uint)" by blast+
    show "of_nat c \<noteq> bit_sec (bview s) e" if "e < unat (sb_size (sb_of (bview s)))" for e by (rule L(9) [OF c f that])
  qed (fact L(1) L(2) A(6) L(4))+
qed

text \<open>
  C16. bfree of a free block stops the machine, and freeing the block balloc has just returned, if it is not a block of the log, gives back the
  bitmap balloc found.
\<close>

theorem bfree_undoes_balloc:
  assumes "log_ready s" "log_room 3 s" "fs_layout s" "b < unat (sb_size (sb_of (bview s)))" "blk_free (bview s) b" "\<forall>c < b. \<not> blk_free (bview s) c"
  shows "bfree 1 (of_nat b) s = Panic ''freeing free block'' \<and>
    (\<not> log_area s (of_nat b) \<longrightarrow> (\<exists>t u. balloc 1 s = Done (of_nat b) t \<and> bfree 1 (of_nat b) t = Done () u \<and> log_ready u \<and>
       (\<forall>c < unat (sb_size (sb_of (bview s))). blk_free (bview u) c = blk_free (bview s) c)))"
proof (intro conjI impI)
  let ?n = "unat (sb_size (sb_of (bview s)))"
  note L = fs_layoutD [OF assms(3)] and A = alloc_view_ok [OF assms(3-5)]
  have b31: "b < 2 ^ 31" using assms(4) L(4) by simp
  have ub: "unat (of_nat b :: uint) = b" using b31 by (simp add: unat_of_nat32)
  show "bfree 1 (of_nat b) s = Panic ''freeing free block''"
    by (rule bfree_free [OF assms(1,3)]) (use assms(4,5) ub in simp_all)
  assume na: "\<not> log_area s (of_nat b)"
  have rm: "log_room (Suc (Suc (Suc 0))) s" using assms(2) by (simp add: numeral_3_eq_3)
  obtain t where t: "balloc 1 s = Done (of_nat b) t" "log_ready t" "bview t = alloc_view (bview s) b" "lg_frame s t" "log_room (Suc 0) t"
    using balloc_ok [OF assms(1) rm assms(3-6)] na by metis
  have fl: "fs_layout t" by (rule fs_layout_alloc [OF assms(3-5) t(3,4)])
  have nf: "\<not> blk_free (bview t) b" using A(3) [OF assms(4)] t(3) by simp
  have bn: "unat (of_nat b :: uint) < unat (sb_size (sb_of (bview t)))" "\<not> blk_free (bview t) (unat (of_nat b :: uint))"
    using assms(4) nf A(1) t(3) ub by simp_all
  let ?sec = "bit_sec (bview t) b"
  obtain u where u: "bfree 1 (of_nat b) t = Done () u" "log_ready u"
    "bview u = (bview t)(?sec := clear_bit_in (b mod BPB) (bview t ?sec))"
    using bfree_ok [OF t(2,5) fl bn] unfolding ub by metis
  note M = fs_layoutD [OF fl]
  have bt: "b < unat (sb_size (sb_of (bview t)))" using bn(1) ub by simp
  have "blk_free (bview u) c = blk_free (bview s) c" if c: "c < ?n" for c
  proof -
    have c31: "c < 2 ^ 31" using c L(4) by simp
    have "blk_free (bview u) c = (if c = b then True else blk_free (bview t) c)"
      unfolding u(3) by (rule blk_free_upd [OF M(7) [OF bt] M(3) b31 c31]) (use bit_free_clear bit_sec_range M(3) in auto)
    then show ?thesis using A(3) [OF c] t(3) assms(5) by auto
  qed
  then show "\<exists>t u. balloc 1 s = Done (of_nat b) t \<and> bfree 1 (of_nat b) t = Done () u \<and> log_ready u \<and>
       (\<forall>c < ?n. blk_free (bview u) c = blk_free (bview s) c)" using t(1) u(1,2) by blast
qed

section \<open>Concrete file systems with a bitmap\<close>

text \<open>
  The image with its bitmap in sector 3. As mkfs leaves them, the bitmaps mark the blocks from 0 on that are in use and not the blocks
  of the log, which start at 994: in \<open>bitmap_sample\<close> 4 blocks are in use, in \<open>bitmap_full\<close> all blocks before the log.
\<close>

definition bitmap_sample :: blk where
  "bitmap_sample = [0x0F] @ replicate 511 0"

definition bitmap_full :: blk where
  "bitmap_full = replicate 124 0xFF @ [0x03] @ replicate 387 0"

definition fs_image :: "blk \<Rightarrow> uint \<Rightarrow> blk" where
  "fs_image bm = image_sample(3 := bm)"

definition fs_state :: "blk \<Rightarrow> log_state" where
  "fs_state bm = (boot_image (fs_image bm))\<lparr>lg_outstanding := 1\<rparr>"

lemma mod8: "b mod 8 \<in> {0, 1, 2, 3, 4, 5, 6, 7 :: nat}"
  by auto

lemma bitmap_sample_bits:
  "length bitmap_sample = 512" "b < 1024 \<Longrightarrow> bit_free bitmap_sample b \<longleftrightarrow> 4 \<le> b"
proof -
  show "length bitmap_sample = 512" by (simp add: bitmap_sample_def)
  assume b: "b < 1024"
  have n: "bitmap_sample ! i = (if i = 0 then 0x0F else 0)" if "i < 512" for i
    using that by (auto simp: bitmap_sample_def nth_Cons')
  show "bit_free bitmap_sample b \<longleftrightarrow> 4 \<le> b"
  proof (cases "b div 8 = 0")
    case True
    then have "b = b mod 8" by simp
    then have "b \<in> {0, 1, 2, 3, 4, 5, 6, 7}" using mod8 [of b] by simp
    then show ?thesis by (auto simp: bit_free_def n bit_mask_def)
  next
    case False
    then have "8 \<le> b" by simp
    then show ?thesis using b False by (simp add: bit_free_def n)
  qed
qed

lemma bitmap_full_bits:
  "length bitmap_full = 512" "b < 1024 \<Longrightarrow> bit_free bitmap_full b \<longleftrightarrow> 994 \<le> b"
proof -
  show "length bitmap_full = 512" by (simp add: bitmap_full_def)
  assume b: "b < 1024"
  have n: "bitmap_full ! i = (if i < 124 then 0xFF else if i = 124 then 0x03 else 0)" if "i < 512" for i
    using that by (auto simp: bitmap_full_def nth_append nth_Cons')
  have e: "b = 8 * (b div 8) + b mod 8" by simp
  consider "b div 8 < 124" | "b div 8 = 124" | "124 < b div 8" by linarith
  then show "bit_free bitmap_full b \<longleftrightarrow> 994 \<le> b"
  proof cases
    case 1
    then have "b < 994" using e mod_less_divisor [of 8 b] by linarith
    moreover have "\<not> bit_free bitmap_full b" using 1 mod8 [of b] by (auto simp: bit_free_def n bit_mask_def)
    ultimately show ?thesis by simp
  next
    case 2
    then have "994 \<le> b \<longleftrightarrow> 2 \<le> b mod 8" using e by linarith
    then show ?thesis using 2 mod8 [of b] by (auto simp: bit_free_def n bit_mask_def)
  next
    case 3
    then have "994 \<le> b" using e by linarith
    then show ?thesis using 3 b by (simp add: bit_free_def n)
  qed
qed

lemma fs_image_sel: "fs_image bm 1 = image_sample 1" "fs_image bm 994 = replicate 512 0" "fs_image bm 3 = bm"
  "length bm = 512 \<Longrightarrow> length (fs_image bm x) = 512"
  by (simp_all add: fs_image_def image_sample_sel image_sample_log)

lemma fs_state_sel:
  "log_ready (fs_state bm)" "log_room 3 (fs_state bm)" "disksize (fs_state bm) = 1024" "lg_start (fs_state bm) = 994"
  "bview (fs_state bm) 1 = image_sample 1" "bview (fs_state bm) 3 = bm" "length bm = 512 \<Longrightarrow> length (bview (fs_state bm) x) = 512"
proof -
  note B = boot_image_ok [OF fs_image_sel(1) [of bm] fs_image_sel(2) [of bm]]
  have bv: "bview (fs_state bm) = disk (boot_image (fs_image bm))"
    using cache_cong(2) [of "fs_state bm" "boot_image (fs_image bm)"] B(10) by (simp add: fs_state_def)
  show "log_ready (fs_state bm)" unfolding fs_state_def by (rule log_ready_cong [OF B(1)]) simp_all
  show "log_room 3 (fs_state bm)" by (simp add: log_room_def logged_def fs_state_def B LOGSIZE_def)
  show "disksize (fs_state bm) = 1024" "lg_start (fs_state bm) = 994" by (simp_all add: fs_state_def B)
  show "bview (fs_state bm) 1 = image_sample 1" "bview (fs_state bm) 3 = bm" unfolding bv using B(8) fs_image_sel by simp_all
  show "length (bview (fs_state bm) x) = 512" if "length bm = 512"
    unfolding bv using B(8,9) fs_image_sel(4) [OF that] by (cases "x = 994") simp_all
qed

lemma sb_of_sample: "sb_size (sb_of (bview (fs_state bm))) = 1024" "sb_ninodes (sb_of (bview (fs_state bm))) = 0"
  by (simp_all add: sb_of_def fs_state_sel image_sample_sel) (simp add: image_sample_def get_put_other, simp add: get32l_def)

lemma bit_sec_sample: "b < 1024 \<Longrightarrow> bit_sec (bview (fs_state bm)) b = 3"
proof -
  assume b: "b < 1024"
  then have "unat (of_nat b :: uint) = b" by (simp add: unat_of_nat32)
  then have "(of_nat b :: uint) div of_nat BPB = 0" using b by (simp add: BPB_def BSIZE_def word_unat_eq_iff unat_div_distrib)
  then show ?thesis by (simp add: bit_sec_def BBLOCK_def sb_of_sample IPB_def)
qed

lemma blk_free_sample: "b < 1024 \<Longrightarrow> blk_free (bview (fs_state bm)) b = bit_free bm b"
  by (simp add: blk_free_def bit_sec_sample fs_state_sel BPB_def BSIZE_def)

lemma fs_layout_sample:
  assumes "length bm = 512" "\<And>b. b < 1024 \<Longrightarrow> bit_free bm b \<Longrightarrow> 4 \<le> b"
  shows "fs_layout (fs_state bm)"
proof -
  have "of_nat b \<noteq> (1 :: uint)" "of_nat b \<noteq> (3 :: uint)" if "b < 1024" "blk_free (bview (fs_state bm)) b" for b
  proof -
    have b: "4 \<le> b" using assms(2) that blk_free_sample by blast
    have "unat (of_nat b :: uint) = b" using that(1) by (simp add: unat_of_nat32)
    then show "of_nat b \<noteq> (1 :: uint)" "of_nat b \<noteq> (3 :: uint)" using b by auto
  qed
  then show ?thesis
    using fs_state_sel(7) [OF assms(1)]
    by (simp add: fs_layout_def Let_def fs_state_sel sb_of_sample bit_sec_sample log_area_def BSIZE_def)
qed

theorem balloc_takes_first_free_witness:
  "(\<exists>t. balloc 1 (fs_state bitmap_sample) = Done 4 t \<and> bview t 4 = replicate BSIZE 0 \<and> \<not> blk_free (bview t) 4) \<and>
   (\<exists>t. balloc 1 (fs_state bitmap_full) = Done 994 t \<and> lg_start (fs_state bitmap_full) = 994)"
proof -
  have r: "log_room 2 (fs_state bm)" for bm using fs_state_sel(2) [of bm] by (simp add: log_room_def)
  have "fs_layout (fs_state bitmap_sample)" "fs_layout (fs_state bitmap_full)"
    using bitmap_sample_bits bitmap_full_bits by (auto intro!: fs_layout_sample)
  note W = balloc_takes_first_free [OF fs_state_sel(1) r this(1)] balloc_takes_first_free [OF fs_state_sel(1) r this(2)]
  have "find (blk_free (bview (fs_state bitmap_sample))) [0..<unat (sb_size (sb_of (bview (fs_state bitmap_sample))))] = Some 4"
    "find (blk_free (bview (fs_state bitmap_full))) [0..<unat (sb_size (sb_of (bview (fs_state bitmap_full))))] = Some 994"
    using bitmap_sample_bits(2) bitmap_full_bits(2) by (simp_all add: find_upt sb_of_sample blk_free_sample)
  then show ?thesis using W by (auto simp: sb_of_sample fs_state_sel(4))
qed

theorem bfree_undoes_balloc_witness:
  "\<exists>t u. balloc 1 (fs_state bitmap_sample) = Done 4 t \<and> bfree 1 4 t = Done () u \<and> blk_free (bview u) 4"
proof -
  let ?s = "fs_state bitmap_sample"
  have "fs_layout ?s" using bitmap_sample_bits by (auto intro!: fs_layout_sample)
  moreover have f: "4 < unat (sb_size (sb_of (bview ?s)))" "blk_free (bview ?s) 4" "\<forall>c < 4. \<not> blk_free (bview ?s) c"
    using bitmap_sample_bits(2) by (simp_all add: sb_of_sample blk_free_sample)
  moreover have "\<not> log_area ?s (of_nat 4)" by (simp add: log_area_def fs_state_sel)
  ultimately show ?thesis using bfree_undoes_balloc [OF fs_state_sel(1,2), of bitmap_sample 4] by auto
qed

end
