(* ===== verification/File.thy ===== *)
theory File
  imports Fs
begin

text \<open>
  The table of open files (file.c, file.h) and pipealloc of pipe.c. A file names a pipe by the address of its page or an
  inode by its slot in the inode cache. The bytes fileread copies to \<open>addr\<close> are part of its result, and
  those filewrite takes from \<open>addr\<close> are an argument.
\<close>

section \<open>State\<close>

definition NFILE :: nat where "NFILE = 100"

datatype ftype = FD_NONE | FD_PIPE | FD_INODE

record kfile =
  f_type :: ftype
  f_ref :: int
  f_readable :: bool
  f_writable :: bool
  f_pipe :: uint
  f_ip :: nat
  f_off :: uint

record ftable_state = icache_state +
  files :: "kfile list"

definition upd_file :: "nat \<Rightarrow> (kfile \<Rightarrow> kfile) \<Rightarrow> 'x ftable_state_scheme \<Rightarrow> 'x ftable_state_scheme" where
  "upd_file i f s = s\<lparr>files := (files s)[i := f (files s ! i)]\<rparr>"

abbreviation fl :: "'x ftable_state_scheme \<Rightarrow> nat \<Rightarrow> kfile" where
  "fl s i \<equiv> files s ! i"

section \<open>Operations\<close>

definition filealloc :: "'x ftable_state_scheme \<Rightarrow> nat option \<times> 'x ftable_state_scheme" where
  "filealloc s =
     (case find_idx (\<lambda>f. f_ref f = 0) (files s) of
        Some i \<Rightarrow> (Some i, upd_file i (\<lambda>f. f\<lparr>f_ref := 1\<rparr>) s)
      | None \<Rightarrow> (None, s))"

definition filedup :: "nat \<Rightarrow> 'x ftable_state_scheme \<Rightarrow> (nat, 'x ftable_state_scheme) kres" where
  "filedup i s =
     (if f_ref (fl s i) < 1 then Panic ''filedup''
      else Done i (upd_file i (\<lambda>f. f\<lparr>f_ref := f_ref f + 1\<rparr>) s))"

definition fileclose :: "uint \<Rightarrow> nat \<Rightarrow> 'x ftable_state_scheme \<Rightarrow> (unit, 'x ftable_state_scheme) kres" where
  "fileclose kend i s =
     (if f_ref (fl s i) < 1 then Panic ''fileclose''
      else let s1 = upd_file i (\<lambda>f. f\<lparr>f_ref := f_ref f - 1\<rparr>) s
           in if f_ref (fl s1 i) > 0 then Done () s1
              else let ff = fl s1 i;
                       s2 = upd_file i (\<lambda>f. f\<lparr>f_ref := 0, f_type := FD_NONE\<rparr>) s1
                   in (case f_type ff of
                         FD_PIPE \<Rightarrow> pipeclose kend (f_pipe ff) (f_writable ff) s2
                       | FD_INODE \<Rightarrow>
                           kbind (begin_op s2) (\<lambda>_ s3. kbind (iput (f_ip ff) s3) (\<lambda>_ s4. end_op s4))
                       | FD_NONE \<Rightarrow> Done () s2))"

definition filestat :: "nat \<Rightarrow> 'x ftable_state_scheme \<Rightarrow> (int \<times> stat option, 'x ftable_state_scheme) kres" where
  "filestat i s =
     (if f_type (fl s i) = FD_INODE then
        kbind (ilock (f_ip (fl s i)) s) (\<lambda>_ s1.
          let st = stati (f_ip (fl s1 i)) s1
          in kbind (iunlock (f_ip (fl s1 i)) s1) (\<lambda>_ s2. Done (0, Some st) s2))
      else Done (-1, None) s)"

definition fileread :: "'x ftable_state_scheme devsw \<Rightarrow> nat \<Rightarrow> int \<Rightarrow> 'x ftable_state_scheme \<Rightarrow>
    (int \<times> uchar list, 'x ftable_state_scheme) kres" where
  "fileread dv i n s =
     (if \<not> f_readable (fl s i) then Done (-1, []) s
      else case f_type (fl s i) of
        FD_PIPE \<Rightarrow> piperead (f_pipe (fl s i)) n s
      | FD_INODE \<Rightarrow>
          kbind (ilock (f_ip (fl s i)) s) (\<lambda>_ s1.
          kbind (readi dv (f_ip (fl s1 i)) (f_off (fl s1 i)) (of_int n) s1) (\<lambda>(r, bs) s2.
            let s3 = (if r > 0 then upd_file i (\<lambda>f. f\<lparr>f_off := f_off f + of_int r\<rparr>) s2 else s2)
            in kbind (iunlock (f_ip (fl s3 i)) s3) (\<lambda>_ s4. Done (r, bs) s4)))
      | FD_NONE \<Rightarrow> Panic ''fileread'')"

text \<open>The outcome of pipewrite as that of its caller: a writer that waits for room is asleep on the pipe's write channel.\<close>

definition pw_kres :: "uint \<Rightarrow> (pw_result, 's) kres \<Rightarrow> (int, 's) kres" where
  "pw_kres p r = kbind r (\<lambda>w s. case w of PwDone n \<Rightarrow> Done n s | PwBlocked _ \<Rightarrow> Sleep (ChanPipeWrite p) s)"

definition filewrite_max :: nat where
  "filewrite_max = nat ((LOGSIZE - 1 - 1 - 2) div 2) * 512"

text \<open>The loop of filewrite, with the bytes still to write; false when writei failed.\<close>

function filewrite_loop :: "'x ftable_state_scheme devsw \<Rightarrow> nat \<Rightarrow> uchar list \<Rightarrow> 'x ftable_state_scheme \<Rightarrow>
    (bool, 'x ftable_state_scheme) kres" where
  "filewrite_loop dv i bs s =
     (if bs = [] then Done True s
      else let n1 = min (length bs) filewrite_max in
        kbind (begin_op s) (\<lambda>_ s1.
        kbind (ilock (f_ip (fl s1 i)) s1) (\<lambda>_ s2.
        kbind (writei dv (f_ip (fl s2 i)) (take n1 bs) (f_off (fl s2 i)) (of_nat n1) s2) (\<lambda>r s3.
          let s4 = (if r > 0 then upd_file i (\<lambda>f. f\<lparr>f_off := f_off f + of_int r\<rparr>) s3 else s3)
          in kbind (iunlock (f_ip (fl s4 i)) s4) (\<lambda>_ s5.
             kbind (end_op s5) (\<lambda>_ s6.
               if r < 0 then Done False s6
               else if r \<noteq> int n1 then Panic ''short filewrite''
               else filewrite_loop dv i (drop n1 bs) s6))))))"
  by pat_completeness auto
termination
  by (relation "measure (\<lambda>(dv, i, bs, s). length bs)") (auto simp: filewrite_max_def LOGSIZE_def)

definition filewrite :: "'x ftable_state_scheme devsw \<Rightarrow> nat \<Rightarrow> uchar list \<Rightarrow> int \<Rightarrow> 'x ftable_state_scheme \<Rightarrow>
    (int, 'x ftable_state_scheme) kres" where
  "filewrite dv i bs n s =
     (if \<not> f_writable (fl s i) then Done (-1) s
      else case f_type (fl s i) of
        FD_PIPE \<Rightarrow> pw_kres (f_pipe (fl s i)) (pipewrite_loop n (f_pipe (fl s i)) (take (nat n) bs) s)
      | FD_INODE \<Rightarrow>
          kbind (filewrite_loop dv i (take (nat n) bs) s) (\<lambda>all s1. Done (if all \<and> n \<ge> 0 then n else -1) s1)
      | FD_NONE \<Rightarrow> Panic ''filewrite'')"

section \<open>pipealloc\<close>

definition close_opt :: "uint \<Rightarrow> nat option \<Rightarrow> 'x ftable_state_scheme \<Rightarrow> (unit, 'x ftable_state_scheme) kres" where
  "close_opt kend f s = (case f of Some i \<Rightarrow> fileclose kend i s | None \<Rightarrow> Done () s)"

definition pipealloc :: "uint \<Rightarrow> 'x ftable_state_scheme \<Rightarrow> ((nat \<times> nat) option, 'x ftable_state_scheme) kres" where
  "pipealloc kend s =
     (let (f0, s1) = filealloc s;
          (f1, s2) = (if f0 = None then (None, s1) else filealloc s1);
          bad = (\<lambda>t. kbind (close_opt kend f0 t) (\<lambda>_ t1. kbind (close_opt kend f1 t1) (\<lambda>_ t2. Done None t2)))
      in case (f0, f1) of
           (Some r, Some w) \<Rightarrow>
             (let (p, s3) = kalloc s2
              in if p = 0 then bad s3
                 else let s4 = upd_pipe p pipe_open s3;
                          s5 = upd_file r (\<lambda>f. f\<lparr>f_type := FD_PIPE, f_readable := True, f_writable := False, f_pipe := p\<rparr>) s4;
                          s6 = upd_file w (\<lambda>f. f\<lparr>f_type := FD_PIPE, f_readable := False, f_writable := True, f_pipe := p\<rparr>) s5
                      in Done (Some (r, w)) s6)
         | _ \<Rightarrow> bad s2)"

end
