(* ===== verification/Proc.thy ===== *)
theory Proc
  imports File
begin

text \<open>
  The operations of proc.c that need the file table and the inode cache: creating the first
  process, fork, the part of exit before the process table is locked, and the first return to user space.
  The addresses of the assembly entry points and of the kernel's end and data are arguments.
\<close>

section \<open>State\<close>

record kern_state = ftable_state +
  ticks :: uint
  forkret_first :: bool

definition put16 :: "mem \<Rightarrow> uint \<Rightarrow> ushort \<Rightarrow> mem" where
  "put16 m a w = m(a := ucast w, a + 1 := ucast (drop_bit 8 w))"

definition SEG_UCODE3 :: ushort where "SEG_UCODE3 = or (push_bit 3 4) 3"

definition SEG_UDATA3 :: ushort where "SEG_UDATA3 = or (push_bit 3 5) 3"

definition FL_IF :: uint where "FL_IF = 0x200"

section \<open>Operations\<close>

definition userinit :: "uint \<Rightarrow> uint \<Rightarrow> uint \<Rightarrow> uchar list \<Rightarrow> 'x ftable_state_scheme devsw \<Rightarrow> 'x ftable_state_scheme \<Rightarrow>
    (unit, 'x ftable_state_scheme) kres" where
  "userinit trapret forkret kdata initcode dv s =
     (case allocproc trapret forkret s of
        (None, _) \<Rightarrow> Panic ''null dereference''
      | (Some i, s1) \<Rightarrow>
          kbind (setupkvm kdata (s1\<lparr>initproc := Some i\<rparr>)) (\<lambda>pgdir s2.
            let s3 = upd_proc i (\<lambda>p. p\<lparr>p_pgdir := pgdir\<rparr>) s2
            in if pgdir = 0 then Panic ''userinit: out of memory?''
               else kbind (inituvm pgdir initcode s3) (\<lambda>_ s4.
                 let tf = p_tf (procs s4 ! i);
                     m0 = memset tf 0 TF_SIZE (memory s4);
                     m1 = put16 m0 (tf + TF_CS) SEG_UCODE3;
                     m2 = put16 m1 (tf + TF_DS) SEG_UDATA3;
                     m3 = put16 m2 (tf + TF_ES) SEG_UDATA3;
                     m4 = put16 m3 (tf + TF_SS) SEG_UDATA3;
                     m5 = put32 m4 (tf + TF_EFLAGS) FL_IF;
                     m6 = put32 m5 (tf + TF_ESP) PGSIZE;
                     m7 = put32 m6 (tf + TF_EIP) 0;
                     s5 = upd_proc i (\<lambda>p. p\<lparr>p_sz := PGSIZE,
                            p_name := safestrcpy (p_name p) (cstr (map (\<lambda>c. of_nat (of_char c)) ''initcode'')) 16\<rparr>) (s4\<lparr>memory := m7\<rparr>)
                 in kbind (namei dv [slash] s5) (\<lambda>ip s6.
                    Done () (upd_proc i (\<lambda>p. p\<lparr>p_cwd := ip, p_exit_status := 0, p_state := RUNNABLE\<rparr>) s6)))))"

definition fork_file :: "nat \<Rightarrow> nat \<Rightarrow> 'x ftable_state_scheme \<Rightarrow> (unit, 'x ftable_state_scheme) kres" where
  "fork_file np k s =
     (case p_ofile (curproc s) ! k of
        None \<Rightarrow> Done () s
      | Some f \<Rightarrow> kbind (filedup f s) (\<lambda>f s1.
          Done () (upd_proc np (\<lambda>p. p\<lparr>p_ofile := (p_ofile p)[k := Some f]\<rparr>) s1)))"

definition fork :: "uint \<Rightarrow> uint \<Rightarrow> uint \<Rightarrow> uint \<Rightarrow> 'x ftable_state_scheme \<Rightarrow> (int, 'x ftable_state_scheme) kres" where
  "fork trapret forkret kend kdata s =
     (case allocproc trapret forkret s of
        (None, s1) \<Rightarrow> Done (-1) s1
      | (Some np, s1) \<Rightarrow>
          kbind (copyuvm kend kdata (p_pgdir (curproc s1)) (p_sz (curproc s1)) s1) (\<lambda>d s2.
            let s3 = upd_proc np (\<lambda>p. p\<lparr>p_pgdir := d\<rparr>) s2
            in if d = 0 then
                 kbind (kfree kend (p_kstack (procs s3 ! np)) s3) (\<lambda>_ s4.
                   Done (-1) (upd_proc np (\<lambda>p. p\<lparr>p_kstack := 0, p_state := UNUSED\<rparr>) s4))
               else
                 let me = curproc s3;
                     s4 = upd_proc np (\<lambda>p. p\<lparr>p_sz := p_sz me, p_parent := cur s3, p_job := p_job me\<rparr>) s3;
                     tf = p_tf (procs s4 ! np);
                     m1 = memmove tf (p_tf me) TF_SIZE (memory s4);
                     m2 = put32 m1 (tf + TF_EAX) 0
                 in kbind (kfor (fork_file np) [0..<NOFILE] (s4\<lparr>memory := m2\<rparr>)) (\<lambda>_ s5.
                    kbind (idup (the (p_cwd (curproc s5))) s5) (\<lambda>ip s6.
                      let me = curproc s6;
                          s7 = upd_proc np (\<lambda>p. p\<lparr>p_cwd := Some ip, p_name := safestrcpy (p_name p) (p_name me) 16\<rparr>) s6
                      in Done (p_pid (procs s7 ! np)) (upd_proc np (\<lambda>p. p\<lparr>p_state := RUNNABLE\<rparr>) s7)))))"

definition exit_file :: "uint \<Rightarrow> nat \<Rightarrow> 'x ftable_state_scheme \<Rightarrow> (unit, 'x ftable_state_scheme) kres" where
  "exit_file kend fd s =
     (case p_ofile (curproc s) ! fd of
        None \<Rightarrow> Done () s
      | Some f \<Rightarrow> kbind (fileclose kend f s) (\<lambda>_ s1.
          Done () (on_cur (\<lambda>p. p\<lparr>p_ofile := (p_ofile p)[fd := None]\<rparr>) s1)))"

definition exit :: "uint \<Rightarrow> int \<Rightarrow> 'x ftable_state_scheme \<Rightarrow> (unit, 'x ftable_state_scheme) kres" where
  "exit kend status s =
     (let s1 = on_cur (\<lambda>p. p\<lparr>p_exit_status := status\<rparr>) s
      in if cur s1 = initproc s1 then Panic ''init exiting''
         else kbind (kfor (exit_file kend) [0..<NOFILE] s1) (\<lambda>_ s2.
              kbind (begin_op s2) (\<lambda>_ s3.
              kbind (iput (the (p_cwd (curproc s3))) s3) (\<lambda>_ s4.
              kbind (end_op s4) (\<lambda>_ s5.
                Done () (exit_tail (on_cur (\<lambda>p. p\<lparr>p_cwd := None, p_job := 0\<rparr>) s5)))))))"

definition forkret :: "'x kern_state_scheme \<Rightarrow> (unit, 'x kern_state_scheme) kres" where
  "forkret s = (if forkret_first s then initlog (s\<lparr>forkret_first := False\<rparr>) else Done () s)"

end
