(* ===== verification/Digits.thy ===== *)
theory Digits
  imports Prelude
begin

text \<open>
  The conversion of numbers to digits that printint of console.c and printint of printf.c share: the do-while loop that
  fills a 16-byte buffer from the last digit on, and the sign.
\<close>

text \<open>The digits, last one first. The callers pass the bases 10 and 16; the loop divides, so a base below 2 is meaningless.\<close>

function print_digits :: "nat \<Rightarrow> nat \<Rightarrow> nat list" where
  "print_digits base x = x mod base # (if 1 < base \<and> x div base \<noteq> 0 then print_digits base (x div base) else [])"
  by pat_completeness auto
termination
  by (relation "measure snd") (auto intro: div_less_dividend simp: div_greater_zero_iff)

declare print_digits.simps [simp del]

text \<open>The magnitude printint works on: the negation of the most negative number wraps to itself.\<close>

definition print_magnitude :: "int \<Rightarrow> bool \<Rightarrow> nat" where
  "print_magnitude xx sign = (if sign \<and> xx < 0 then unat (of_int (- xx) :: uint) else unat (of_int xx :: uint))"

text \<open>The value of digits, last one first.\<close>

primrec digits_val :: "nat \<Rightarrow> nat list \<Rightarrow> nat" where
  "digits_val base [] = 0"
| "digits_val base (d # ds) = d + base * digits_val base ds"

lemma digits_val_print: "1 < base \<Longrightarrow> digits_val base (print_digits base x) = x"
proof (induction base x rule: print_digits.induct)
  case (1 base x)
  show ?case
  proof (cases "x div base = 0")
    case True
    then have "x mod base = x" using "1.prems" by (simp add: div_eq_0_iff)
    then show ?thesis using True by (subst print_digits.simps) simp
  next
    case False
    then show ?thesis using 1 by (subst print_digits.simps) simp
  qed
qed

lemma print_digits_less: "0 < base \<Longrightarrow> d \<in> set (print_digits base x) \<Longrightarrow> d < base"
proof (induction base x rule: print_digits.induct)
  case (1 base x)
  then show ?case by (subst (asm) (2) print_digits.simps) (auto split: if_splits)
qed

lemma length_print_digits: "1 < base \<Longrightarrow> x < base ^ n \<Longrightarrow> 0 < n \<Longrightarrow> length (print_digits base x) \<le> n"
proof (induction base x arbitrary: n rule: print_digits.induct)
  case (1 base x)
  show ?case
  proof (cases "x div base = 0")
    case True
    then show ?thesis using 1 by (subst print_digits.simps) simp
  next
    case False
    obtain m where n: "n = Suc m" using "1.prems"(3) by (cases n) auto
    have "x div base < base ^ m" using "1.prems" n by (simp add: less_mult_imp_div_less mult.commute)
    moreover have "0 < m"
    proof (rule ccontr)
      assume "\<not> 0 < m"
      then have "x < base" using "1.prems" n by simp
      then show False using False by simp
    qed
    ultimately have "length (print_digits base (x div base)) \<le> m" using "1.IH" "1.prems"(1) False by simp
    then show ?thesis using n by (subst print_digits.simps) simp
  qed
qed

lemma print_digits_last: "1 < base \<Longrightarrow> x \<noteq> 0 \<Longrightarrow> last (print_digits base x) \<noteq> 0"
proof (induction base x rule: print_digits.induct)
  case (1 base x)
  show ?case
  proof (cases "x div base = 0")
    case True
    then have "x < base" using "1.prems"(1) by (simp add: div_eq_0_iff)
    then show ?thesis using "1.prems" True by (subst print_digits.simps) simp
  next
    case False
    then have "last (print_digits base (x div base)) \<noteq> 0" using "1.IH" "1.prems"(1) by simp
    moreover have "print_digits base (x div base) \<noteq> []" by (subst print_digits.simps) simp
    ultimately show ?thesis using False "1.prems" by (subst print_digits.simps) simp
  qed
qed

lemma magnitude_less: "print_magnitude xx sign < 2 ^ 32"
  using unat_lt32 by (simp add: print_magnitude_def)

text \<open>The magnitude is the absolute value of the number when the sign is printed, and the number modulo 2^32 when it is not.\<close>

lemma print_magnitude_signed: "- (2 ^ 31) \<le> xx \<Longrightarrow> xx < 2 ^ 31 \<Longrightarrow> int (print_magnitude xx True) = \<bar>xx\<bar>"
proof -
  assume a: "- (2 ^ 31) \<le> xx" "xx < 2 ^ 31"
  have e: "int (unat (of_int n :: uint)) = n" if "0 \<le> n" "n < 2 ^ 32" for n
    using that by (simp add: unsigned_of_int take_bit_int_eq_self)
  show ?thesis
  proof (cases "xx < 0")
    case True
    then have "int (unat (of_int (- xx) :: uint)) = - xx" using a by (intro e) simp_all
    then show ?thesis using True by (simp add: print_magnitude_def del: of_int_minus)
  next
    case False
    then have "int (unat (of_int xx :: uint)) = xx" using a by (intro e) simp_all
    then show ?thesis using False by (simp add: print_magnitude_def)
  qed
qed

lemma print_buffer_fits:
  assumes "base = 10 \<or> base = 16"
  shows "length (print_digits base (print_magnitude xx sign)) \<le> 10"
proof -
  have "print_magnitude xx sign < base ^ 10"
    using magnitude_less [of xx sign] assms by auto
  then show ?thesis using assms by (intro length_print_digits) auto
qed

end
