(* ===== verification/Console.thy ===== *)
theory Console
  imports Proc Digits
begin

text \<open>
  The console (console.c), the keyboard (kbd.c, kbd.h), the serial port (uart.c) and procdump of proc.c. The screen controller is its
  text memory and its registers; the serial line is the bytes sent and the bytes waiting; the keyboard controller is the scan codes
  waiting. A processor that finds \<open>panicked\<close> set spins for ever, which is the outcome \<open>Panic\<close>. The locks of the console are not part of the state.
\<close>

section \<open>State\<close>

definition INPUT_BUF :: nat where "INPUT_BUF = 128"

definition BACKSPACE :: int where "BACKSPACE = 0x100"

record cons_state = kern_state +
  panicked :: bool
  locking :: bool
  uart :: bool
  serial_out :: "uchar list"
  serial_in :: "uchar list"
  crt_regs :: "uchar \<Rightarrow> uchar"
  crt :: "nat \<Rightarrow> ushort"
  in_buf :: "uchar list"
  in_r :: uint
  in_w :: uint
  in_e :: uint
  kbd_in :: "uchar list"
  kbd_shift :: uint

section \<open>Output\<close>

definition uartputc :: "int \<Rightarrow> 'x cons_state_scheme \<Rightarrow> 'x cons_state_scheme" where
  "uartputc c s = (if \<not> uart s then s else s\<lparr>serial_out := serial_out s @ [of_int c]\<rparr>)"

definition cursor :: "'x cons_state_scheme \<Rightarrow> nat" where
  "cursor s = 256 * unat (crt_regs s 14) + unat (crt_regs s 15)"

definition set_cursor :: "nat \<Rightarrow> 'x cons_state_scheme \<Rightarrow> 'x cons_state_scheme" where
  "set_cursor pos s = s\<lparr>crt_regs := (crt_regs s)(14 := of_nat (pos div 256), 15 := of_nat pos)\<rparr>"

text \<open>The count of the memset is negative, so huge, when the position is behind the last line.\<close>

definition cgaputc :: "int \<Rightarrow> 'x cons_state_scheme \<Rightarrow> (unit, 'x cons_state_scheme) kres" where
  "cgaputc c s =
     (let pos = cursor s;
          (pos1, m1) =
            (if c = 10 then (pos + (80 - pos mod 80), crt s)
             else if c = BACKSPACE then (if pos > 0 then pos - 1 else pos, crt s)
             else (pos + 1, (crt s)(pos := or (of_int (c mod 256)) 0x0700)))
      in if pos1 div 80 \<ge> 24 then
           (let m2 = (\<lambda>i. if i < 23 * 80 then m1 (i + 80) else m1 i);
                pos2 = pos1 - 80
            in if pos2 > 24 * 80 then Panic ''memset past the screen''
               else let m3 = (\<lambda>i. if pos2 \<le> i \<and> i < 24 * 80 then 0 else m2 i)
                    in Done () (set_cursor pos2 (s\<lparr>crt := m3(pos2 := or 0x20 0x0700)\<rparr>)))
         else Done () (set_cursor pos1 (s\<lparr>crt := m1(pos1 := or 0x20 0x0700)\<rparr>)))"

definition consputc :: "int \<Rightarrow> 'x cons_state_scheme \<Rightarrow> (unit, 'x cons_state_scheme) kres" where
  "consputc c s =
     (if panicked s then Panic ''panicked''
      else cgaputc c (if c = BACKSPACE then uartputc 8 (uartputc 32 (uartputc 8 s)) else uartputc c s))"

definition putchars :: "int list \<Rightarrow> 'x cons_state_scheme \<Rightarrow> (unit, 'x cons_state_scheme) kres" where
  "putchars cs s = kfor consputc cs s"

definition hexdigits :: string where "hexdigits = ''0123456789abcdef''"

definition printint :: "int \<Rightarrow> nat \<Rightarrow> bool \<Rightarrow> 'x cons_state_scheme \<Rightarrow> (unit, 'x cons_state_scheme) kres" where
  "printint xx base sign s =
     (let x = print_magnitude xx sign;
          buf = map (\<lambda>d. of_char (hexdigits ! d)) (print_digits base x) @ (if sign \<and> xx < 0 then [45] else [])
      in putchars (rev buf) s)"

text \<open>
  The arguments of cprintf: words, and pointers to strings (\<open>None\<close> is the null pointer). A conversion that meets the other kind
  of argument, or none, reads memory that is not modelled.
\<close>

datatype karg = KInt uint | KStr "uchar list option"

definition put_string :: "uchar list option \<Rightarrow> 'x cons_state_scheme \<Rightarrow> (unit, 'x cons_state_scheme) kres" where
  "put_string t s = putchars (case t of None \<Rightarrow> map of_char ''(null)'' | Some bs \<Rightarrow> map (\<lambda>b. sint b) bs) s"

fun cprintf_loop :: "string \<Rightarrow> karg list \<Rightarrow> 'x cons_state_scheme \<Rightarrow> (unit, 'x cons_state_scheme) kres" where
  "cprintf_loop [] args s = Done () s"
| "cprintf_loop [c] args s = (if c \<noteq> CHR ''%'' then consputc (of_char c) s else Done () s)"
| "cprintf_loop (c # d # fmt) args s =
     (if c \<noteq> CHR ''%'' then kbind (consputc (of_char c) s) (\<lambda>_ s1. cprintf_loop (d # fmt) args s1)
      else if d = CHR ''d'' then
        (case args of
           KInt w # args1 \<Rightarrow> kbind (printint (sint w) 10 True s) (\<lambda>_ s1. cprintf_loop fmt args1 s1)
         | _ \<Rightarrow> Panic ''bad argument'')
      else if d = CHR ''x'' \<or> d = CHR ''p'' then
        (case args of
           KInt w # args1 \<Rightarrow> kbind (printint (sint w) 16 False s) (\<lambda>_ s1. cprintf_loop fmt args1 s1)
         | _ \<Rightarrow> Panic ''bad argument'')
      else if d = CHR ''s'' then
        (case args of
           KStr t # args1 \<Rightarrow> kbind (put_string t s) (\<lambda>_ s1. cprintf_loop fmt args1 s1)
         | _ \<Rightarrow> Panic ''bad argument'')
      else if d = CHR ''%'' then kbind (consputc 37 s) (\<lambda>_ s1. cprintf_loop fmt args s1)
      else kbind (consputc 37 s) (\<lambda>_ s1. kbind (consputc (of_char d) s1) (\<lambda>_ s2. cprintf_loop fmt args s2)))"

definition cprintf :: "string \<Rightarrow> karg list \<Rightarrow> 'x cons_state_scheme \<Rightarrow> (unit, 'x cons_state_scheme) kres" where
  "cprintf fmt args s = cprintf_loop fmt args s"

text \<open>The return addresses on the stack above \<open>v\<close>, ten of them, zero where the chain of frames ends.\<close>

primrec pcs_loop :: "nat \<Rightarrow> uint \<Rightarrow> mem \<Rightarrow> uint list" where
  "pcs_loop 0 ebp m = []"
| "pcs_loop (Suc n) ebp m =
     (if ebp = 0 \<or> ebp < KERNBASE \<or> ebp = 0xffffffff then replicate (Suc n) 0
      else get32 m (ebp + 4) # pcs_loop n (get32 m ebp) m)"

definition getcallerpcs :: "uint \<Rightarrow> mem \<Rightarrow> uint list" where
  "getcallerpcs v m = pcs_loop 10 (v - 8) m"

text \<open>panic on processor \<open>cpuid\<close> with its argument at \<open>v\<close> on the stack, up to the endless loop at its end.\<close>

definition panic :: "uint \<Rightarrow> uint \<Rightarrow> string \<Rightarrow> 'x cons_state_scheme \<Rightarrow> (unit, 'x cons_state_scheme) kres" where
  "panic cpuid v msg s =
     kbind (cprintf ''cpu%d: panic: '' [KInt cpuid] (s\<lparr>locking := False\<rparr>)) (\<lambda>_ s1.
     kbind (cprintf msg [] s1) (\<lambda>_ s2.
     kbind (cprintf [CHR 0x0A] [] s2) (\<lambda>_ s3.
     kbind (kfor (\<lambda>pc. cprintf '' %p'' [KInt pc]) (getcallerpcs v (memory s3)) s3) (\<lambda>_ s4.
       Done () (s4\<lparr>panicked := True\<rparr>)))))"

fun state_name :: "procstate \<Rightarrow> string" where
  "state_name UNUSED = ''unused''"
| "state_name EMBRYO = ''embryo''"
| "state_name SLEEPING = ''sleep ''"
| "state_name RUNNABLE = ''runble''"
| "state_name RUNNING = ''run   ''"
| "state_name ZOMBIE = ''zombie''"

definition CTX_EBP :: uint where "CTX_EBP = 12"

definition procdump_one :: "nat \<Rightarrow> 'x cons_state_scheme \<Rightarrow> (unit, 'x cons_state_scheme) kres" where
  "procdump_one i s =
     (let p = procs s ! i
      in if p_state p = UNUSED then Done () s
         else kbind (cprintf ''%d %s %s''
                [KInt (of_int (p_pid p)), KStr (Some (map of_char (state_name (p_state p)))), KStr (Some (cstrn 16 (p_name p)))] s) (\<lambda>_ s1.
              kbind (if p_state p = SLEEPING
                     then kfor (\<lambda>pc. cprintf '' %p'' [KInt pc])
                            (takeWhile (\<lambda>pc. pc \<noteq> 0) (getcallerpcs (get32 (memory s1) (p_context p + CTX_EBP) + 8) (memory s1))) s1
                     else Done () s1) (\<lambda>_ s2. cprintf [CHR 0x0A] [] s2)))"

definition procdump :: "'x cons_state_scheme \<Rightarrow> (unit, 'x cons_state_scheme) kres" where
  "procdump s = kfor procdump_one [0..<NPROC] s"

section \<open>Input\<close>

text \<open>The loop of kill line: \<open>n\<close> is the distance of the edit index from the write index.\<close>

primrec kill_line :: "nat \<Rightarrow> 'x cons_state_scheme \<Rightarrow> (unit, 'x cons_state_scheme) kres" where
  "kill_line 0 s = Done () s"
| "kill_line (Suc n) s =
     (if in_buf s ! (unat (in_e s - 1) mod INPUT_BUF) \<noteq> 10
      then kbind (consputc BACKSPACE (s\<lparr>in_e := in_e s - 1\<rparr>)) (\<lambda>_ s1. kill_line n s1)
      else Done () s)"

definition store_key :: "int \<Rightarrow> 'x cons_state_scheme \<Rightarrow> (unit, 'x cons_state_scheme) kres" where
  "store_key c s =
     (if c \<noteq> 0 \<and> in_e s - in_r s < of_nat INPUT_BUF then
        (let c1 = (if c = 13 then 10 else c);
             s1 = s\<lparr>in_buf := (in_buf s)[unat (in_e s) mod INPUT_BUF := of_int c1], in_e := in_e s + 1\<rparr>
         in kbind (consputc c1 s1) (\<lambda>_ s2.
              if c1 = 10 \<or> c1 = 4 \<or> in_e s2 = in_r s2 + of_nat INPUT_BUF
              then Done () (wakeup ChanInput (s2\<lparr>in_w := in_e s2\<rparr>))
              else Done () s2))
      else Done () s)"

definition console_key :: "int \<Rightarrow> 'x cons_state_scheme \<Rightarrow> (unit, 'x cons_state_scheme) kres" where
  "console_key c s =
     (if c = 16 then procdump s
      else if c = 21 then kill_line (unat (in_e s - in_w s)) s
      else if c = 8 \<or> c = 127 then
        (if in_e s \<noteq> in_w s then consputc BACKSPACE (s\<lparr>in_e := in_e s - 1\<rparr>) else Done () s)
      else store_key c s)"

text \<open>consoleintr, with the characters that \<open>getc\<close> returns before its first negative result.\<close>

definition consoleintr :: "int list \<Rightarrow> 'x cons_state_scheme \<Rightarrow> (unit, 'x cons_state_scheme) kres" where
  "consoleintr cs s = kfor console_key cs s"

text \<open>
  The loop of consoleread with \<open>n\<close> bytes still wanted of \<open>target\<close> and the bytes \<open>acc\<close> stored: the bytes
  wanted at its end, or the state in which the reader sleeps (\<open>CrBlocked\<close>) or has been killed.
\<close>

datatype cr_result = CrEnd nat "uchar list" | CrKilled "uchar list" | CrBlocked nat "uchar list"

primrec consoleread_loop :: "nat \<Rightarrow> nat \<Rightarrow> uchar list \<Rightarrow> 'x cons_state_scheme \<Rightarrow> cr_result \<times> 'x cons_state_scheme" where
  "consoleread_loop target 0 acc s = (CrEnd 0 acc, s)"
| "consoleread_loop target (Suc n) acc s =
     (if in_r s = in_w s then
        (if p_killed (curproc s) then (CrKilled acc, s) else (CrBlocked (Suc n) acc, s))
      else let c = in_buf s ! (unat (in_r s) mod INPUT_BUF);
               s1 = s\<lparr>in_r := in_r s + 1\<rparr>
           in if c = 4 then
                (if Suc n < target then (CrEnd (Suc n) acc, s1\<lparr>in_r := in_r s1 - 1\<rparr>) else (CrEnd (Suc n) acc, s1))
              else if c = 10 then (CrEnd n (acc @ [c]), s1)
              else consoleread_loop target n (acc @ [c]) s1)"

definition consoleread_end :: "nat \<Rightarrow> nat \<Rightarrow> cr_result \<times> 'x cons_state_scheme \<Rightarrow> (int \<times> uchar list, 'x cons_state_scheme) kres" where
  "consoleread_end ip target r =
     (case r of
        (CrEnd n bs, s) \<Rightarrow> kbind (ilock ip s) (\<lambda>_ s1. Done (int target - int n, bs) s1)
      | (CrKilled bs, s) \<Rightarrow> kbind (ilock ip s) (\<lambda>_ s1. Done (-1, bs) s1)
      | (CrBlocked n bs, s) \<Rightarrow> sleep_on ChanInput s)"

definition consoleread :: "nat \<Rightarrow> uint \<Rightarrow> 'x cons_state_scheme \<Rightarrow> (int \<times> uchar list, 'x cons_state_scheme) kres" where
  "consoleread ip n s =
     kbind (iunlock ip s) (\<lambda>_ s1.
       consoleread_end ip (nat (sint n)) (consoleread_loop (nat (sint n)) (nat (sint n)) [] s1))"

text \<open>A sleeping reader that runs again goes on with the bytes it has.\<close>

definition consoleread_resume :: "nat \<Rightarrow> nat \<Rightarrow> nat \<Rightarrow> uchar list \<Rightarrow> 'x cons_state_scheme \<Rightarrow>
    (int \<times> uchar list, 'x cons_state_scheme) kres" where
  "consoleread_resume ip target n acc s = consoleread_end ip target (consoleread_loop target n acc (sleep_return s))"

definition consolewrite :: "nat \<Rightarrow> uchar list \<Rightarrow> 'x cons_state_scheme \<Rightarrow> (int, 'x cons_state_scheme) kres" where
  "consolewrite ip buf s =
     kbind (iunlock ip s) (\<lambda>_ s1.
     kbind (putchars (map uint buf) s1) (\<lambda>_ s2.
     kbind (ilock ip s2) (\<lambda>_ s3. Done (int (length buf)) s3)))"

definition consoleinit :: "'x cons_state_scheme \<Rightarrow> 'x cons_state_scheme" where
  "consoleinit s = s\<lparr>locking := True\<rparr>"

text \<open>The device switch that consoleinit fills in; the console is device 1.\<close>

definition console_devsw :: "'x cons_state_scheme devsw" where
  "console_devsw = \<lparr>dev_read = (\<lambda>d. if d = 1 then Some consoleread else None),
     dev_write = (\<lambda>d. if d = 1 then Some consolewrite else None)\<rparr>"

section \<open>The keyboard\<close>

definition E0ESC :: uint where "E0ESC = 64"

text \<open>The tables of kbd.h: a list of entries from index 0 on, and entries at given indices; every other entry is 0.\<close>

definition kbd_table :: "int list \<Rightarrow> (nat \<times> int) list \<Rightarrow> nat \<Rightarrow> int" where
  "kbd_table base at i = (case map_of at i of Some v \<Rightarrow> v | None \<Rightarrow> if i < length base then base ! i else 0)"

definition shiftcode :: "nat \<Rightarrow> int" where
  "shiftcode = kbd_table [] [(0x1D, 2), (0x2A, 1), (0x36, 1), (0x38, 4), (0x9D, 2), (0xB8, 4)]"

definition togglecode :: "nat \<Rightarrow> int" where
  "togglecode = kbd_table [] [(0x3A, 8), (0x45, 16), (0x46, 32)]"

definition special_keys :: "(nat \<times> int) list" where
  "special_keys = [(0xC8, 0xE2), (0xD0, 0xE3), (0xC9, 0xE6), (0xD1, 0xE7), (0xCB, 0xE4), (0xCD, 0xE5),
     (0x97, 0xE0), (0xCF, 0xE1), (0xD2, 0xE8), (0xD3, 0xE9)]"

definition ascii :: "string \<Rightarrow> int list" where
  "ascii t = map of_char t"

definition keypad :: "int list" where
  "keypad = replicate 13 0 @ ascii ''789-456+1230.'' @ replicate 4 0"

definition normalmap :: "nat \<Rightarrow> int" where
  "normalmap = kbd_table
     ([0, 0x1B] @ ascii ''1234567890-='' @ [8, 9] @ ascii ''qwertyuiop[]'' @ [10, 0] @ ascii ''asdfghjkl;'' @ [39] @ ascii ''`'' @
      [0, 92] @ ascii ''zxcvbnm,./'' @ [0, 42, 0, 32] @ keypad)
     ([(0x9C, 10), (0xB5, 47)] @ special_keys)"

definition shiftmap :: "nat \<Rightarrow> int" where
  "shiftmap = kbd_table
     ([0, 0x1B] @ ascii ''!@#$%^&*()_+'' @ [8, 9] @ ascii ''QWERTYUIOP{}'' @ [10, 0] @ ascii ''ASDFGHJKL:'' @ [34] @ ascii ''~'' @
      [0] @ ascii ''|ZXCVBNM<>?'' @ [0, 42, 0, 32] @ keypad)
     ([(0x9C, 10), (0xB5, 47)] @ special_keys)"

definition ctl :: "string \<Rightarrow> int list" where
  "ctl t = map (\<lambda>c. of_char c - 64) t"

definition ctlmap :: "nat \<Rightarrow> int" where
  "ctlmap = kbd_table
     (replicate 16 0 @ ctl ''QWERTYUIOP'' @ [0, 0, 13, 0] @ ctl ''ASDFGHJKL'' @ replicate 4 0 @ [28] @ ctl ''ZXCVBNM'' @
      [0, 0, (47 - 64) mod 256, 0, 0])
     ([(0x9C, 13), (0xB5, (47 - 64) mod 256)] @ special_keys)"

definition charcode :: "nat \<Rightarrow> nat \<Rightarrow> int" where
  "charcode k = (if k = 0 then normalmap else if k = 1 then shiftmap else ctlmap)"

text \<open>One scan code \<open>dat\<close> with the shift state: the character, and the new shift state.\<close>

definition kbd_code :: "uint \<Rightarrow> uint \<Rightarrow> int \<times> uint" where
  "kbd_code dat shift =
     (if dat = 0xE0 then (0, or shift E0ESC)
      else if and dat 0x80 \<noteq> 0 then
        (let d = (if and shift E0ESC \<noteq> 0 then dat else and dat 0x7F)
         in (0, and shift (not (or (of_int (shiftcode (unat d))) E0ESC))))
      else
        (let (d, sh0) = (if and shift E0ESC \<noteq> 0 then (or dat 0x80, and shift (not E0ESC)) else (dat, shift));
             sh1 = or sh0 (of_int (shiftcode (unat d)));
             sh2 = xor sh1 (of_int (togglecode (unat d)));
             c = charcode (unat (and sh2 3)) (unat d)
         in (if and sh2 8 \<noteq> 0
             then (if 97 \<le> c \<and> c \<le> 122 then c - 32 else if 65 \<le> c \<and> c \<le> 90 then c + 32 else c)
             else c, sh2)))"

definition kbdgetc :: "'x cons_state_scheme \<Rightarrow> int \<times> 'x cons_state_scheme" where
  "kbdgetc s =
     (case kbd_in s of
        [] \<Rightarrow> (-1, s)
      | d # ds \<Rightarrow> (case kbd_code (ucast d) (kbd_shift s) of (c, sh) \<Rightarrow> (c, s\<lparr>kbd_in := ds, kbd_shift := sh\<rparr>)))"

text \<open>The characters that calls of kbdgetc return until none is left; the keys do not touch the state of the keyboard.\<close>

primrec kbd_chars :: "uchar list \<Rightarrow> uint \<Rightarrow> int list \<times> uint" where
  "kbd_chars [] sh = ([], sh)"
| "kbd_chars (d # ds) sh =
     (case kbd_code (ucast d) sh of (c, sh1) \<Rightarrow> (case kbd_chars ds sh1 of (cs, sh2) \<Rightarrow> (c # cs, sh2)))"

definition kbdintr :: "'x cons_state_scheme \<Rightarrow> (unit, 'x cons_state_scheme) kres" where
  "kbdintr s = (case kbd_chars (kbd_in s) (kbd_shift s) of (cs, sh) \<Rightarrow> consoleintr cs (s\<lparr>kbd_in := [], kbd_shift := sh\<rparr>))"

section \<open>The serial port\<close>

text \<open>\<open>present\<close>: the status register does not read 0xFF. The read that acknowledges old conditions takes a waiting byte away.\<close>

definition uartinit :: "bool \<Rightarrow> 'x cons_state_scheme \<Rightarrow> 'x cons_state_scheme" where
  "uartinit present s =
     (if \<not> present then s
      else fold uartputc (ascii ''xv6...'' @ [10]) (s\<lparr>uart := True, serial_in := tl (serial_in s)\<rparr>))"

definition uartgetc :: "'x cons_state_scheme \<Rightarrow> int \<times> 'x cons_state_scheme" where
  "uartgetc s =
     (if \<not> uart s then (-1, s)
      else case serial_in s of [] \<Rightarrow> (-1, s) | b # bs \<Rightarrow> (uint b, s\<lparr>serial_in := bs\<rparr>))"

definition uartintr :: "'x cons_state_scheme \<Rightarrow> (unit, 'x cons_state_scheme) kres" where
  "uartintr s = (if \<not> uart s then Done () s else consoleintr (map uint (serial_in s)) (s\<lparr>serial_in := []\<rparr>))"

section \<open>Printing never leaves the screen\<close>

definition screen_ok :: "'x cons_state_scheme \<Rightarrow> bool" where
  "screen_ok s \<longleftrightarrow> \<not> panicked s \<and> cursor s < 1920"

text \<open>What output changes: the serial line, the cursor, and the first 24 lines of the text memory.\<close>

definition printed :: "'x cons_state_scheme \<Rightarrow> 'x cons_state_scheme \<Rightarrow> bool" where
  "printed s t \<longleftrightarrow> screen_ok t \<and> (\<exists>so cr m. t = s\<lparr>serial_out := so, crt_regs := cr, crt := m\<rparr> \<and> (\<forall>i \<ge> 1920. m i = crt s i))"

definition prints :: "(unit, 'x cons_state_scheme) kres \<Rightarrow> 'x cons_state_scheme \<Rightarrow> bool" where
  "prints r s \<longleftrightarrow> (\<exists>t. r = Done () t \<and> printed s t)"

lemma printed_refl: "screen_ok s \<Longrightarrow> printed s s"
proof -
  assume a: "screen_ok s"
  have "s = s\<lparr>serial_out := serial_out s, crt_regs := crt_regs s, crt := crt s\<rparr>" by (cases s) simp
  with a show ?thesis unfolding printed_def by blast
qed

lemma printed_trans:
  assumes "printed s t" "printed t u"
  shows "printed s u"
proof -
  obtain so cr m where t: "t = s\<lparr>serial_out := so, crt_regs := cr, crt := m\<rparr>" "\<forall>i \<ge> 1920. m i = crt s i"
    using assms(1) unfolding printed_def by blast
  obtain so' cr' m' where u: "u = t\<lparr>serial_out := so', crt_regs := cr', crt := m'\<rparr>" "\<forall>i \<ge> 1920. m' i = crt t i" "screen_ok u"
    using assms(2) unfolding printed_def by blast
  have "u = s\<lparr>serial_out := so', crt_regs := cr', crt := m'\<rparr>" "\<forall>i \<ge> 1920. m' i = crt s i" using t u by simp_all
  then show ?thesis using u(3) unfolding printed_def by blast
qed

lemma printed_ok: "printed s t \<Longrightarrow> screen_ok t"
  by (simp add: printed_def)

lemma prints_Done: "screen_ok s \<Longrightarrow> prints (Done () s) s"
  by (simp add: prints_def printed_refl)

lemma prints_bind:
  assumes "prints r s" "\<And>t. screen_ok t \<Longrightarrow> prints (f () t) t"
  shows "prints (kbind r f) s"
proof -
  obtain t where t: "r = Done () t" "printed s t" using assms(1) by (auto simp: prints_def)
  then obtain u where u: "f () t = Done () u" "printed t u" using assms(2) [of t] by (auto simp: prints_def printed_def)
  show ?thesis using t u printed_trans by (auto simp: prints_def)
qed

lemma prints_kfor:
  assumes "\<And>x t. screen_ok t \<Longrightarrow> prints (f x t) t"
  shows "screen_ok s \<Longrightarrow> prints (kfor f xs s) s"
proof (induction xs arbitrary: s)
  case (Cons x xs)
  then show ?case by (simp del: kbind_eq_Done add: prints_bind assms)
qed (simp add: prints_Done)

lemma cursor_set_cursor: "pos < 65536 \<Longrightarrow> cursor (set_cursor pos s) = pos"
proof -
  assume p: "pos < 65536"
  have "unat (of_nat (pos div 256) :: uchar) = pos div 256" using p by (simp add: unat_of_nat less_mult_imp_div_less)
  then show ?thesis by (simp add: cursor_def set_cursor_def unat_of_nat)
qed

lemma cgaputc_prints:
  assumes "screen_ok s"
  shows "prints (cgaputc c s) s"
proof -
  have c: "cursor s < 1920" "\<not> panicked s" using assms by (simp_all add: screen_ok_def)
  obtain pos m where d: "(if c = 10 then (cursor s + (80 - cursor s mod 80), crt s)
      else if c = BACKSPACE then (if cursor s > 0 then cursor s - 1 else cursor s, crt s)
      else (cursor s + 1, (crt s)(cursor s := or (of_int (c mod 256)) 0x0700))) = (pos, m)" by (metis surj_pair)
  have "cursor s div 80 < 24" using c(1) by simp
  moreover have "80 * (cursor s div 80) + cursor s mod 80 = cursor s" "cursor s mod 80 < 80" by simp_all
  ultimately have nl: "cursor s + (80 - cursor s mod 80) \<le> 1920" by linarith
  consider "c = 10" | "c \<noteq> 10" "c = BACKSPACE" | "c \<noteq> 10" "c \<noteq> BACKSPACE" by blast
  then have p: "pos \<le> 1920 \<and> (\<forall>i \<ge> 1920. m i = crt s i)" using d c(1) nl by cases (auto split: if_splits)
  have fin: "printed s (set_cursor q (s\<lparr>crt := m'\<rparr>))" if "q < 1920" "\<forall>i \<ge> 1920. m' i = crt s i" for q m'
  proof -
    have "screen_ok (set_cursor q (s\<lparr>crt := m'\<rparr>))"
      using that(1) c(2) cursor_set_cursor [of q "s\<lparr>crt := m'\<rparr>"] by (simp add: screen_ok_def) (simp add: set_cursor_def)
    moreover have "\<exists>cr. set_cursor q (s\<lparr>crt := m'\<rparr>) = s\<lparr>serial_out := serial_out s, crt_regs := cr, crt := m'\<rparr>"
      by (cases s) (simp add: set_cursor_def)
    ultimately show ?thesis using that(2) unfolding printed_def by blast
  qed
  show ?thesis
  proof (cases "pos div 80 \<ge> 24")
    case True
    have "24 * 80 \<le> pos" using mult_le_mono1 [OF True, of 80] div_times_less_eq_dividend [of pos 80] by linarith
    then have e: "pos = 1920" using conjunct1 [OF p] by simp
    have "\<exists>m'. cgaputc c s = Done () (set_cursor 1840 (s\<lparr>crt := m'\<rparr>)) \<and> (\<forall>i \<ge> 1920. m' i = crt s i)"
      unfolding cgaputc_def Let_def d prod.case e
      apply simp
      apply (rule exI, rule conjI, rule refl)
      using p by simp
    then show ?thesis using fin [of 1840] unfolding prints_def by auto
  next
    case False
    then have l: "pos < 1920" using mult_div_mod_eq [of 80 pos] mod_less_divisor [of 80 pos] by linarith
    have "cgaputc c s = Done () (set_cursor pos (s\<lparr>crt := m(pos := or 0x20 0x0700)\<rparr>))"
      unfolding cgaputc_def Let_def d prod.case using False by simp
    moreover have "printed s (set_cursor pos (s\<lparr>crt := m(pos := or 0x20 0x0700)\<rparr>))" using p l by (intro fin) simp_all
    ultimately show ?thesis unfolding prints_def by blast
  qed
qed

lemma uartputc_printed: "screen_ok s \<Longrightarrow> printed s (uartputc c s)"
proof -
  assume a: "screen_ok s"
  have "s\<lparr>serial_out := so\<rparr> = s\<lparr>serial_out := so, crt_regs := crt_regs s, crt := crt s\<rparr>" for so by (cases s) simp
  moreover have "screen_ok (s\<lparr>serial_out := so\<rparr>)" for so using a by (simp add: screen_ok_def cursor_def)
  ultimately have "printed s (s\<lparr>serial_out := so\<rparr>)" for so unfolding printed_def by blast
  then show ?thesis using printed_refl [OF a] by (simp add: uartputc_def)
qed

lemma consputc_prints:
  assumes "screen_ok s"
  shows "prints (consputc c s) s"
proof -
  let ?u = "if c = BACKSPACE then uartputc 8 (uartputc 32 (uartputc 8 s)) else uartputc c s"
  note s1 = uartputc_printed [OF assms, of 8]
  note s2 = uartputc_printed [OF printed_ok [OF s1], of 32]
  note s3 = uartputc_printed [OF printed_ok [OF s2], of 8]
  have u: "printed s ?u"
    using printed_trans [OF s1 printed_trans [OF s2 s3]] uartputc_printed [OF assms, of c] by simp
  obtain t where t: "cgaputc c ?u = Done () t" "printed ?u t"
    using cgaputc_prints [OF printed_ok [OF u], of c] unfolding prints_def by blast
  have "consputc c s = Done () t" using assms t(1) unfolding consputc_def screen_ok_def by simp
  then show ?thesis using printed_trans [OF u t(2)] unfolding prints_def by blast
qed

lemma putchars_prints: "screen_ok s \<Longrightarrow> prints (putchars cs s) s"
  unfolding putchars_def by (rule prints_kfor) (rule consputc_prints)

lemma printint_prints: "screen_ok s \<Longrightarrow> prints (printint xx base sign s) s"
  by (simp add: printint_def Let_def putchars_prints)

lemma put_string_prints: "screen_ok s \<Longrightarrow> prints (put_string t s) s"
  by (simp add: put_string_def putchars_prints)

lemmas out_prints = consputc_prints putchars_prints printint_prints put_string_prints prints_Done

lemma procdump_prints: "screen_ok s \<Longrightarrow> prints (procdump s) s"
proof -
  have one: "prints (procdump_one i t) t" if "screen_ok t" for i and t :: "'a cons_state_scheme"
  proof -
    have p: "prints (cprintf '' %p'' [KInt pc] u) u" if "screen_ok u" for pc and u :: "'a cons_state_scheme"
      using that by (auto simp: cprintf_def simp del: kbind_Done_right intro!: prints_bind out_prints)
    have n: "prints (cprintf [CHR 0x0A] [] u) u" if "screen_ok u" for u :: "'a cons_state_scheme"
      using that by (auto simp: cprintf_def intro!: out_prints)
    have h: "prints (cprintf ''%d %s %s'' [KInt a, KStr b, KStr c] u) u" if "screen_ok u" for a b c and u :: "'a cons_state_scheme"
      using that by (auto simp: cprintf_def simp del: kbind_Done_right intro!: prints_bind out_prints)
    show ?thesis using that
      by (auto simp: procdump_one_def Let_def simp del: kbind_Done_right intro!: prints_bind prints_Done prints_kfor p n h)
  qed
  show "screen_ok s \<Longrightarrow> prints (procdump s) s" unfolding procdump_def by (rule prints_kfor) (rule one)
qed

section \<open>The text that is printed\<close>

text \<open>Output that sends exactly the bytes \<open>bs\<close> on the serial line, where there is one.\<close>

definition outs :: "uchar list \<Rightarrow> (unit, 'x cons_state_scheme) kres \<Rightarrow> 'x cons_state_scheme \<Rightarrow> bool" where
  "outs bs r s \<longleftrightarrow> (\<exists>t. r = Done () t \<and> printed s t \<and> serial_out t = serial_out s @ (if uart s then bs else []))"

lemma printed_uart: "printed s t \<Longrightarrow> uart t = uart s"
  by (auto simp: printed_def)

lemma outs_Done: "screen_ok s \<Longrightarrow> outs [] (Done () s) s"
  by (simp add: outs_def printed_refl)

lemma outs_bind:
  assumes "outs bs r s" "\<And>t. screen_ok t \<Longrightarrow> outs cs (f () t) t"
  shows "outs (bs @ cs) (kbind r f) s"
proof -
  obtain t where t: "r = Done () t" "printed s t" "serial_out t = serial_out s @ (if uart s then bs else [])"
    using assms(1) by (auto simp: outs_def)
  obtain u where "f () t = Done () u" "printed t u" "serial_out u = serial_out t @ (if uart t then cs else [])"
    using assms(2) [OF printed_ok [OF t(2)]] by (auto simp: outs_def)
  then show ?thesis using t printed_trans [OF t(2)] printed_uart [OF t(2)] by (auto simp: outs_def)
qed

lemma cgaputc_serial: "cgaputc c s = Done () t \<Longrightarrow> serial_out t = serial_out s"
  by (auto simp: cgaputc_def Let_def set_cursor_def split: if_splits prod.splits)

lemma consputc_outs:
  assumes "screen_ok s" "c \<noteq> BACKSPACE"
  shows "outs [of_int c] (consputc c s) s"
proof -
  obtain t where t: "consputc c s = Done () t" "printed s t" using consputc_prints [OF assms(1), of c] by (auto simp: prints_def)
  then have "cgaputc c (uartputc c s) = Done () t" using assms by (simp add: consputc_def screen_ok_def)
  then have "serial_out t = serial_out (uartputc c s)" by (rule cgaputc_serial)
  then show ?thesis using t by (simp add: outs_def uartputc_def)
qed

lemma putchars_outs: "screen_ok s \<Longrightarrow> BACKSPACE \<notin> set cs \<Longrightarrow> outs (map of_int cs) (putchars cs s) s"
proof (induction cs arbitrary: s)
  case Nil
  then show ?case by (simp add: putchars_def outs_Done)
next
  case (Cons c cs)
  have "outs ([of_int c] @ map of_int cs) (kbind (consputc c s) (\<lambda>_ t. putchars cs t)) s"
    using Cons by (intro outs_bind consputc_outs) auto
  then show ?case by (simp add: putchars_def)
qed

text \<open>The decimal numeral of a number.\<close>

fun dec_digits :: "nat \<Rightarrow> nat list" where
  "dec_digits n = (if n < 10 then [n] else dec_digits (n div 10) @ [n mod 10])"

definition dec_text :: "int \<Rightarrow> uchar list" where
  "dec_text x = (if x < 0 then [45] else []) @ map (\<lambda>d. 48 + of_nat d) (dec_digits (nat \<bar>x\<bar>))"

declare dec_digits.simps [simp del]

lemma dec_digits_print: "rev (print_digits 10 n) = dec_digits n"
proof (induction n rule: dec_digits.induct)
  case (1 n)
  show ?case
  proof (cases "n < 10")
    case True
    then show ?thesis by (subst print_digits.simps, subst dec_digits.simps) simp
  next
    case False
    then have "n div 10 \<noteq> 0" by simp
    then show ?thesis using 1 False by (subst print_digits.simps, subst dec_digits.simps) simp
  qed
qed

lemma hexdigits_dec: "d < 10 \<Longrightarrow> of_int (of_char (hexdigits ! d)) = (48 + of_nat d :: uchar)" "d < 10 \<Longrightarrow> of_char (hexdigits ! d) \<noteq> BACKSPACE"
proof -
  assume "d < 10"
  then have "d \<in> {0, 1, 2, 3, 4, 5, 6, 7, 8, 9}" by auto
  then show "of_int (of_char (hexdigits ! d)) = (48 + of_nat d :: uchar)" "of_char (hexdigits ! d) \<noteq> BACKSPACE"
    by (auto simp: hexdigits_def BACKSPACE_def)
qed

lemma notin_rev_map:
  "(\<And>d. d \<in> set ds \<Longrightarrow> f d \<noteq> b) \<Longrightarrow> c \<noteq> b \<Longrightarrow> b \<notin> set (rev (map f ds @ (if P then [c] else [])))"
  by auto

lemma printint_outs:
  assumes "screen_ok s" "- (2 ^ 31) \<le> x" "x < 2 ^ 31"
  shows "outs (dec_text x) (printint x 10 True s) s"
proof -
  let ?ds = "print_digits 10 (print_magnitude x True)"
  let ?cs = "rev (map (\<lambda>d. of_char (hexdigits ! d)) ?ds @ (if x < 0 then [45] else [])) :: int list"
  have m: "print_magnitude x True = nat \<bar>x\<bar>" using print_magnitude_signed [OF assms(2,3)] by simp
  have l: "d < 10" if "d \<in> set ?ds" for d using print_digits_less [OF _ that] by simp
  have "BACKSPACE \<notin> set ?cs"
    by (rule notin_rev_map) (erule l [THEN hexdigits_dec(2)], simp add: BACKSPACE_def)
  then have "outs (map of_int ?cs) (putchars ?cs s) s" by (rule putchars_outs [OF assms(1)])
  moreover have "map of_int ?cs = dec_text x"
  proof -
    have "map (of_int \<circ> (\<lambda>d. of_char (hexdigits ! d))) (rev ?ds) = (map (\<lambda>d. 48 + of_nat d) (rev ?ds) :: uchar list)"
      by (rule map_cong [OF refl]) (use hexdigits_dec(1) [OF l] in auto)
    then show ?thesis by (simp add: dec_text_def m rev_map dec_digits_print [symmetric])
  qed
  ultimately show ?thesis by (simp add: printint_def Let_def)
qed

lemma printint_word_outs: "screen_ok s \<Longrightarrow> outs (dec_text (sint (w :: uint))) (printint (sint w) 10 True s) s"
  by (rule printint_outs) (use sint_greater_eq [of w] sint_less [of w] in simp_all)

lemma put_string_outs: "screen_ok s \<Longrightarrow> outs bs (put_string (Some bs) s) s"
proof -
  assume a: "screen_ok s"
  have "sint b \<noteq> 256" for b :: uchar using sint_less [of b] by simp
  then have "BACKSPACE \<notin> set (map (\<lambda>b. sint b) bs)" by (auto simp: BACKSPACE_def)
  moreover have "map (of_int \<circ> (\<lambda>b. sint b)) bs = bs" by (rule map_idI) simp
  ultimately show ?thesis using putchars_outs [OF a, of "map (\<lambda>b. sint b) bs"] by (simp add: put_string_def)
qed

text \<open>Plain characters of a format, and the conversions, one at a time.\<close>

lemma cprintf_char:
  fixes s :: "'x cons_state_scheme"
  assumes "screen_ok s" "c \<noteq> CHR ''%''" "\<And>t :: 'x cons_state_scheme. screen_ok t \<Longrightarrow> outs bs (cprintf_loop fmt args t) t"
  shows "outs (of_char c # bs) (cprintf_loop (c # fmt) args s) s"
proof -
  have "int (of_char c) < 256" using nat_of_char_less_256 [of c] by linarith
  then have "(of_char c :: int) < 256" unfolding of_nat_of_char .
  then have nb: "of_char c \<noteq> BACKSPACE" unfolding BACKSPACE_def by linarith
  have e: "cprintf_loop (c # fmt) args s = kbind (consputc (of_char c) s) (\<lambda>_ t. cprintf_loop fmt args t)"
    using assms(2) by (cases fmt) (simp_all del: kbind_eq_Done)
  have "outs ([of_int (of_char c)] @ bs) (cprintf_loop (c # fmt) args s) s"
    unfolding e by (intro outs_bind consputc_outs assms nb)
  moreover have "(of_int (of_char c) :: uchar) = of_char c" by (metis of_int_of_nat_eq of_nat_of_char)
  ultimately show ?thesis by simp
qed

lemma cprintf_text:
  fixes s :: "'x cons_state_scheme"
  assumes "screen_ok s" "CHR ''%'' \<notin> set cs" "\<And>t :: 'x cons_state_scheme. screen_ok t \<Longrightarrow> outs bs (cprintf_loop fmt args t) t"
  shows "outs (map of_char cs @ bs) (cprintf_loop (cs @ fmt) args s) s"
  using assms
proof (induction cs arbitrary: s)
  case (Cons c cs)
  have "outs (of_char c # (map of_char cs @ bs)) (cprintf_loop (c # (cs @ fmt)) args s) s"
    by (rule cprintf_char [OF Cons.prems(1) _ Cons.IH]) (use Cons.prems in auto)
  then show ?case by simp
qed simp

lemma cprintf_d:
  fixes s :: "'x cons_state_scheme"
  assumes "screen_ok s" "\<And>t :: 'x cons_state_scheme. screen_ok t \<Longrightarrow> outs bs (cprintf_loop fmt args t) t"
  shows "outs (dec_text (sint w) @ bs) (cprintf_loop (''%d'' @ fmt) (KInt w # args) s) s"
  by (simp del: kbind_eq_Done) (intro outs_bind printint_word_outs assms)

lemma cprintf_s:
  fixes s :: "'x cons_state_scheme"
  assumes "screen_ok s" "\<And>t :: 'x cons_state_scheme. screen_ok t \<Longrightarrow> outs bs (cprintf_loop fmt args t) t"
  shows "outs (str @ bs) (cprintf_loop (''%s'' @ fmt) (KStr (Some str) # args) s) s"
  by (simp del: kbind_eq_Done) (intro outs_bind put_string_outs assms)

section \<open>The input buffer as lines\<close>

interpretation iring: ring INPUT_BUF
  by unfold_locales (simp_all add: INPUT_BUF_def)

definition in_all :: "'x cons_state_scheme \<Rightarrow> uchar list" where
  "in_all s = ring_q INPUT_BUF (in_buf s) (in_r s) (in_e s)"

definition in_ready :: "'x cons_state_scheme \<Rightarrow> nat" where
  "in_ready s = unat (in_w s - in_r s)"

text \<open>The characters a reader can get, and those of the line that is still being edited.\<close>

definition ready :: "'x cons_state_scheme \<Rightarrow> uchar list" where
  "ready s = take (in_ready s) (in_all s)"

definition line :: "'x cons_state_scheme \<Rightarrow> uchar list" where
  "line s = drop (in_ready s) (in_all s)"

definition in_ok :: "'x cons_state_scheme \<Rightarrow> bool" where
  "in_ok s \<longleftrightarrow> length (in_buf s) = INPUT_BUF \<and> in_ready s \<le> length (in_all s) \<and> length (in_all s) \<le> INPUT_BUF \<and> 10 \<notin> set (line s)"

lemma length_in_all: "length (in_all s) = unat (in_e s - in_r s)"
  by (simp add: in_all_def)

lemma length_line: "in_ok s \<Longrightarrow> length (line s) = unat (in_e s - in_w s)"
proof -
  assume "in_ok s"
  then have "unat (in_w s - in_r s) \<le> unat (in_e s - in_r s)" by (simp add: in_ok_def in_ready_def length_in_all)
  then have "unat ((in_e s - in_r s) - (in_w s - in_r s)) = unat (in_e s - in_r s) - unat (in_w s - in_r s)"
    by (intro unat_sub) (simp add: word_le_nat_alt)
  then show ?thesis by (simp add: line_def in_ready_def length_in_all)
qed

lemma line_empty_iff: "in_ok s \<Longrightarrow> in_e s = in_w s \<longleftrightarrow> line s = []"
  using length_line [of s] uint_diff_eq_0 [of "in_e s" "in_w s"] by auto

lemma in_cong:
  assumes "in_buf t = in_buf s" "in_r t = in_r s" "in_w t = in_w s" "in_e t = in_e s"
  shows "ready t = ready s" "line t = line s" "in_ok t = in_ok s"
  using assms by (simp_all add: in_ok_def ready_def line_def in_all_def in_ready_def)

lemma printed_in:
  assumes "printed s t"
  shows "in_buf t = in_buf s" "in_r t = in_r s" "in_w t = in_w s" "in_e t = in_e s" "procs t = procs s"
  using assms by (auto simp: printed_def)

text \<open>What a key does to the two lists.\<close>

definition key_spec :: "int \<Rightarrow> uchar list \<times> uchar list \<Rightarrow> uchar list \<times> uchar list" where
  "key_spec c q = (case q of (rd, ln) \<Rightarrow>
     if c = 16 \<or> c = 0 then (rd, ln)
     else if c = 21 then (rd, [])
     else if c = 8 \<or> c = 127 then (rd, butlast ln)
     else if length rd + length ln = INPUT_BUF then (rd, ln)
     else let k = (if c = 13 then 10 else c); ln1 = ln @ [of_int k]
          in if k = 10 \<or> k = 4 \<or> length rd + length ln1 = INPUT_BUF then (rd @ ln1, []) else (rd, ln1))"

lemma erase_in:
  assumes ok: "in_ok s" and ne: "line s \<noteq> []"
  defines "s1 \<equiv> s\<lparr>in_e := in_e s - 1\<rparr>"
  shows "in_ok s1" "ready s1 = ready s" "line s1 = butlast (line s)"
    "in_buf s ! (unat (in_e s - 1) mod INPUT_BUF) = last (line s)"
proof -
  have l: "length (in_all s) \<le> INPUT_BUF" "in_ready s < length (in_all s)" using ok ne by (auto simp: in_ok_def line_def)
  then have n: "in_r s \<noteq> in_e s" by (auto simp: in_all_def)
  have a: "in_all s1 = butlast (in_all s)"
    using iring.unput [OF n, of "in_buf s"] l(1) by (simp add: in_all_def s1_def length_in_all)
  have k: "in_ready s1 = in_ready s" by (simp add: in_ready_def s1_def)
  show r: "ready s1 = ready s" using l(2) by (simp add: ready_def a k take_butlast)
  show li: "line s1 = butlast (line s)" by (simp add: line_def a k drop_butlast)
  have "set (line s1) \<subseteq> set (line s)" unfolding li by (auto dest: in_set_butlastD)
  then show "in_ok s1" using ok l a k by (auto simp: in_ok_def s1_def [symmetric] simp del: length_ring_q) (auto simp: s1_def)
  have "last (line s) = last (in_all s)" using l(2) by (simp add: line_def)
  also have "\<dots> = in_all s ! (length (in_all s) - 1)" using l(2) by (intro last_conv_nth) auto
  also have "\<dots> = in_buf s ! (unat (in_r s + of_nat (length (in_all s) - 1)) mod INPUT_BUF)"
    using l(2) by (simp add: in_all_def ring_q_def)
  also have "in_r s + of_nat (length (in_all s) - 1) = in_e s - 1"
  proof -
    have "of_nat (length (in_all s) - 1) = (in_e s - in_r s) - (1 :: uint)" using l(2) by (simp add: length_in_all)
    then show ?thesis by simp
  qed
  finally show "in_buf s ! (unat (in_e s - 1) mod INPUT_BUF) = last (line s)" ..
qed

lemma kill_line_ok:
  "in_ok s \<Longrightarrow> screen_ok s \<Longrightarrow> n = length (line s) \<Longrightarrow>
   \<exists>t. kill_line n s = Done () t \<and> in_ok t \<and> screen_ok t \<and> ready t = ready s \<and> line t = [] \<and> procs t = procs s"
proof (induction n arbitrary: s)
  case (Suc n)
  let ?s = "s\<lparr>in_e := in_e s - 1\<rparr>"
  have ne: "line s \<noteq> []" using Suc.prems(3) by auto
  note E = erase_in [OF Suc.prems(1) ne]
  have "last (line s) \<noteq> 10" using Suc.prems(1) last_in_set [OF ne] unfolding in_ok_def by metis
  moreover have "screen_ok ?s" using Suc.prems(2) by (simp add: screen_ok_def cursor_def)
  then obtain t where t: "consputc BACKSPACE ?s = Done () t" "printed ?s t" using consputc_prints by (auto simp: prints_def)
  ultimately have e: "kill_line (Suc n) s = kill_line n t" using E(4) by simp
  note P = printed_in [OF t(2)]
  note C = in_cong [OF P(1-4)]
  have "\<exists>u. kill_line n t = Done () u \<and> in_ok u \<and> screen_ok u \<and> ready u = ready t \<and> line u = [] \<and> procs u = procs t"
    by (rule Suc.IH) (use C E Suc.prems(3) printed_ok [OF t(2)] in auto)
  then show ?case unfolding e using C E P(5) by simp
qed auto

lemma store_in:
  fixes b :: uchar
  assumes ok: "in_ok s" and room: "length (in_all s) < INPUT_BUF"
  defines "s1 \<equiv> s\<lparr>in_buf := (in_buf s)[unat (in_e s) mod INPUT_BUF := b], in_e := in_e s + 1\<rparr>"
  shows "in_all s1 = in_all s @ [b]" "in_ready s1 = in_ready s" "length (in_buf s1) = INPUT_BUF"
    "ready s1 = ready s" "line s1 = line s @ [b]"
proof -
  have l: "length (in_buf s) = INPUT_BUF" "in_ready s \<le> length (in_all s)" using ok by (simp_all add: in_ok_def)
  show a: "in_all s1 = in_all s @ [b]"
    using iring.put [OF l(1), of "in_e s" "in_r s" b] room by (simp add: in_all_def s1_def length_in_all)
  show k: "in_ready s1 = in_ready s" by (simp add: in_ready_def s1_def)
  show "length (in_buf s1) = INPUT_BUF" using l(1) by (simp add: s1_def)
  show "ready s1 = ready s" "line s1 = line s @ [b]" using l(2) by (simp_all add: ready_def line_def a k)
qed

text \<open>Making everything typed available to readers.\<close>

lemma commit_in:
  assumes "length (in_buf s) = INPUT_BUF" "length (in_all s) \<le> INPUT_BUF"
  defines "t \<equiv> wakeup ChanInput (s\<lparr>in_w := in_e s\<rparr>)"
  shows "in_ok t" "ready t = in_all s" "line t = []" "screen_ok t = screen_ok s"
    "\<forall>p \<in> set (procs t). \<not> (p_state p = SLEEPING \<and> p_chan p = Some ChanInput)"
proof -
  have a: "in_all t = in_all s" "in_ready t = length (in_all s)"
    by (simp_all add: t_def wakeup_def wakeup1_def in_all_def in_ready_def)
  show "ready t = in_all s" "line t = []" by (simp_all add: ready_def line_def a)
  show "in_ok t" using assms(1,2) a by (simp add: in_ok_def line_def) (simp add: t_def wakeup_def wakeup1_def)
  show "screen_ok t = screen_ok s" by (simp add: t_def wakeup_def wakeup1_def screen_ok_def cursor_def)
  show "\<forall>p \<in> set (procs t). \<not> (p_state p = SLEEPING \<and> p_chan p = Some ChanInput)"
    by (auto simp: t_def wakeup_def wakeup1_def)
qed

lemma in_full_iff: "length (in_all s) \<le> INPUT_BUF \<Longrightarrow> in_e s = in_r s + of_nat INPUT_BUF \<longleftrightarrow> length (in_all s) = INPUT_BUF"
proof -
  have "in_e s = in_r s + of_nat INPUT_BUF \<longleftrightarrow> in_e s - in_r s = of_nat INPUT_BUF" by (simp add: algebra_simps)
  also have "\<dots> \<longleftrightarrow> unat (in_e s - in_r s) = unat (of_nat INPUT_BUF :: uint)" by (simp only: word_unat_eq_iff)
  finally show "in_e s = in_r s + of_nat INPUT_BUF \<longleftrightarrow> length (in_all s) = INPUT_BUF"
    by (simp add: length_in_all INPUT_BUF_def)
qed

lemma in_room_iff: "in_e s - in_r s < of_nat INPUT_BUF \<longleftrightarrow> length (in_all s) < INPUT_BUF"
  by (simp add: word_less_nat_alt length_in_all INPUT_BUF_def)

lemma in_lengths: "in_ok s \<Longrightarrow> length (ready s) + length (line s) = length (in_all s)"
  by (simp add: in_ok_def ready_def line_def)

lemma key_uchar: "0 \<le> c \<Longrightarrow> c < 256 \<Longrightarrow> (of_int c :: uchar) = 10 \<longleftrightarrow> c = (10 :: int)"
proof -
  assume "0 \<le> c" "c < 256"
  then have "uint (of_int c :: uchar) = c" by (simp add: unsigned_of_int take_bit_int_eq_self)
  then show ?thesis by (simp add: word_uint_eq_iff)
qed

definition key_done :: "int \<Rightarrow> 'x cons_state_scheme \<Rightarrow> 'x cons_state_scheme \<Rightarrow> bool" where
  "key_done c s t \<longleftrightarrow> in_ok t \<and> screen_ok t \<and> (ready t, line t) = key_spec c (ready s, line s) \<and>
     (ready t \<noteq> ready s \<longrightarrow> (\<forall>p \<in> set (procs t). \<not> (p_state p = SLEEPING \<and> p_chan p = Some ChanInput)))"

lemma store_key_ok:
  assumes ok: "in_ok s" "screen_ok s" and c: "0 \<le> c" "c < 256" "c \<notin> {16, 21, 8, 127}"
  shows "\<exists>t. store_key c s = Done () t \<and> key_done c s t"
proof (cases "c \<noteq> 0 \<and> length (in_all s) < INPUT_BUF")
  case False
  moreover have "length (in_all s) \<le> INPUT_BUF" using ok(1) by (simp add: in_ok_def)
  ultimately have "key_spec c (ready s, line s) = (ready s, line s)"
    using in_lengths [OF ok(1)] c(3) by (auto simp: key_spec_def)
  then show ?thesis using False ok in_room_iff [of s] by (auto simp: store_key_def key_done_def)
next
  case True
  let ?k = "if c = 13 then 10 else c"
  let ?s = "s\<lparr>in_buf := (in_buf s)[unat (in_e s) mod INPUT_BUF := of_int ?k], in_e := in_e s + 1\<rparr>"
  note S = store_in [OF ok(1) conjunct2 [OF True], of "of_int ?k"]
  have "screen_ok ?s" using ok(2) by (simp add: screen_ok_def cursor_def)
  then obtain t where t: "consputc ?k ?s = Done () t" "printed ?s t" using consputc_prints unfolding prints_def by blast
  note P = printed_in [OF t(2)]
  have T: "in_all t = in_all s @ [of_int ?k]" "in_ready t = in_ready s" "length (in_buf t) = INPUT_BUF" "ready t = ready s" "line t = line s @ [of_int ?k]"
    using S P in_cong [OF P(1-4)] by (simp_all add: in_all_def in_ready_def)
  have lt: "length (in_all t) \<le> INPUT_BUF" using T(1) True by simp
  have len: "length (ready s) + length (line s) = length (in_all s)" by (rule in_lengths [OF ok(1)])
  have all: "in_all t = ready s @ line s @ [of_int ?k]" unfolding T(1) by (simp add: ready_def line_def)
  let ?full = "?k = 10 \<or> ?k = 4 \<or> length (ready s) + length (line s @ [of_int ?k :: uchar]) = INPUT_BUF"
  have fin: "in_e t = in_r t + of_nat INPUT_BUF \<longleftrightarrow> length (ready s) + length (line s @ [of_int ?k :: uchar]) = INPUT_BUF"
    using in_full_iff [OF lt] T(1) len by simp
  have e: "store_key c s = (if ?full then Done () (wakeup ChanInput (t\<lparr>in_w := in_e t\<rparr>)) else Done () t)"
    using True t(1) fin in_room_iff [of s] by (simp add: store_key_def Let_def)
  have k: "key_spec c (ready s, line s) = (if ?full then (ready s @ line s @ [of_int ?k], []) else (ready s, line s @ [of_int ?k]))"
    using True c(3) len by (simp add: key_spec_def Let_def)
  show ?thesis
  proof (cases ?full)
    case True
    note C = commit_in [OF T(3) lt]
    show ?thesis unfolding e k key_done_def using True C all printed_ok [OF t(2)] by simp
  next
    case False
    have "0 \<le> ?k" "?k < 256" using c by simp_all
    then have "of_int ?k \<noteq> (10 :: uchar)" using key_uchar [of ?k] False by simp
    then have "10 \<notin> set (line t)" using ok(1) T(5) by (simp add: in_ok_def)
    then have "in_ok t" using ok(1) T(1-3) lt by (simp add: in_ok_def)
    then show ?thesis unfolding e k key_done_def using False T printed_ok [OF t(2)] by simp
  qed
qed

lemma console_key_ok:
  assumes "in_ok s" "screen_ok s" "0 \<le> c" "c < 256"
  shows "\<exists>t. console_key c s = Done () t \<and> key_done c s t"
proof (cases "c \<in> {16, 21, 8, 127}")
  case False
  then show ?thesis using store_key_ok [OF assms(1-4)] by (simp add: console_key_def)
next
  case True
  then consider "c = 16" | "c = 21" | "c \<in> {8, 127}" by auto
  then show ?thesis
  proof cases
    case 1
    obtain t where t: "procdump s = Done () t" "printed s t" using procdump_prints [OF assms(2)] unfolding prints_def by blast
    show ?thesis
      using 1 t(1) assms(1) in_cong [OF printed_in(1-4) [OF t(2)]] printed_ok [OF t(2)]
      by (simp add: console_key_def key_done_def key_spec_def)
  next
    case 2
    then show ?thesis
      using kill_line_ok [OF assms(1,2)] length_line [OF assms(1)] by (auto simp: console_key_def key_done_def key_spec_def)
  next
    case 3
    show ?thesis
    proof (cases "line s = []")
      case True
      then show ?thesis
        using 3 assms(1,2) line_empty_iff [OF assms(1)] by (auto simp: console_key_def key_done_def key_spec_def)
    next
      case False
      let ?s = "s\<lparr>in_e := in_e s - 1\<rparr>"
      note E = erase_in [OF assms(1) False]
      have "screen_ok ?s" using assms(2) by (simp add: screen_ok_def cursor_def)
      then obtain t where t: "consputc BACKSPACE ?s = Done () t" "printed ?s t" using consputc_prints unfolding prints_def by blast
      note C = in_cong [OF printed_in(1-4) [OF t(2)]]
      have "console_key c s = Done () t" using 3 t(1) False line_empty_iff [OF assms(1)] by (auto simp: console_key_def)
      moreover have "key_done c s t" using 3 C E printed_ok [OF t(2)] by (auto simp: key_done_def key_spec_def)
      ultimately show ?thesis by blast
    qed
  qed
qed

text \<open>
  C19. The console edits lines: every key, from the keyboard or the serial line, is handled without stopping the machine or writing outside the
  screen, and changes the characters available to readers and the line being edited exactly as the specification of the key says (kill line, backspace,
  carriage return as newline, end of line or of input or a full buffer hands the line over); whenever characters become available, no reader is left asleep.
\<close>

theorem console_edits_lines:
  assumes "in_ok s" "screen_ok s" "0 \<le> c" "c < 256"
  shows "\<exists>t. console_key c s = Done () t \<and> in_ok t \<and> screen_ok t \<and> (ready t, line t) = key_spec c (ready s, line s) \<and>
    (ready t \<noteq> ready s \<longrightarrow> (\<forall>p \<in> set (procs t). \<not> (p_state p = SLEEPING \<and> p_chan p = Some ChanInput)))"
  using console_key_ok [OF assms] unfolding key_done_def .

section \<open>Reading lines\<close>

definition line_end :: "uchar \<Rightarrow> bool" where
  "line_end c \<longleftrightarrow> c = 10 \<or> c = 4"

text \<open>
  What a read for \<open>n\<close> more of \<open>target\<close> bytes takes from the characters \<open>q\<close>: up to and with a newline, up to an end of input, which stays unless nothing was
  read before it, or up to the number of bytes wanted; with none of them it takes all and waits.
\<close>

definition read_spec :: "nat \<Rightarrow> nat \<Rightarrow> uchar list \<Rightarrow> bool \<Rightarrow> uchar list \<Rightarrow> cr_result \<times> uchar list" where
  "read_spec target n acc killed q =
     (let l = takeWhile (\<lambda>c. \<not> line_end c) q; k = n - length l
      in if n \<le> length l then (CrEnd 0 (acc @ take n l), drop n q)
         else case drop (length l) q of
                [] \<Rightarrow> (if killed then CrKilled (acc @ l) else CrBlocked k (acc @ l), [])
              | c # rest \<Rightarrow>
                  if c = 10 then (CrEnd (k - 1) (acc @ l @ [10]), rest)
                  else (CrEnd k (acc @ l), if k < target then c # rest else rest))"

lemma take_in:
  assumes ok: "in_ok s" and ne: "in_r s \<noteq> in_w s"
  defines "s1 \<equiv> s\<lparr>in_r := in_r s + 1\<rparr>"
  shows "ready s = in_buf s ! (unat (in_r s) mod INPUT_BUF) # ready s1" "line s1 = line s" "in_ok s1"
proof -
  have k: "in_ready s = Suc (in_ready s1)" using iring.count_get [OF ne] by (simp add: in_ready_def s1_def)
  then have "in_r s \<noteq> in_e s" using ok by (auto simp: in_ok_def in_all_def)
  from iring.get [OF this, of "in_buf s"] have a: "in_all s = in_buf s ! (unat (in_r s) mod INPUT_BUF) # in_all s1"
    by (simp add: in_all_def s1_def)
  show "ready s = in_buf s ! (unat (in_r s) mod INPUT_BUF) # ready s1" by (simp add: ready_def a k)
  show li: "line s1 = line s" by (simp add: line_def a k)
  show "in_ok s1" using ok a k li by (simp add: in_ok_def) (simp add: s1_def)
qed

lemma consoleread_loop_ok:
  assumes "in_ok s"
  shows "\<exists>t. consoleread_loop target n acc s = (fst (read_spec target n acc (p_killed (curproc s)) (ready s)), t) \<and>
    ready t = snd (read_spec target n acc (p_killed (curproc s)) (ready s)) \<and> line t = line s \<and> in_ok t"
  using assms
proof (induction n arbitrary: acc s)
  case 0
  then show ?case by (simp add: read_spec_def Let_def)
next
  case (Suc n)
  show ?case
  proof (cases "in_r s = in_w s")
    case True
    then have "ready s = []" by (simp add: ready_def in_ready_def)
    then show ?thesis using Suc.prems True by (simp add: read_spec_def Let_def)
  next
    case False
    let ?c = "in_buf s ! (unat (in_r s) mod INPUT_BUF)" and ?s = "s\<lparr>in_r := in_r s + 1\<rparr>"
    note T = take_in [OF Suc.prems False]
    have bk: "?s\<lparr>in_r := in_r ?s - 1\<rparr> = s" by (cases s) simp
    consider "?c = 4" | "?c = 10" | "\<not> line_end ?c" by (auto simp: line_end_def)
    then show ?thesis
    proof cases
      case 1
      then show ?thesis using False T bk Suc.prems by (simp add: read_spec_def Let_def line_end_def)
    next
      case 2
      then show ?thesis using False T by (simp add: read_spec_def Let_def line_end_def)
    next
      case 3
      have e: "consoleread_loop target (Suc n) acc s = consoleread_loop target n (acc @ [?c]) ?s"
        using 3 False by (simp add: line_end_def Let_def)
      have r: "read_spec target (Suc n) acc k (ready s) = read_spec target n (acc @ [?c]) k (ready ?s)" for k
        unfolding T(1) using 3 by (simp add: read_spec_def Let_def split: list.split)
      have "curproc ?s = curproc s" by (simp add: curproc_def)
      then show ?thesis using Suc.IH [OF T(3), of "acc @ [?c]"] unfolding e r T(2) by simp
    qed
  qed
qed

lemma console_keys_ok:
  assumes "in_ok s" "screen_ok s" "\<forall>c \<in> set cs. 0 \<le> c \<and> c < 256"
  shows "\<exists>t. consoleintr cs s = Done () t \<and> in_ok t \<and> screen_ok t \<and> (ready t, line t) = fold key_spec cs (ready s, line s)"
  using assms
proof (induction cs arbitrary: s)
  case (Cons c cs)
  obtain t where t: "console_key c s = Done () t" "in_ok t" "screen_ok t" "(ready t, line t) = key_spec c (ready s, line s)"
    using console_key_ok [OF Cons.prems(1,2), of c] Cons.prems(3) unfolding key_done_def by auto
  obtain u where u: "consoleintr cs t = Done () u" "in_ok u" "screen_ok u" "(ready u, line u) = fold key_spec cs (ready t, line t)"
    using Cons.IH [OF t(2,3)] Cons.prems(3) by auto
  have "consoleintr (c # cs) s = Done () u" using t(1) u(1) by (simp add: consoleintr_def)
  then show ?case using u t(4) by auto
qed (simp add: consoleintr_def)

definition printable :: "int \<Rightarrow> bool" where
  "printable c \<longleftrightarrow> 32 \<le> c \<and> c < 127"

lemma fold_printable:
  "list_all printable cs \<Longrightarrow> length ln + length cs < INPUT_BUF \<Longrightarrow> fold key_spec cs ([], ln) = ([], ln @ map of_int cs)"
  by (induction cs arbitrary: ln) (auto simp: key_spec_def printable_def Let_def)

lemma printable_line: "list_all printable cs \<Longrightarrow> takeWhile (\<lambda>c. \<not> line_end c) (map of_int cs @ [10]) = map of_int cs"
proof -
  assume p: "list_all printable cs"
  have "\<not> line_end (of_int c)" if "c \<in> set cs" for c
  proof -
    have "32 \<le> c" "c < 127" using p that by (auto simp: list_all_iff printable_def)
    then have "uint (of_int c :: uchar) = c" by (simp add: unsigned_of_int take_bit_int_eq_self)
    then show ?thesis using \<open>32 \<le> c\<close> by (auto simp: line_end_def)
  qed
  then show ?thesis by (subst takeWhile_append2) (auto simp: line_end_def)
qed

text \<open>
  C20. What is typed is what is read: with nothing waiting, a line of fewer than 127 printable characters ended by the return key reaches a
  reader that asks for enough bytes as exactly these characters and a newline, and nothing is left behind.
\<close>

theorem console_line_roundtrip:
  assumes "in_ok s" "screen_ok s" "ready s = []" "line s = []" "list_all printable cs" "length cs < 127" "length cs < n"
  shows "\<exists>t u. consoleintr (cs @ [13]) s = Done () t \<and>
    consoleread_loop n n [] t = (CrEnd (n - length cs - 1) (map of_int cs @ [10]), u) \<and> in_ok u \<and> ready u = [] \<and> line u = []"
proof -
  have "\<forall>c \<in> set (cs @ [13]). 0 \<le> c \<and> c < 256" using assms(5) by (auto simp: list_all_iff printable_def)
  then obtain t where t: "consoleintr (cs @ [13]) s = Done () t" "in_ok t" "(ready t, line t) = fold key_spec (cs @ [13]) (ready s, line s)"
    using console_keys_ok [OF assms(1,2)] by blast
  have "fold key_spec (cs @ [13]) ([], []) = (map of_int cs @ [10], [])"
    using fold_printable [OF assms(5), of "[]"] assms(6) by (simp add: key_spec_def INPUT_BUF_def)
  then have r: "ready t = map of_int cs @ [10]" "line t = []" using t(3) assms(3,4) by simp_all
  have "read_spec n n [] k (ready t) = (CrEnd (n - length cs - 1) (map of_int cs @ [10]), [])" for k
    unfolding r using printable_line [OF assms(5)] assms(7) by (simp add: read_spec_def Let_def)
  then show ?thesis using consoleread_loop_ok [OF t(2), of n n "[]"] t(1) r(2) by auto
qed

section \<open>A concrete console\<close>

definition cons_sample :: cons_state where
  "cons_sample = log_state.extend log_sample
     \<lparr>inodes = [], files = [], ticks = 0, forkret_first = False, panicked = False, locking = True, uart = True, serial_out = [], serial_in = [],
      crt_regs = (\<lambda>_. 0), crt = (\<lambda>_. 0), in_buf = replicate 128 0, in_r = 0, in_w = 0, in_e = 0, kbd_in = [], kbd_shift = 0\<rparr>"

lemma cons_sample_ok: "in_ok cons_sample" "screen_ok cons_sample" "ready cons_sample = []" "line cons_sample = []"
  by (simp_all add: in_ok_def screen_ok_def cursor_def ready_def line_def in_all_def in_ready_def cons_sample_def log_state.defs INPUT_BUF_def)

theorem console_line_roundtrip_witness:
  "\<exists>t u. consoleintr [108, 115, 13] cons_sample = Done () t \<and> consoleread_loop 100 100 [] t = (CrEnd 97 [108, 115, 10], u)"
  using console_line_roundtrip [OF cons_sample_ok, of "[108, 115]" 100] by (auto simp: printable_def)

theorem console_edits_lines_witness:
  "\<exists>t. console_key 108 cons_sample = Done () t \<and> ready t = [] \<and> line t = [108]"
  using console_edits_lines [OF cons_sample_ok(1,2), of 108] cons_sample_ok(3,4)
  by (auto simp: key_spec_def INPUT_BUF_def)

end
