(* ===== verification/Syscall.thy ===== *)
theory Syscall
  imports Proc
begin

text \<open>
  Fetching the arguments of system calls (syscall.c) and the system calls about processes
  (sysproc.c). The kernel reads user memory through the page table of the current process: \<open>umem s a\<close> is the byte a
  load from the user address \<open>a\<close> yields, and \<open>ustore\<close> stores there.
\<close>

section \<open>User memory\<close>

definition kva :: "'x ptable_state_scheme \<Rightarrow> uint \<Rightarrow> uint" where
  "kva s a = p2v (PTE_ADDR (get32 (memory s) (fst (walkpgdir (p_pgdir (curproc s)) a False s)))) + and a 0xFFF"

definition umem :: "'x ptable_state_scheme \<Rightarrow> mem" where
  "umem s = (\<lambda>a. memory s (kva s a))"

primrec ustore :: "uint \<Rightarrow> uchar list \<Rightarrow> 'x ptable_state_scheme \<Rightarrow> 'x ptable_state_scheme" where
  "ustore a [] s = s"
| "ustore a (b # bs) s = ustore (a + 1) bs (s\<lparr>memory := (memory s)(kva s a := b)\<rparr>)"

definition ubytes :: "'x ptable_state_scheme \<Rightarrow> uint \<Rightarrow> nat \<Rightarrow> uchar list" where
  "ubytes s a n = map (\<lambda>i. umem s (a + of_nat i)) [0..<n]"

definition le32 :: "uint \<Rightarrow> uchar list" where "le32 w = put32l (replicate 4 0) 0 w"

definition le16 :: "ushort \<Rightarrow> uchar list" where "le16 w = put16l (replicate 2 0) 0 w"

section \<open>Arguments\<close>

definition fetchint :: "uint \<Rightarrow> 'x ptable_state_scheme \<Rightarrow> uint option" where
  "fetchint addr s =
     (let sz = p_sz (curproc s)
      in if addr \<ge> sz \<or> addr + 4 > sz then None else Some (get32 (umem s) addr))"

text \<open>The length of the string, when a NUL comes before the end of the process's memory.\<close>

definition fetchstr :: "uint \<Rightarrow> 'x ptable_state_scheme \<Rightarrow> nat option" where
  "fetchstr addr s =
     (let sz = p_sz (curproc s)
      in if addr \<ge> sz then None
         else find_idx (\<lambda>i. umem s (addr + of_nat i) = 0) [0..<unat (sz - addr)])"

definition argint :: "nat \<Rightarrow> 'x ptable_state_scheme \<Rightarrow> uint option" where
  "argint n s = fetchint (get32 (memory s) (p_tf (curproc s) + TF_ESP) + 4 + 4 * of_nat n) s"

definition argptr :: "nat \<Rightarrow> int \<Rightarrow> 'x ptable_state_scheme \<Rightarrow> uint option" where
  "argptr n sz0 s =
     (case argint n s of
        None \<Rightarrow> None
      | Some i \<Rightarrow>
          (let sz = p_sz (curproc s)
           in if i \<ge> sz \<or> i + of_int sz0 > sz then None else Some i))"

definition argstr :: "nat \<Rightarrow> 'x ptable_state_scheme \<Rightarrow> uchar list option" where
  "argstr n s =
     (case argint n s of
        None \<Rightarrow> None
      | Some addr \<Rightarrow> map_option (ubytes s addr) (fetchstr addr s))"

section \<open>System calls about processes\<close>

definition sys_exit :: "uint \<Rightarrow> 'x ftable_state_scheme \<Rightarrow> (int, 'x ftable_state_scheme) kres" where
  "sys_exit kend s =
     (case argint 0 s of
        None \<Rightarrow> Done (-1) s
      | Some status \<Rightarrow> kbind (exit kend (sint status) s) (\<lambda>_ s1. Done 0 s1))"

text \<open>wait and waitpid store the exit status through the pointer they were given.\<close>

definition store_status :: "(int \<times> (uint \<times> int) option, 'x ptable_state_scheme) kres \<Rightarrow> (int, 'x ptable_state_scheme) kres" where
  "store_status r = kbind r (\<lambda>(pid, st) s.
     (case st of None \<Rightarrow> Done pid s | Some (a, v) \<Rightarrow> Done pid (ustore a (le32 (of_int v)) s)))"

definition sys_wait :: "uint \<Rightarrow> 'x ptable_state_scheme \<Rightarrow> (int, 'x ptable_state_scheme) kres" where
  "sys_wait kend s =
     (case argint 0 s of
        None \<Rightarrow> Done (-1) s
      | Some status \<Rightarrow> store_status (wait kend status s))"

definition sys_kill :: "'x ptable_state_scheme \<Rightarrow> int \<times> 'x ptable_state_scheme" where
  "sys_kill s = (case argint 0 s of None \<Rightarrow> (-1, s) | Some pid \<Rightarrow> kill (sint pid) s)"

definition sys_getpid :: "'x ptable_state_scheme \<Rightarrow> int" where
  "sys_getpid s = p_pid (curproc s)"

definition sys_sbrk :: "uint \<Rightarrow> 'x ptable_state_scheme \<Rightarrow> (int, 'x ptable_state_scheme) kres" where
  "sys_sbrk kend s =
     (case argint 0 s of
        None \<Rightarrow> Done (-1) s
      | Some n \<Rightarrow>
          (let addr = sint (p_sz (curproc s))
           in kbind (growproc kend (sint n) s) (\<lambda>r s1. if r < 0 then Done (-1) s1 else Done addr s1)))"

text \<open>The loop of sys_sleep, which keeps \<open>ticks0\<close> while it sleeps.\<close>

definition sys_sleep_loop :: "uint \<Rightarrow> uint \<Rightarrow> 'x kern_state_scheme \<Rightarrow> (int, 'x kern_state_scheme) kres" where
  "sys_sleep_loop n ticks0 s =
     (if ticks s - ticks0 < n then
        (if p_killed (curproc s) then Done (-1) s else sleep_on ChanTicks s)
      else Done 0 s)"

definition sys_sleep :: "'x kern_state_scheme \<Rightarrow> (int, 'x kern_state_scheme) kres" where
  "sys_sleep s =
     (case argint 0 s of
        None \<Rightarrow> Done (-1) s
      | Some n \<Rightarrow> sys_sleep_loop n (ticks s) s)"

definition sys_uptime :: "'x kern_state_scheme \<Rightarrow> int" where
  "sys_uptime s = sint (ticks s)"

fun procstate_num :: "procstate \<Rightarrow> uint" where
  "procstate_num UNUSED = 0"
| "procstate_num EMBRYO = 1"
| "procstate_num SLEEPING = 2"
| "procstate_num RUNNABLE = 3"
| "procstate_num RUNNING = 4"
| "procstate_num ZOMBIE = 5"

definition procstat_bytes :: "procstat \<Rightarrow> uchar list" where
  "procstat_bytes st = st_name st @ le32 (st_sz st) @ le32 (of_nat (st_nofile st)) @ le32 (procstate_num (st_state st))"

definition sys_pstat :: "'x ptable_state_scheme \<Rightarrow> int \<times> 'x ptable_state_scheme" where
  "sys_pstat s =
     (case argint 0 s of
        None \<Rightarrow> (-1, s)
      | Some pid \<Rightarrow>
          (case argptr 1 4 s of
             None \<Rightarrow> (-1, s)
           | Some p \<Rightarrow>
               (case pstat (sint pid) s of
                  (r, None) \<Rightarrow> (r, s)
                | (r, Some st) \<Rightarrow> (r, ustore p (procstat_bytes st) s))))"

definition sys_attachjob :: "'x ptable_state_scheme \<Rightarrow> int \<times> 'x ptable_state_scheme" where
  "sys_attachjob s =
     (case (argint 0 s, argint 1 s) of
        (Some pid, Some job) \<Rightarrow> attachjob (sint pid) job s
      | _ \<Rightarrow> (-1, s))"

definition sys_isJobEmpty :: "'x ptable_state_scheme \<Rightarrow> int" where
  "sys_isJobEmpty s = (case argint 0 s of None \<Rightarrow> -1 | Some jid \<Rightarrow> isJobEmpty (umem s) jid s)"

definition sys_printjob :: "'x ptable_state_scheme \<Rightarrow> int" where
  "sys_printjob s = (case argint 0 s of None \<Rightarrow> -1 | Some jid \<Rightarrow> int (fst (printjob (umem s) jid s)))"

text \<open>The local variable \<open>status\<close> of fg is at \<open>stk\<close> in the kernel stack; waitpid sleeps on the current process.\<close>

definition sys_fg :: "uint \<Rightarrow> uint \<Rightarrow> 'x ptable_state_scheme \<Rightarrow> (int, 'x ptable_state_scheme) kres" where
  "sys_fg kend stk s =
     (case argint 0 s of
        None \<Rightarrow> Done (-1) s
      | Some jid \<Rightarrow>
          kbind (fg (umem s) kend stk jid s) (\<lambda>w s1.
            (case w of FgDone n \<Rightarrow> Done n s1 | FgBlocked _ _ \<Rightarrow> Sleep (ChanProc (the (cur s1))) s1)))"

definition sys_waitpid :: "uint \<Rightarrow> 'x ptable_state_scheme \<Rightarrow> (int, 'x ptable_state_scheme) kres" where
  "sys_waitpid kend s =
     (case (argint 0 s, argint 1 s) of
        (Some pid, Some status) \<Rightarrow> store_status (waitpid kend (sint pid) status s)
      | _ \<Rightarrow> Done (-1) s)"

definition sys_signal :: "'x ptable_state_scheme \<Rightarrow> int \<times> 'x ptable_state_scheme" where
  "sys_signal s =
     (case (argint 0 s, argint 1 s) of
        (Some signum, Some handler) \<Rightarrow> signal (sint signum) handler s
      | _ \<Rightarrow> (-1, s))"

end
