(* ===== verification/Exec.thy ===== *)
theory Exec
  imports Syscall
begin

text \<open>
  Loading a program: loaduvm of vm.c and exec of exec.c. The argument strings are the lists of their bytes, and so
  is the machine code of the routine implicit_exit that exec puts on the user stack. The
  ELF header is a local variable of exec: \<open>junk\<close> stands for the bytes it has before readi fills it.
\<close>

section \<open>loaduvm and copyout\<close>

primrec loaduvm_loop :: "nat \<Rightarrow> 'x icache_state_scheme devsw \<Rightarrow> uint \<Rightarrow> uint \<Rightarrow> nat \<Rightarrow> uint \<Rightarrow> uint \<Rightarrow> uint \<Rightarrow> 'x icache_state_scheme \<Rightarrow>
    (int, 'x icache_state_scheme) kres" where
  "loaduvm_loop 0 dv pgdir addr ip off sz i s = Done 0 s"
| "loaduvm_loop (Suc k) dv pgdir addr ip off sz i s =
     (if i < sz then
        let pte = fst (walkpgdir pgdir (addr + i) False s)
        in if pte = 0 then Panic ''loaduvm: address should exist''
           else let pa = PTE_ADDR (get32 (memory s) pte);
                    n = (if sz - i < PGSIZE then sz - i else PGSIZE)
                in kbind (readi dv ip (off + i) n s) (\<lambda>(r, bs) s1.
                     let s2 = s1\<lparr>memory := store_bytes (p2v pa) bs (memory s1)\<rparr>
                     in if of_int r \<noteq> n then Done (-1) s2
                        else loaduvm_loop k dv pgdir addr ip off sz (i + PGSIZE) s2)
      else Done 0 s)"

definition loaduvm :: "'x icache_state_scheme devsw \<Rightarrow> uint \<Rightarrow> uint \<Rightarrow> nat \<Rightarrow> uint \<Rightarrow> uint \<Rightarrow> 'x icache_state_scheme \<Rightarrow>
    (int, 'x icache_state_scheme) kres" where
  "loaduvm dv pgdir addr ip off sz s =
     (if addr mod PGSIZE \<noteq> 0 then Panic ''loaduvm: addr must be page aligned''
      else loaduvm_loop ((unat sz + 4095) div 4096) dv pgdir addr ip off sz 0 s)"

text \<open>copyout of bytes that are given as a list.\<close>

function copyout_bytes :: "uint \<Rightarrow> uint \<Rightarrow> uchar list \<Rightarrow> 'x kmem_state_scheme \<Rightarrow> int \<times> 'x kmem_state_scheme" where
  "copyout_bytes pgdir va bs s =
     (if bs = [] then (0, s)
      else let va0 = PGROUNDDOWN va;
               pa0 = uva2ka pgdir va0 s
           in if pa0 = 0 then (-1, s)
              else let n = max 1 (min (length bs) (unat (PGSIZE - (va - va0))))
                   in copyout_bytes pgdir (va0 + PGSIZE) (drop n bs)
                        (s\<lparr>memory := store_bytes (pa0 + (va - va0)) (take n bs) (memory s)\<rparr>))"
  by pat_completeness auto
termination
  by (relation "measure (\<lambda>(pgdir, va, bs, s). length bs)") (auto simp: Let_def max_def)

section \<open>exec\<close>

definition MAXARG :: nat where "MAXARG = 32"

definition ELF_MAGIC :: uint where "ELF_MAGIC = 0x464C457F"

record elfhdr =
  e_magic :: uint
  e_elf :: "uchar list"
  e_type :: ushort
  e_machine :: ushort
  e_version :: uint
  e_entry :: uint
  e_phoff :: uint
  e_shoff :: uint
  e_flags :: uint
  e_ehsize :: ushort
  e_phentsize :: ushort
  e_phnum :: ushort
  e_shentsize :: ushort
  e_shnum :: ushort
  e_shstrndx :: ushort

definition get_elfhdr :: "uchar list \<Rightarrow> elfhdr" where
  "get_elfhdr d = \<lparr>e_magic = get32l d 0, e_elf = getbl d 4 12, e_type = get16l d 16, e_machine = get16l d 18,
     e_version = get32l d 20, e_entry = get32l d 24, e_phoff = get32l d 28, e_shoff = get32l d 32, e_flags = get32l d 36,
     e_ehsize = get16l d 40, e_phentsize = get16l d 42, e_phnum = get16l d 44, e_shentsize = get16l d 46,
     e_shnum = get16l d 48, e_shstrndx = get16l d 50\<rparr>"

record proghdr =
  ph_type :: uint
  ph_off :: uint
  ph_vaddr :: uint
  ph_paddr :: uint
  ph_filesz :: uint
  ph_memsz :: uint
  ph_flags :: uint
  ph_align :: uint

definition get_proghdr :: "uchar list \<Rightarrow> proghdr" where
  "get_proghdr d = \<lparr>ph_type = get32l d 0, ph_off = get32l d 4, ph_vaddr = get32l d 8, ph_paddr = get32l d 12,
     ph_filesz = get32l d 16, ph_memsz = get32l d 20, ph_flags = get32l d 24, ph_align = get32l d 28\<rparr>"

definition ELF_PROG_LOAD :: uint where "ELF_PROG_LOAD = 1"

text \<open>The loop over the program headers: the size reached, or None where the code goes to \<open>bad\<close>.\<close>

primrec exec_load :: "nat \<Rightarrow> uint \<Rightarrow> 'x icache_state_scheme devsw \<Rightarrow> uint \<Rightarrow> nat \<Rightarrow> uint \<Rightarrow> uint \<Rightarrow> 'x icache_state_scheme \<Rightarrow>
    (uint option, 'x icache_state_scheme) kres" where
  "exec_load 0 kend dv pgdir ip off sz s = Done (Some sz) s"
| "exec_load (Suc k) kend dv pgdir ip off sz s =
     kbind (readi dv ip off 32 s) (\<lambda>(r, d) s1.
       if r \<noteq> 32 then Done None s1
       else let ph = get_proghdr d
            in if ph_type ph \<noteq> ELF_PROG_LOAD then exec_load k kend dv pgdir ip (off + 32) sz s1
               else if ph_memsz ph < ph_filesz ph then Done None s1
               else kbind (allocuvm kend pgdir sz (ph_vaddr ph + ph_memsz ph) s1) (\<lambda>sz' s2.
                 if sz' = 0 then Done None s2
                 else kbind (loaduvm dv pgdir (ph_vaddr ph) ip (ph_off ph) (ph_filesz ph) s2) (\<lambda>l s3.
                   if l < 0 then Done None s3 else exec_load k kend dv pgdir ip (off + 32) sz' s3)))"

text \<open>The argument strings: the stack pointer below them and their addresses.\<close>

primrec exec_args :: "uint \<Rightarrow> uchar list list \<Rightarrow> nat \<Rightarrow> uint \<Rightarrow> uint list \<Rightarrow> 'x kmem_state_scheme \<Rightarrow>
    (uint \<times> uint list) option \<times> 'x kmem_state_scheme" where
  "exec_args pgdir [] argc sp us s = (Some (sp, us), s)"
| "exec_args pgdir (a # as) argc sp us s =
     (if argc \<ge> MAXARG then (None, s)
      else let sp' = and (sp - (of_nat (length a) + 1)) (not 3)
           in (case copyout_bytes pgdir sp' (a @ [0]) s of
                 (r, s1) \<Rightarrow> if r < 0 then (None, s1) else exec_args pgdir as (Suc argc) sp' (us @ [sp']) s1))"

definition exec_bad :: "uint \<Rightarrow> uint \<Rightarrow> nat option \<Rightarrow> 'x icache_state_scheme \<Rightarrow> (int, 'x icache_state_scheme) kres" where
  "exec_bad kend pgdir ip s =
     kbind (if pgdir \<noteq> 0 then freevm kend pgdir s else Done () s) (\<lambda>_ s1.
       (case ip of
          Some i \<Rightarrow> kbind (iunlockput i s1) (\<lambda>_ s2. kbind (end_op s2) (\<lambda>_ s3. Done (-1) s3))
        | None \<Rightarrow> Done (-1) s1))"

definition path_last :: "uchar list \<Rightarrow> uchar list" where
  "path_last path = rev (takeWhile (\<lambda>c. c \<noteq> slash) (rev path))"

text \<open>From the loaded program on: the stack, the arguments, and the switch to the new image.\<close>

definition exec_finish :: "uint \<Rightarrow> uchar list \<Rightarrow> uchar list \<Rightarrow> uchar list list \<Rightarrow> uint \<Rightarrow> uint \<Rightarrow> uint \<Rightarrow> 'x icache_state_scheme \<Rightarrow>
    (int, 'x icache_state_scheme) kres" where
  "exec_finish kend implicit path argv pgdir sz0 entry s =
     (let sz1 = PGROUNDUP sz0
      in kbind (allocuvm kend pgdir sz1 (sz1 + 2 * PGSIZE) s) (\<lambda>sz s1.
        if sz = 0 then exec_bad kend pgdir None s1
        else kbind (clearpteu pgdir (sz - 2 * PGSIZE) s1) (\<lambda>_ s2.
          let adrr = sz - of_nat (length implicit)
          in (case copyout_bytes pgdir adrr implicit s2 of
                (r, s3) \<Rightarrow>
                  if r < 0 then exec_bad kend pgdir None s3
                  else (case exec_args pgdir argv 0 adrr [] s3 of
                    (None, s4) \<Rightarrow> exec_bad kend pgdir None s4
                  | (Some (sp, us), s4) \<Rightarrow>
                      let argc = of_nat (length us);
                          ustack = [adrr, argc, sp - (argc + 1) * 4] @ us @ [0];
                          sp' = sp - (3 + argc + 1) * 4
                      in (case copyout_bytes pgdir sp' (concat (map le32 ustack)) s4 of
                            (r2, s5) \<Rightarrow>
                              if r2 < 0 then exec_bad kend pgdir None s5
                              else let oldpgdir = p_pgdir (curproc s5);
                                       tf = p_tf (curproc s5);
                                       s6 = on_cur (\<lambda>p. p\<lparr>p_name := safestrcpy (p_name p) (cstr (path_last path)) 16,
                                              p_pgdir := pgdir, p_sz := sz\<rparr>) s5;
                                       m = put32 (put32 (memory s6) (tf + TF_EIP) entry) (tf + TF_ESP) sp'
                                   in kbind (switchuvm (the (cur s6)) (s6\<lparr>memory := m\<rparr>)) (\<lambda>_ s7.
                                      kbind (freevm kend oldpgdir s7) (\<lambda>_ s8. Done 0 s8))))))))"

definition exec :: "uint \<Rightarrow> uint \<Rightarrow> uchar list \<Rightarrow> uchar list \<Rightarrow> 'x icache_state_scheme devsw \<Rightarrow> uchar list \<Rightarrow> uchar list list \<Rightarrow> 'x icache_state_scheme \<Rightarrow>
    (int, 'x icache_state_scheme) kres" where
  "exec kend kdata implicit junk dv path argv s =
     kbind (begin_op s) (\<lambda>_ s1.
     kbind (namei dv path s1) (\<lambda>r s2.
       (case r of
          None \<Rightarrow> kbind (end_op s2) (\<lambda>_ s3. Done (-1) s3)
        | Some ip \<Rightarrow>
            kbind (ilock ip s2) (\<lambda>_ s3.
            kbind (readi dv ip 0 52 s3) (\<lambda>(n, d) s4.
              let elf = get_elfhdr (if n < 0 then junk else d)
              in if (of_int n :: uint) < 52 then exec_bad kend 0 (Some ip) s4
                 else if e_magic elf \<noteq> ELF_MAGIC then exec_bad kend 0 (Some ip) s4
                 else kbind (setupkvm kdata s4) (\<lambda>pgdir s5.
                   if pgdir = 0 then exec_bad kend 0 (Some ip) s5
                   else kbind (exec_load (unat (e_phnum elf)) kend dv pgdir ip (e_phoff elf) 0 s5) (\<lambda>l s6.
                     (case l of
                        None \<Rightarrow> exec_bad kend pgdir (Some ip) s6
                      | Some sz \<Rightarrow>
                          kbind (iunlockput ip s6) (\<lambda>_ s7.
                          kbind (end_op s7) (\<lambda>_ s8.
                            exec_finish kend implicit path argv pgdir sz (e_entry elf) s8))))))))))"

end
