(* ===== verification/Grep.thy ===== *)
theory Grep
  imports Prelude
begin

text \<open>
  The user program grep (grep.c): its regular expression matcher and its line loop.
  Patterns and texts are the characters up to the terminating NUL. The matcher is compared
  with an inductive definition of what a pattern matches. The line loop works on the
  1024-byte buffer; what \<open>read\<close> delivers is a parameter, a list of chunks.
\<close>

section \<open>The matcher\<close>

function (sequential) matchhere :: "string \<Rightarrow> string \<Rightarrow> bool"
  and matchstar :: "char \<Rightarrow> string \<Rightarrow> string \<Rightarrow> bool" where
  "matchhere [] str = True"
| "matchhere (c # re) str =
     (if re \<noteq> [] \<and> hd re = CHR ''*'' then matchstar c (tl re) str
      else if c = CHR ''$'' \<and> re = [] then str = []
      else if str \<noteq> [] \<and> (c = CHR ''.'' \<or> c = hd str) then matchhere re (tl str)
      else False)"
| "matchstar c re str =
     (if matchhere re str then True
      else if str \<noteq> [] \<and> (hd str = c \<or> c = CHR ''.'') then matchstar c re (tl str)
      else False)"
  by pat_completeness auto
termination
  by (relation "measures [\<lambda>x. case x of Inl (re, str) \<Rightarrow> 2 * length re | Inr (c, re, str) \<Rightarrow> 2 * length re + 1,
        \<lambda>x. case x of Inl (re, str) \<Rightarrow> length str | Inr (c, re, str) \<Rightarrow> length str]")
    (auto simp: neq_Nil_conv)

declare matchstar.simps [simp del]

fun match_anywhere :: "string \<Rightarrow> string \<Rightarrow> bool" where
  "match_anywhere re str =
     (if matchhere re str then True
      else case str of [] \<Rightarrow> False | t # ts \<Rightarrow> match_anywhere re ts)"

declare match_anywhere.simps [simp del]

definition match :: "string \<Rightarrow> string \<Rightarrow> bool" where
  "match re str =
     (if re \<noteq> [] \<and> hd re = CHR ''^'' then matchhere (tl re) str else match_anywhere re str)"

section \<open>What a pattern means\<close>

text \<open>\<open>re_prefix re text\<close>: the pattern, without a leading caret, matches a prefix of the text.\<close>

definition ch_match :: "char \<Rightarrow> char \<Rightarrow> bool" where
  "ch_match c t \<longleftrightarrow> c = CHR ''.'' \<or> c = t"

inductive re_prefix :: "string \<Rightarrow> string \<Rightarrow> bool" where
  re_nil: "re_prefix [] str"
| re_star: "\<forall>t \<in> set ts. ch_match c t \<Longrightarrow> re_prefix re rest \<Longrightarrow> re_prefix (c # CHR ''*'' # re) (ts @ rest)"
| re_end: "re_prefix [CHR ''$''] []"
| re_char: "ch_match c t \<Longrightarrow> (re = [] \<longrightarrow> c \<noteq> CHR ''$'') \<Longrightarrow> (re \<noteq> [] \<longrightarrow> hd re \<noteq> CHR ''*'') \<Longrightarrow>
    re_prefix re ts \<Longrightarrow> re_prefix (c # re) (t # ts)"

inductive_cases re_prefix_ConsE: "re_prefix (c # re) str"

lemma re_prefix_star:
  "re_prefix (c # CHR ''*'' # re) str \<longleftrightarrow> (\<exists>ts rest. str = ts @ rest \<and> (\<forall>t \<in> set ts. ch_match c t) \<and> re_prefix re rest)"
proof
  assume "re_prefix (c # CHR ''*'' # re) str"
  then show "\<exists>ts rest. str = ts @ rest \<and> (\<forall>t \<in> set ts. ch_match c t) \<and> re_prefix re rest"
    by (rule re_prefix_ConsE) auto
qed (auto intro: re_star)

lemma re_prefix_star_unfold:
  "re_prefix (c # CHR ''*'' # re) str \<longleftrightarrow>
     re_prefix re str \<or> (\<exists>t ts. str = t # ts \<and> ch_match c t \<and> re_prefix (c # CHR ''*'' # re) ts)"
proof
  assume "re_prefix (c # CHR ''*'' # re) str"
  then obtain ts rest where *: "str = ts @ rest" "\<forall>t \<in> set ts. ch_match c t" "re_prefix re rest"
    by (auto simp: re_prefix_star)
  show "re_prefix re str \<or> (\<exists>t ts. str = t # ts \<and> ch_match c t \<and> re_prefix (c # CHR ''*'' # re) ts)"
    using * by (cases ts) (auto simp: re_prefix_star)
next
  assume "re_prefix re str \<or> (\<exists>t ts. str = t # ts \<and> ch_match c t \<and> re_prefix (c # CHR ''*'' # re) ts)"
  then show "re_prefix (c # CHR ''*'' # re) str"
  proof (elim disjE exE conjE)
    assume "re_prefix re str"
    then show ?thesis using re_star [of "[]" c re str] by simp
  next
    fix t ts assume "str = t # ts" "ch_match c t" "re_prefix (c # CHR ''*'' # re) ts"
    then obtain us rest where "str = (t # us) @ rest" "\<forall>t \<in> set (t # us). ch_match c t" "re_prefix re rest"
      by (auto simp: re_prefix_star)
    then show ?thesis unfolding re_prefix_star by blast
  qed
qed

lemma re_prefix_char:
  assumes "re \<noteq> [] \<longrightarrow> hd re \<noteq> CHR ''*''"
  shows "re_prefix (c # re) str \<longleftrightarrow>
    (if c = CHR ''$'' \<and> re = [] then str = []
     else \<exists>t ts. str = t # ts \<and> ch_match c t \<and> re_prefix re ts)"
  using assms by (auto elim!: re_prefix_ConsE intro: re_end re_char)

lemma matchhere_iff_prefix:
  "matchhere re str \<longleftrightarrow> re_prefix re str"
  "matchstar c re str \<longleftrightarrow> re_prefix (c # CHR ''*'' # re) str"
proof (induction re str and c re str rule: matchhere_matchstar.induct)
  case (1 str)
  then show ?case by (simp add: re_nil)
next
  case (2 c re str)
  show ?case
  proof (cases "re \<noteq> [] \<and> hd re = CHR ''*''")
    case True
    then have "re = CHR ''*'' # tl re" by (cases re) auto
    then show ?thesis using True 2(1) by simp
  next
    case False
    then have f: "re \<noteq> [] \<longrightarrow> hd re \<noteq> CHR ''*''" by blast
    have m: "matchhere (c # re) str = (if c = CHR ''$'' \<and> re = [] then str = []
      else if str \<noteq> [] \<and> (c = CHR ''.'' \<or> c = hd str) then matchhere re (tl str) else False)"
      unfolding matchhere.simps(2) if_not_P [OF False] ..
    show ?thesis
    proof (cases "c = CHR ''$'' \<and> re = []")
      case True
      show ?thesis unfolding m re_prefix_char [OF f] if_P [OF True] ..
    next
      case F2: False
      show ?thesis unfolding m re_prefix_char [OF f] if_not_P [OF F2]
      proof (cases str)
        case (Cons t ts)
        have "c = CHR ''.'' \<or> c = t \<Longrightarrow> matchhere re ts = re_prefix re ts"
          using 2(2) [OF False F2] Cons by simp
        then show "(if str \<noteq> [] \<and> (c = CHR ''.'' \<or> c = hd str) then matchhere re (tl str) else False) =
            (\<exists>t ts. str = t # ts \<and> ch_match c t \<and> re_prefix re ts)"
          using Cons by (simp add: ch_match_def del: matchhere.simps)
      qed simp
    qed
  qed
next
  case (3 c re str)
  show ?case
    using 3 by (subst matchstar.simps, subst re_prefix_star_unfold, cases str) (auto simp: ch_match_def)
qed

lemma match_anywhere_iff: "match_anywhere re str \<longleftrightarrow> (\<exists>pre suf. str = pre @ suf \<and> re_prefix re suf)"
proof (induction str)
  case Nil
  then show ?case by (simp add: match_anywhere.simps [of re "[]"] matchhere_iff_prefix)
next
  case (Cons t ts)
  have "(\<exists>pre suf. t # ts = pre @ suf \<and> re_prefix re suf) \<longleftrightarrow>
      re_prefix re (t # ts) \<or> (\<exists>pre suf. ts = pre @ suf \<and> re_prefix re suf)"
    by (auto simp: Cons_eq_append_conv)
  then show ?case using Cons by (simp add: match_anywhere.simps [of re "t # ts"] matchhere_iff_prefix)
qed

text \<open>
  C31. grep's backtracking matcher decides exactly its patterns' meaning: with a leading caret the rest
  of the pattern matches a prefix of the text, and otherwise the pattern matches somewhere in it, where
  a starred character stands for any number of matching characters, a dot for any character, and a
  final dollar for the end of the text.
\<close>

theorem grep_match_correct:
  "match re str \<longleftrightarrow>
     (if re \<noteq> [] \<and> hd re = CHR ''^'' then re_prefix (tl re) str
      else \<exists>pre suf. str = pre @ suf \<and> re_prefix re suf)"
  by (simp add: match_def matchhere_iff_prefix match_anywhere_iff)

section \<open>The line loop\<close>

text \<open>
  The buffer is the list of its 1024 characters, an access outside it is an error, and \<open>m\<close> is
  the C variable, which may become negative. A chunk is what one call of \<open>read\<close> delivers.
\<close>

datatype grep_err = OutOfBounds

definition NUL :: char where "NUL = CHR 0x00"
definition NL :: char where "NL = CHR 0x0A"

function strchr_nl :: "string \<Rightarrow> nat \<Rightarrow> grep_err + nat option" where
  "strchr_nl buf i =
     (if i \<ge> length buf then Inl OutOfBounds
      else if buf ! i = NUL then Inr None
      else if buf ! i = NL then Inr (Some i)
      else strchr_nl buf (i + 1))"
  by pat_completeness auto
termination by (relation "measure (\<lambda>(buf, i). length buf - i)") auto

declare strchr_nl.simps [simp del]

lemma strchr_nl_Some: "strchr_nl buf i = Inr (Some q) \<Longrightarrow> i \<le> q \<and> q < length buf"
proof (induction buf i rule: strchr_nl.induct)
  case (1 buf i)
  then show ?case unfolding strchr_nl.simps [of buf i] by (auto split: if_splits)
qed

function grep_lines :: "string \<Rightarrow> string \<Rightarrow> nat \<Rightarrow> grep_err + (string list \<times> string \<times> nat)" where
  "grep_lines pattern buf p =
     (case strchr_nl buf p of
        Inl e \<Rightarrow> Inl e
      | Inr None \<Rightarrow> Inr ([], buf, p)
      | Inr (Some q) \<Rightarrow>
          (let line = take (q - p) (drop p buf);
               hit = match pattern line;
               buf' = (if hit then buf else buf[q := NUL])
           in case grep_lines pattern buf' (q + 1) of
                Inl e \<Rightarrow> Inl e
              | Inr (out, b, p') \<Rightarrow> Inr ((if hit then [line @ [NL]] else []) @ out, b, p')))"
  by pat_completeness auto
termination
  by (relation "measure (\<lambda>(pattern, buf, p). length buf - p)") (auto dest: strchr_nl_Some)

declare grep_lines.simps [simp del]

primrec grep_loop :: "string list \<Rightarrow> string \<Rightarrow> string \<Rightarrow> int \<Rightarrow> string list \<times> grep_err option" where
  "grep_loop [] pattern buf m = ([], None)"
| "grep_loop (chunk # chunks) pattern buf m =
     (if m < 0 then ([], Some OutOfBounds)
      else let c = take (1024 - nat m) chunk;
               buf1 = take (nat m) buf @ c @ drop (nat m + length c) buf;
               m1 = m + int (length c)
           in if c = [] then ([], None)
              else case grep_lines pattern buf1 0 of
                Inl e \<Rightarrow> ([], Some e)
              | Inr (out, buf2, p) \<Rightarrow>
                  (let m2 = (if p = 0 then 0 else m1);
                       m3 = (if m2 > 0 then m2 - int p else m2);
                       buf3 = take (nat m3) (drop p buf2) @ drop (nat m3) buf2;
                       (out', e) = grep_loop chunks pattern buf3 m3
                   in (out @ out', e)))"

definition grep :: "string \<Rightarrow> string list \<Rightarrow> string list \<times> grep_err option" where
  "grep pattern chunks = grep_loop chunks pattern (replicate 1024 NUL) 0"

section \<open>Lines in the buffer\<close>

definition unl :: "string list \<Rightarrow> string" where
  "unl ls = concat (map (\<lambda>l. l @ [NL]) ls)"

definition plain :: "string \<Rightarrow> bool" where
  "plain l \<longleftrightarrow> NL \<notin> set l \<and> NUL \<notin> set l"

definition marked :: "string \<Rightarrow> string list \<Rightarrow> string" where
  "marked pattern ls = concat (map (\<lambda>l. l @ [if match pattern l then NL else NUL]) ls)"

lemma unl_simps [simp]: "unl [] = []" "unl (l # ls) = l @ NL # unl ls"
  by (simp_all add: unl_def)

lemma marked_simps [simp]:
  "marked pattern [] = []" "marked pattern (l # ls) = l @ (if match pattern l then NL else NUL) # marked pattern ls"
  by (simp_all add: marked_def)

lemma length_marked [simp]: "length (marked pattern ls) = length (unl ls)"
  by (induction ls) simp_all

lemma NL_NUL [simp]: "NL \<noteq> NUL" "NUL \<noteq> NL"
  by (simp_all add: NL_def NUL_def)

lemma strchr_nl_line:
  assumes "plain l"
  shows "strchr_nl (pre @ l @ NL # rest) (length pre) = Inr (Some (length pre + length l))"
  using assms
proof (induction l arbitrary: pre)
  case Nil
  then show ?case by (subst strchr_nl.simps) (simp add: nth_append)
next
  case (Cons c l)
  then show ?case using Cons.IH [of "pre @ [c]"]
    by (subst strchr_nl.simps) (auto simp: nth_append plain_def)
qed

lemma strchr_nl_end: "strchr_nl (pre @ NUL # rest) (length pre) = Inr None"
  by (subst strchr_nl.simps) (simp add: nth_append)

lemma grep_lines_unl:
  assumes "\<forall>l \<in> set ls. plain l"
  shows "grep_lines pattern (pre @ unl ls @ NUL # rest) (length pre) =
    Inr (map (\<lambda>l. l @ [NL]) (filter (match pattern) ls), pre @ marked pattern ls @ NUL # rest, length pre + length (unl ls))"
  using assms
proof (induction ls arbitrary: pre)
  case Nil
  then show ?case by (subst grep_lines.simps) (simp add: strchr_nl_end)
next
  case (Cons l ls)
  let ?b = "if match pattern l then NL else NUL"
  have IH: "grep_lines pattern ((pre @ l @ [?b]) @ unl ls @ NUL # rest) (length (pre @ l @ [?b])) =
    Inr (map (\<lambda>l. l @ [NL]) (filter (match pattern) ls), (pre @ l @ [?b]) @ marked pattern ls @ NUL # rest,
         length (pre @ l @ [?b]) + length (unl ls))"
    by (rule Cons.IH) (use Cons.prems in simp)
  have "strchr_nl (pre @ unl (l # ls) @ NUL # rest) (length pre) = Inr (Some (length pre + length l))"
    using strchr_nl_line [of l pre "unl ls @ NUL # rest"] Cons.prems by simp
  then show ?case using IH
    by (subst grep_lines.simps) (auto simp: Let_def list_update_append)
qed

text \<open>One round of the loop that starts at the beginning of the buffer.\<close>

lemma grep_loop_round:
  assumes "length chunk \<le> 1024" "chunk \<noteq> []" "0 < p"
    "grep_lines pattern (chunk @ drop (length chunk) buf) 0 = Inr (out, buf2, p)"
  shows "grep_loop (chunk # chunks) pattern buf 0 =
    (let m3 = int (length chunk) - int p;
         r = grep_loop chunks pattern (take (nat m3) (drop p buf2) @ drop (nat m3) buf2) m3
     in (out @ fst r, snd r))"
  using assms by (simp add: Let_def case_prod_beta)

text \<open>
  When one read delivers the whole input, grep prints exactly the lines that match, in order.
\<close>

theorem grep_one_read_correct:
  assumes "\<forall>l \<in> set ls. plain l" "length (unl ls) < 1024" "ls \<noteq> []"
  shows "grep pattern [unl ls] = (map (\<lambda>l. l @ [NL]) (filter (match pattern) ls), None)"
proof -
  obtain k where k: "1024 - length (unl ls) = Suc k" using assms(2) by (metis Suc_diff_Suc)
  have b: "unl ls @ drop (length (unl ls)) (replicate 1024 NUL) = [] @ unl ls @ NUL # replicate k NUL"
    unfolding drop_replicate k by simp
  have ne: "unl ls \<noteq> []" using assms(3) by (cases ls) simp_all
  have g: "grep_lines pattern (unl ls @ drop (length (unl ls)) (replicate 1024 NUL)) 0 =
    Inr (map (\<lambda>l. l @ [NL]) (filter (match pattern) ls), marked pattern ls @ NUL # replicate k NUL, length (unl ls))"
    unfolding b using grep_lines_unl [OF assms(1), of pattern "[]" "replicate k NUL"] by simp
  show ?thesis
    unfolding grep_def by (subst grep_loop_round [OF _ ne _ g]) (use assms(2) ne in simp_all)
qed

theorem grep_one_read_correct_witness:
  "grep ''^a.*c$'' [unl [''abc'', ''xabc'', ''ac'']] = ([''abc'' @ [NL], ''ac'' @ [NL]], None)"
proof -
  have "match ''^a.*c$'' ''abc''" "\<not> match ''^a.*c$'' ''xabc''" "match ''^a.*c$'' ''ac''"
    by (simp_all add: match_def matchstar.simps)
  then show ?thesis
    using grep_one_read_correct [of "[''abc'', ''xabc'', ''ac'']" "''^a.*c$''"]
    by (simp add: plain_def NL_def NUL_def)
qed

text \<open>
  C37. The buffer is never terminated after a read, so the rest of a longer line read before is taken for input:
  after a matching line \<open>a\<close>, a shorter line \<open>b\<close> is followed by the tail of \<open>a\<close>, which is printed again if it
  matches. The count of pending bytes then becomes negative and the next read goes to an address before the
  buffer.
\<close>

theorem grep_rereads_stale_bytes:
  assumes "plain a" "plain b" "match pattern a" "length b < length a" "length a < 1022" "c \<noteq> []"
  shows "grep pattern [unl [a], unl [b], c] =
    (map (\<lambda>l. l @ [NL]) (a # filter (match pattern) [b, drop (Suc (length b)) a]), Some OutOfBounds)"
proof -
  define k where "k = 1022 - length a"
  have nul: "replicate 1024 NUL = replicate (Suc (length a)) NUL @ NUL # replicate k NUL"
    using assms(5) unfolding replicate_Suc [symmetric] replicate_add [symmetric] by (simp add: k_def)
  have b1: "a @ NL # drop (Suc (length a)) (replicate 1024 NUL) = [] @ unl [a] @ NUL # replicate k NUL"
    unfolding nul by simp
  let ?a' = "drop (Suc (length b)) a"
  have b2: "b @ NL # drop (Suc (length b)) (a @ NL # NUL # replicate k NUL) = [] @ unl [b, ?a'] @ NUL # replicate k NUL"
    using assms(4) by simp
  have pl: "plain ?a'" using assms(1) by (auto simp: plain_def dest: in_set_dropD)
  have g1: "grep_lines pattern ([] @ unl [a] @ NUL # replicate k NUL) 0 =
      Inr ([a @ [NL]], a @ NL # NUL # replicate k NUL, Suc (length a))"
    using grep_lines_unl [of "[a]" pattern "[]" "replicate k NUL"] assms(1,3) by simp
  have g2: "grep_lines pattern ([] @ unl [b, ?a'] @ NUL # replicate k NUL) 0 =
      Inr (map (\<lambda>l. l @ [NL]) (filter (match pattern) [b, ?a']), marked pattern [b, ?a'] @ NUL # replicate k NUL, Suc (length a))"
    using grep_lines_unl [of "[b, ?a']" pattern "[]" "replicate k NUL"] assms(2,4) pl by simp
  have r1: "grep_lines pattern (unl [a] @ drop (length (unl [a])) (replicate 1024 NUL)) 0 =
      Inr ([a @ [NL]], a @ NL # NUL # replicate k NUL, Suc (length a))"
    using g1 unfolding b1 [symmetric] by simp
  have r2: "grep_lines pattern (unl [b] @ drop (length (unl [b])) (a @ NL # NUL # replicate k NUL)) 0 =
      Inr (map (\<lambda>l. l @ [NL]) (filter (match pattern) [b, ?a']), marked pattern [b, ?a'] @ NUL # replicate k NUL, Suc (length a))"
    using g2 unfolding b2 [symmetric] by simp
  have l2: "grep_loop [unl [b], c] pattern (a @ NL # NUL # replicate k NUL) 0 =
      (map (\<lambda>l. l @ [NL]) (filter (match pattern) [b, ?a']), Some OutOfBounds)"
    by (subst grep_loop_round [OF _ _ _ r2]) (use assms(4,5) in \<open>simp_all add: Let_def\<close>)
  have l2': "grep_loop [b @ [NL], c] pattern (a @ NL # NUL # replicate k NUL) 0 =
      (map (\<lambda>l. l @ [NL]) (filter (match pattern) [b, ?a']), Some OutOfBounds)"
    using l2 by (simp del: grep_loop.simps)
  show ?thesis
    unfolding grep_def
    by (subst grep_loop_round [OF _ _ _ r1]) (use assms(5) in \<open>simp_all add: Let_def l2' del: grep_loop.simps\<close>)
qed


theorem grep_rereads_stale_bytes_witness:
  "grep ''l'' [unl [''hello''], unl [''a''], unl [''b'']] = ([''hello'' @ [NL], ''llo'' @ [NL]], Some OutOfBounds)"
proof -
  have "match ''l'' ''hello''" "\<not> match ''l'' ''a''" "match ''l'' ''llo''"
    by (simp_all add: match_def match_anywhere.simps)
  then show ?thesis
    using grep_rereads_stale_bytes [of "''hello''" "''a''" "''l''" "unl [''b'']"]
    by (simp add: plain_def NL_def NUL_def)
qed

end
