(* ===== verification/Ide.thy ===== *)
theory Ide
  imports Bio
begin

text \<open>
  The driver of a real disk (ide.c): a queue of buffers, the controller's registers, and the interrupt handler. The controller and the two disks
  behind it are hardware: its registers are fields of the state, a write command with its data stores the data in the sector that the registers
  name, and the data port of a read delivers that sector. The status port is an argument: \<open>r\<close> is the value that ends a wait for the disk. Queued
  requests are compared with the driver of memide.c, which serves a request at once.
\<close>

section \<open>State\<close>

definition IDE_BSY :: uchar where "IDE_BSY = 0x80"
definition IDE_DRDY :: uchar where "IDE_DRDY = 0x40"
definition IDE_DF :: uchar where "IDE_DF = 0x20"
definition IDE_ERR :: uchar where "IDE_ERR = 0x01"
definition IDE_CMD_READ :: uchar where "IDE_CMD_READ = 0x20"
definition IDE_CMD_WRITE :: uchar where "IDE_CMD_WRITE = 0x30"

text \<open>The registers behind the ports 0x1f2 to 0x1f7, and the buffers' qnext.\<close>

record ide_regs =
  r_count :: uchar
  r_lba0 :: uchar
  r_lba1 :: uchar
  r_lba2 :: uchar
  r_drive :: uchar
  r_cmd :: uchar

record ide_state = bcache_state +
  qnext :: "nat \<Rightarrow> nat option"
  idequeue :: "nat option"
  havedisk1 :: bool
  ctl :: ide_regs
  disk0 :: "uint \<Rightarrow> uchar list"

text \<open>The controller: the sector its registers name, and storing and fetching it on the selected drive.\<close>

definition reg_sector :: "ide_regs \<Rightarrow> uint" where
  "reg_sector g = or (or (ucast (r_lba0 g)) (push_bit 8 (ucast (r_lba1 g))))
                     (or (push_bit 16 (ucast (r_lba2 g))) (push_bit 24 (ucast (and (r_drive g) 0x0F))))"

definition reg_drive1 :: "ide_regs \<Rightarrow> bool" where
  "reg_drive1 g \<longleftrightarrow> and (r_drive g) 0x10 \<noteq> 0"

definition ctl_store :: "uchar list \<Rightarrow> 'x ide_state_scheme \<Rightarrow> 'x ide_state_scheme" where
  "ctl_store d s =
     (if reg_drive1 (ctl s) then s\<lparr>disk := (disk s)(reg_sector (ctl s) := d)\<rparr>
      else s\<lparr>disk0 := (disk0 s)(reg_sector (ctl s) := d)\<rparr>)"

definition ctl_fetch :: "'x ide_state_scheme \<Rightarrow> uchar list" where
  "ctl_fetch s = (if reg_drive1 (ctl s) then disk s else disk0 s) (reg_sector (ctl s))"

section \<open>The driver\<close>

text \<open>idewait polls the status port until the disk is ready; the values of the port are the list.\<close>

fun idewait_poll :: "uchar list \<Rightarrow> uchar option" where
  "idewait_poll [] = None"
| "idewait_poll (r # rs) = (if and r (or IDE_BSY IDE_DRDY) \<noteq> IDE_DRDY then idewait_poll rs else Some r)"

definition idewait :: "bool \<Rightarrow> uchar \<Rightarrow> int" where
  "idewait checkerr r = (if checkerr \<and> and r (or IDE_DF IDE_ERR) \<noteq> 0 then -1 else 0)"

definition ideinit :: "uchar list \<Rightarrow> 'x ide_state_scheme \<Rightarrow> 'x ide_state_scheme" where
  "ideinit probe s =
     s\<lparr>havedisk1 := (havedisk1 s \<or> (\<exists>p \<in> set (take 1000 probe). p \<noteq> 0)), ctl := (ctl s)\<lparr>r_drive := or 0xe0 0\<rparr>\<rparr>"

definition idestart :: "nat option \<Rightarrow> 'x ide_state_scheme \<Rightarrow> (unit, 'x ide_state_scheme) kres" where
  "idestart b s =
     (case b of
        None \<Rightarrow> Panic ''idestart''
      | Some i \<Rightarrow>
          (let q = buf_at s i;
               g = \<lparr>r_count = 1, r_lba0 = ucast (and (b_sector q) 0xff), r_lba1 = ucast (and (drop_bit 8 (b_sector q)) 0xff),
                    r_lba2 = ucast (and (drop_bit 16 (b_sector q)) 0xff),
                    r_drive = or (or 0xe0 (push_bit 4 (ucast (and (b_dev q) 1)))) (ucast (and (drop_bit 24 (b_sector q)) 0x0f)),
                    r_cmd = (if b_dirty q then IDE_CMD_WRITE else IDE_CMD_READ)\<rparr>;
               s1 = s\<lparr>ctl := g\<rparr>
           in Done () (if b_dirty q then ctl_store (b_data q) s1 else s1)))"

definition ideintr :: "uchar \<Rightarrow> 'x ide_state_scheme \<Rightarrow> (unit, 'x ide_state_scheme) kres" where
  "ideintr r s =
     (case idequeue s of
        None \<Rightarrow> Done () s
      | Some i \<Rightarrow>
          (let s1 = s\<lparr>idequeue := qnext s i\<rparr>;
               s2 = (if \<not> b_dirty (buf_at s1 i) \<and> idewait True r \<ge> 0 then upd_buf i (\<lambda>b. b\<lparr>b_data := ctl_fetch s1\<rparr>) s1 else s1);
               s3 = wakeup (ChanBuf i) (upd_buf i (\<lambda>b. b\<lparr>b_valid := True, b_dirty := False\<rparr>) s2)
           in if idequeue s3 \<noteq> None then idestart (idequeue s3) s3 else Done () s3))"

text \<open>The loop that finds the end of the queue, and where the new buffer is stored: the head of the queue or the qnext of the last buffer.\<close>

partial_function (option) queue_last :: "nat \<Rightarrow> (nat \<Rightarrow> nat option) \<Rightarrow> nat option" where
  "queue_last i nx = (case nx i of None \<Rightarrow> Some i | Some j \<Rightarrow> queue_last j nx)"

definition ide_enqueue :: "nat \<Rightarrow> 'x ide_state_scheme \<Rightarrow> 'x ide_state_scheme option" where
  "ide_enqueue i s =
     (let s1 = s\<lparr>qnext := (qnext s)(i := None)\<rparr>
      in case idequeue s1 of
           None \<Rightarrow> Some (s1\<lparr>idequeue := Some i\<rparr>)
         | Some h \<Rightarrow> map_option (\<lambda>l. s1\<lparr>qnext := (qnext s1)(l := Some i)\<rparr>) (queue_last h (qnext s1)))"

definition ide_wait :: "nat \<Rightarrow> 'x ide_state_scheme \<Rightarrow> (unit, 'x ide_state_scheme) kres" where
  "ide_wait i s = (if b_valid (buf_at s i) \<and> \<not> b_dirty (buf_at s i) then Done () s else sleep_on (ChanBuf i) s)"

text \<open>\<open>None\<close> is a queue whose links form a cycle, along which the loop runs for ever. \<open>ide_wait\<close> is also what runs after a wakeup.\<close>

definition ide_rw :: "nat \<Rightarrow> 'x ide_state_scheme \<Rightarrow> (unit, 'x ide_state_scheme) kres option" where
  "ide_rw i s =
     (let b = buf_at s i
      in if \<not> b_busy b then Some (Panic ''iderw: buf not busy'')
         else if b_valid b \<and> \<not> b_dirty b then Some (Panic ''iderw: nothing to do'')
         else if b_dev b \<noteq> 0 \<and> \<not> havedisk1 s then Some (Panic ''iderw: ide disk 1 not present'')
         else map_option (\<lambda>s1. kbind (if idequeue s1 = Some i then idestart (Some i) s1 else Done () s1) (\<lambda>_ s2. ide_wait i s2)) (ide_enqueue i s))"

section \<open>The registers\<close>

lemma reg_sector_start:
  fixes w :: uint
  assumes "unat w < 2 ^ 28"
  shows "reg_sector \<lparr>r_count = c, r_lba0 = ucast (and w 0xff), r_lba1 = ucast (and (drop_bit 8 w) 0xff), r_lba2 = ucast (and (drop_bit 16 w) 0xff),
      r_drive = or (or 0xe0 (push_bit 4 (ucast (and v 1)))) (ucast (and (drop_bit 24 w) 0x0f)), r_cmd = x\<rparr> = w" (is "reg_sector ?g = w")
proof (rule bit_word_eqI)
  fix n assume n: "n < LENGTH(32)"
  have hi: "\<not> bit w n" if "28 \<le> n" for n
  proof -
    have "take_bit 28 (unat w) = unat w" using assms by (simp add: take_bit_nat_eq_self)
    then have "bit (take_bit 28 (unat w)) n = bit (unat w) n" by simp
    then show ?thesis using that by (auto simp: bit_take_bit_iff bit_unsigned_iff dest: bit_imp_le_length)
  qed
  have m: "(0xff :: uint) = mask 8" "(0x0f :: uint) = mask 4" "(0x0F :: uchar) = mask 4" by (simp_all add: mask_eq_exp_minus_1)
  have e: "\<not> bit (0xe0 :: uchar) k" "\<not> bit (0xe0 :: uint) k" if "k < 4" for k
  proof -
    have "k \<in> set [0..<4]" using that by simp
    moreover have "\<forall>k \<in> set [0..<4]. \<not> bit (0xe0 :: uchar) k \<and> \<not> bit (0xe0 :: uint) k" by code_simp
    ultimately show "\<not> bit (0xe0 :: uchar) k" "\<not> bit (0xe0 :: uint) k" by blast+
  qed
  consider "n < 8" | "8 \<le> n" "n < 16" | "16 \<le> n" "n < 24" | "24 \<le> n" "n < 28" | "28 \<le> n" by linarith
  then show "bit (reg_sector ?g) n = bit w n"
    using n hi [of n] e [of "n - 24"] unfolding reg_sector_def m
    by cases (auto simp: bit_or_iff bit_push_bit_iff bit_and_iff bit_ucast_iff bit_drop_bit_eq bit_mask_iff less_diff_conv2)
qed

lemma reg_drive1_start:
  "reg_drive1 \<lparr>r_count = c, r_lba0 = a0, r_lba1 = a1, r_lba2 = a2,
     r_drive = or (or 0xe0 (push_bit 4 (ucast (and (v :: uint) 1)))) (ucast (and (drop_bit 24 (w :: uint)) 0x0f)), r_cmd = x\<rparr> \<longleftrightarrow> bit v 0"
proof -
  let ?d = "or (or 0xe0 (push_bit 4 (ucast (and v 1)))) (ucast (and (drop_bit 24 w) 0x0f)) :: uchar"
  have m: "(0x0f :: uint) = mask 4" by (simp add: mask_eq_exp_minus_1)
  have b: "(0x10 :: uchar) = push_bit 4 1" by simp
  have "\<not> bit (0xe0 :: uchar) 4" by simp
  then have "bit ?d 4 \<longleftrightarrow> bit v 0" unfolding m
    by (simp add: bit_or_iff bit_push_bit_iff bit_and_iff bit_ucast_iff bit_drop_bit_eq bit_mask_iff bit_1_iff)
  moreover have "and ?d 0x10 \<noteq> 0 \<longleftrightarrow> bit ?d 4"
    unfolding b by (metis and.commute bit_iff_and_push_bit_not_eq_0)
  ultimately show ?thesis by (simp only: reg_drive1_def ide_regs.simps)
qed

section \<open>The queue\<close>

primrec qchain :: "(nat \<Rightarrow> nat option) \<Rightarrow> nat option \<Rightarrow> nat list \<Rightarrow> bool" where
  "qchain nx p [] \<longleftrightarrow> p = None"
| "qchain nx p (x # xs) \<longleftrightarrow> p = Some x \<and> qchain nx (nx x) xs"

lemma qchain_cong: "(\<And>x. x \<in> set xs \<Longrightarrow> nx' x = nx x) \<Longrightarrow> qchain nx' p xs = qchain nx p xs"
  by (induction xs arbitrary: p) auto

lemma queue_last_chain: "qchain nx (Some h) (h # xs) \<Longrightarrow> queue_last h nx = Some (last (h # xs))"
proof (induction xs arbitrary: h)
  case Nil
  then show ?case by (subst queue_last.simps) simp
next
  case (Cons x xs)
  then show ?case by (subst queue_last.simps) simp
qed

lemma qchain_snoc:
  assumes "qchain nx p xs" "distinct xs" "i \<notin> set xs" "xs \<noteq> []"
  shows "qchain (nx(i := None, last xs := Some i)) p (xs @ [i])"
  using assms
proof (induction xs arbitrary: p)
  case (Cons x xs)
  show ?case
  proof (cases "xs = []")
    case True
    then show ?thesis using Cons.prems by auto
  next
    case False
    then have "qchain (nx(i := None, last xs := Some i)) (nx x) (xs @ [i])" using Cons.prems by (intro Cons.IH) auto
    moreover have "last xs \<noteq> x" using False Cons.prems(2) by (metis distinct.simps(2) last_in_set)
    then have "(nx(i := None, last xs := Some i)) x = nx x" using Cons.prems(3) by simp
    moreover have "p = Some x" using Cons.prems(1) by simp
    ultimately show ?thesis by (simp only: append_Cons qchain.simps last_ConsR [OF False])
  qed
qed simp

lemma ide_enqueue_ok:
  assumes "qchain (qnext s) (idequeue s) qs" "distinct qs" "i \<notin> set qs"
  obtains t where "ide_enqueue i s = Some t" "qchain (qnext t) (idequeue t) (qs @ [i])" "idequeue t = Some (hd (qs @ [i]))"
    "bufs t = bufs s" "disk t = disk s" "havedisk1 t = havedisk1 s" "ctl t = ctl s" "cur t = cur s" "procs t = procs s"
proof (cases qs)
  case Nil
  then show thesis using that [of "s\<lparr>qnext := (qnext s)(i := None), idequeue := Some i\<rparr>"] assms(1) by (simp add: ide_enqueue_def Let_def)
next
  case (Cons h xs)
  have c: "qchain ((qnext s)(i := None)) (Some h) (h # xs)"
  proof -
    have "qchain ((qnext s)(i := None)) (idequeue s) qs" using assms(1,3) by (subst qchain_cong [of qs _ "qnext s"]) auto
    then show ?thesis using assms(1) Cons by simp
  qed
  let ?t = "s\<lparr>qnext := (qnext s)(i := None, last qs := Some i)\<rparr>"
  have "ide_enqueue i s = Some ?t"
    using queue_last_chain [OF c] assms(1) Cons by (simp add: ide_enqueue_def Let_def)
  then show thesis using that [of ?t] qchain_snoc [OF assms] assms(1) Cons by simp
qed

section \<open>Requests\<close>

text \<open>What a request means: the buffer's data goes to its sector, or the sector's data to the buffer.\<close>

definition serve :: "nat \<Rightarrow> buf list \<times> (uint \<Rightarrow> uchar list) \<Rightarrow> buf list \<times> (uint \<Rightarrow> uchar list)" where
  "serve i = (\<lambda>(bs, d).
     if b_dirty (bs ! i) then (bs[i := (bs ! i)\<lparr>b_dirty := False, b_valid := True\<rparr>], d(b_sector (bs ! i) := b_data (bs ! i)))
     else (bs[i := (bs ! i)\<lparr>b_data := d (b_sector (bs ! i)), b_valid := True\<rparr>], d))"

text \<open>The driver of memide.c serves a request at once.\<close>

lemma memide_serves: "iderw i s = Done () t \<Longrightarrow> (bufs t, disk t) = serve i (bufs s, disk s)"
  by (auto simp: iderw_def serve_def upd_buf_def Let_def split: if_splits)

text \<open>A buffer with a request for disk 1, and the controller programmed with a request; the data of a write are on the disk already.\<close>

definition request :: "buf \<Rightarrow> bool" where
  "request b \<longleftrightarrow> b_busy b \<and> \<not> (b_valid b \<and> \<not> b_dirty b) \<and> b_dev b = 1 \<and> unat (b_sector b) < 2 ^ 28"

definition programmed :: "'x ide_state_scheme \<Rightarrow> nat \<Rightarrow> bool" where
  "programmed s i \<longleftrightarrow> reg_sector (ctl s) = b_sector (buf_at s i) \<and> reg_drive1 (ctl s) \<and>
     (b_dirty (buf_at s i) \<longrightarrow> disk s (b_sector (buf_at s i)) = b_data (buf_at s i))"

definition ide_inv :: "'x ide_state_scheme \<Rightarrow> nat list \<Rightarrow> bool" where
  "ide_inv s qs \<longleftrightarrow> qchain (qnext s) (idequeue s) qs \<and> distinct qs \<and> havedisk1 s \<and>
     (\<forall>i \<in> set qs. i < length (bufs s) \<and> request (buf_at s i)) \<and> (qs \<noteq> [] \<longrightarrow> programmed s (hd qs))"

lemma idestart_ok:
  assumes "request (buf_at s i)"
  obtains t where "idestart (Some i) s = Done () t" "programmed t i" "bufs t = bufs s" "serve i (bufs t, disk t) = serve i (bufs s, disk s)"
    "qnext t = qnext s" "idequeue t = idequeue s" "havedisk1 t = havedisk1 s" "cur t = cur s" "procs t = procs s"
proof -
  let ?b = "buf_at s i"
  have b: "unat (b_sector ?b) < 2 ^ 28" "b_dev ?b = 1" using assms by (simp_all add: request_def)
  define g where "g = \<lparr>r_count = 1, r_lba0 = ucast (and (b_sector ?b) 0xff), r_lba1 = ucast (and (drop_bit 8 (b_sector ?b)) 0xff),
      r_lba2 = ucast (and (drop_bit 16 (b_sector ?b)) 0xff),
      r_drive = or (or 0xe0 (push_bit 4 (ucast (and (b_dev ?b) 1)))) (ucast (and (drop_bit 24 (b_sector ?b)) 0x0f)),
      r_cmd = (if b_dirty ?b then IDE_CMD_WRITE else IDE_CMD_READ)\<rparr>"
  have g: "reg_sector g = b_sector ?b" "reg_drive1 g"
    unfolding g_def by (rule reg_sector_start [OF b(1)]) (simp only: reg_drive1_start b(2) bit_1_0)
  define t where "t = (if b_dirty ?b then ctl_store (b_data ?b) (s\<lparr>ctl := g\<rparr>) else s\<lparr>ctl := g\<rparr>)"
  have t: "idestart (Some i) s = Done () t" by (simp add: idestart_def Let_def t_def g_def)
  have r: "reg_sector (ctl t) = b_sector ?b" "reg_drive1 (ctl t)" "bufs t = bufs s"
      "disk t = (if b_dirty ?b then (disk s)(b_sector ?b := b_data ?b) else disk s)"
      "qnext t = qnext s" "idequeue t = idequeue s" "havedisk1 t = havedisk1 s" "cur t = cur s" "procs t = procs s"
    by (simp_all add: t_def ctl_store_def g)
  have "serve i (bufs t, disk t) = serve i (bufs s, disk s)" unfolding r(3,4) by (simp add: serve_def)
  then show thesis using that [OF t] r by (simp add: programmed_def)
qed

section \<open>Submitting and completing requests\<close>

lemma serve_other: "i \<noteq> j \<Longrightarrow> fst (serve i (bs, d)) ! j = bs ! j" "length (fst (serve i (bs, d))) = length bs"
  by (simp_all add: serve_def)

lemma ide_rw_ok:
  assumes "ide_inv s qs" "i < length (bufs s)" "request (buf_at s i)" "i \<notin> set qs" "cur s \<noteq> None"
  obtains t where "ide_rw i s = Some (Sleep (ChanBuf i) t)" "ide_inv t (qs @ [i])"
    "fold serve (qs @ [i]) (bufs t, disk t) = serve i (fold serve qs (bufs s, disk s))"
    "procs t = (procs s)[the (cur s) := (procs s ! the (cur s))\<lparr>p_chan := Some (ChanBuf i), p_state := SLEEPING\<rparr>]"
proof -
  from assms(1) have q: "qchain (qnext s) (idequeue s) qs" "distinct qs" "havedisk1 s"
    "\<forall>i \<in> set qs. i < length (bufs s) \<and> request (buf_at s i)" "qs \<noteq> [] \<longrightarrow> programmed s (hd qs)" by (simp_all add: ide_inv_def)
  obtain t where t: "ide_enqueue i s = Some t" "qchain (qnext t) (idequeue t) (qs @ [i])" "idequeue t = Some (hd (qs @ [i]))"
    "bufs t = bufs s" "disk t = disk s" "havedisk1 t = havedisk1 s" "ctl t = ctl s" "cur t = cur s" "procs t = procs s"
    using ide_enqueue_ok [OF q(1,2) assms(4)] by blast
  have "\<exists>u. (if idequeue t = Some i then idestart (Some i) t else Done () t) = Done () u \<and> ide_inv u (qs @ [i]) \<and> bufs u = bufs s \<and>
      cur u = cur s \<and> procs u = procs s \<and> fold serve (qs @ [i]) (bufs u, disk u) = serve i (fold serve qs (bufs s, disk s))"
  proof (cases qs)
    case Nil
    obtain u where u: "idestart (Some i) t = Done () u" "programmed u i" "bufs u = bufs t" "serve i (bufs u, disk u) = serve i (bufs t, disk t)"
        "qnext u = qnext t" "idequeue u = idequeue t" "havedisk1 u = havedisk1 t" "cur u = cur t" "procs u = procs t"
      using idestart_ok [of t i] assms(3) t(4) by auto
    then show ?thesis using Nil t q assms(2-4) by (auto simp: ide_inv_def)
  next
    case (Cons h xs)
    then have "idequeue t \<noteq> Some i" using t(3) assms(4) by auto
    moreover have "programmed t h" using q(5) Cons t by (simp add: programmed_def)
    ultimately show ?thesis using Cons t q assms(2-4) by (auto simp: ide_inv_def)
  qed
  then obtain u where u: "(if idequeue t = Some i then idestart (Some i) t else Done () t) = Done () u" "ide_inv u (qs @ [i])" "bufs u = bufs s"
      "cur u = cur s" "procs u = procs s" "fold serve (qs @ [i]) (bufs u, disk u) = serve i (fold serve qs (bufs s, disk s))" by blast
  obtain p where p: "cur u = Some p" using assms(5) u(4) by auto
  define v where "v = upd_proc p (\<lambda>q. q\<lparr>p_chan := Some (ChanBuf i), p_state := SLEEPING\<rparr>) u"
  have "ide_wait i u = Sleep (ChanBuf i) v"
    using assms(3) u(3) p by (auto simp: ide_wait_def request_def sleep_on_def v_def)
  then have "ide_rw i s = Some (Sleep (ChanBuf i) v)"
    using assms(3) q(3) t(1) u(1) by (auto simp: ide_rw_def Let_def request_def)
  moreover have v: "bufs v = bufs u" "disk v = disk u" "qnext v = qnext u" "idequeue v = idequeue u" "havedisk1 v = havedisk1 u" "ctl v = ctl u"
    by (simp_all add: v_def upd_proc_def)
  have "ide_inv v (qs @ [i])" using u(2) by (simp add: ide_inv_def v programmed_def)
  moreover have "procs v = (procs s)[the (cur s) := (procs s ! the (cur s))\<lparr>p_chan := Some (ChanBuf i), p_state := SLEEPING\<rparr>]"
    using p u(4,5) by (simp add: v_def upd_proc_def)
  ultimately show thesis using that [of v] u(6) v(1,2) by simp
qed

text \<open>The processes after a wakeup of those that sleep on buffer \<open>i\<close>.\<close>

definition woken_by :: "nat \<Rightarrow> proc list \<Rightarrow> proc list" where
  "woken_by i ps = map (\<lambda>p. if p_state p = SLEEPING \<and> p_chan p = Some (ChanBuf i) then p\<lparr>p_state := RUNNABLE\<rparr> else p) ps"

lemma ideintr_ok:
  assumes "ide_inv s (i # qs)" "idewait True r \<ge> 0"
  obtains t where "ideintr r s = Done () t" "ide_inv t qs" "fold serve qs (bufs t, disk t) = fold serve (i # qs) (bufs s, disk s)"
    "b_valid (buf_at t i)" "\<not> b_dirty (buf_at t i)" "cur t = cur s" "procs t = woken_by i (procs s)"
proof -
  from assms(1) have q: "idequeue s = Some i" "qchain (qnext s) (qnext s i) qs" "i \<notin> set qs" "distinct qs" "havedisk1 s" "i < length (bufs s)"
      "\<forall>j \<in> set qs. j < length (bufs s) \<and> request (buf_at s j)" "programmed s i"
    by (simp_all add: ide_inv_def)
  define s1 where "s1 = s\<lparr>idequeue := qnext s i\<rparr>"
  define s2 where "s2 = (if \<not> b_dirty (buf_at s1 i) then upd_buf i (\<lambda>b. b\<lparr>b_data := ctl_fetch s1\<rparr>) s1 else s1)"
  define s3 where "s3 = wakeup (ChanBuf i) (upd_buf i (\<lambda>b. b\<lparr>b_valid := True, b_dirty := False\<rparr>) s2)"
  have f: "idequeue s3 = qnext s i" "qnext s3 = qnext s" "havedisk1 s3 = havedisk1 s" "disk s3 = disk s" "ctl s3 = ctl s" "cur s3 = cur s"
    "procs s3 = woken_by i (procs s)"
    by (simp_all add: s3_def s2_def s1_def upd_buf_def wakeup_def wakeup1_def woken_by_def)
  have fetch: "ctl_fetch s1 = disk s (b_sector (buf_at s i))"
    using q(8) by (simp add: ctl_fetch_def s1_def programmed_def)
  have sv: "(bufs s3, disk s3) = serve i (bufs s, disk s)"
  proof (cases "b_dirty (buf_at s i)")
    case True
    then have "(disk s)(b_sector (buf_at s i) := b_data (buf_at s i)) = disk s" using q(8) by (auto simp: programmed_def)
    moreover have "(bufs s)[i := (buf_at s i)\<lparr>b_valid := True, b_dirty := False\<rparr>] = (bufs s)[i := (buf_at s i)\<lparr>b_dirty := False, b_valid := True\<rparr>]"
      by (rule arg_cong [of _ _ "\<lambda>b. (bufs s)[i := b]"]) simp
    ultimately show ?thesis using True f(4) by (simp add: serve_def s3_def s2_def s1_def upd_buf_def wakeup_def wakeup1_def)
  next
    case False
    then have "(bufs s)[i := (buf_at s i)\<lparr>b_data := x, b_valid := True, b_dirty := False\<rparr>] = (bufs s)[i := (buf_at s i)\<lparr>b_data := x, b_valid := True\<rparr>]" for x
      by (intro arg_cong [of _ _ "\<lambda>b. (bufs s)[i := b]"]) simp
    moreover have "bufs s1 = bufs s" by (simp add: s1_def)
    ultimately show ?thesis using False f(4) fetch q(6) by (simp add: serve_def s3_def s2_def upd_buf_def wakeup_def wakeup1_def)
  qed
  have o: "buf_at s3 j = buf_at s j" if "j \<noteq> i" for j using sv serve_other(1) [of i j "bufs s" "disk s"] that by (metis fst_conv)
  have l: "length (bufs s3) = length (bufs s)" using sv serve_other(2) [of i "bufs s" "disk s"] by (metis fst_conv)
  have bi: "b_valid (buf_at s3 i)" "\<not> b_dirty (buf_at s3 i)"
    using sv q(6) by (auto simp: serve_def split: if_splits dest!: arg_cong [of _ _ fst])
  have e: "ideintr r s = (if idequeue s3 \<noteq> None then idestart (idequeue s3) s3 else Done () s3)"
    by (simp only: ideintr_def q(1) option.case Let_def s3_def s2_def s1_def assms(2) simp_thms)
  show thesis
  proof (cases qs)
    case Nil
    then have "ide_inv s3 []" using q(2,5) f by (simp add: ide_inv_def)
    then show thesis using that [of s3] e f q(2) Nil sv bi by simp
  next
    case (Cons j xs)
    then have j: "idequeue s3 = Some j" "request (buf_at s3 j)" using q(2,3,7) f(1) o [of j] by auto
    obtain t where t: "idestart (Some j) s3 = Done () t" "programmed t j" "bufs t = bufs s3" "serve j (bufs t, disk t) = serve j (bufs s3, disk s3)"
        "qnext t = qnext s3" "idequeue t = idequeue s3" "havedisk1 t = havedisk1 s3" "cur t = cur s3" "procs t = procs s3"
      using idestart_ok [OF j(2)] by blast
    have "\<forall>k \<in> set qs. k < length (bufs t) \<and> request (buf_at t k)" using q(3,7) o l t(3) by metis
    then have "ide_inv t qs" using q(2,4,5) f t j(1) Cons by (simp add: ide_inv_def)
    moreover have "fold serve qs (bufs t, disk t) = fold serve (i # qs) (bufs s, disk s)" using t(4) sv Cons by simp
    ultimately show thesis using that [of t] e t(1,3,8,9) j(1) bi f(6,7) by simp
  qed
qed

text \<open>
  The requests submitted and the interrupts taken since the driver was idle: \<open>is\<close> are the buffers submitted, in order, and \<open>qs\<close> those that wait.
\<close>

inductive ide_reach :: "'x ide_state_scheme \<Rightarrow> nat list \<Rightarrow> nat list \<Rightarrow> 'x ide_state_scheme \<Rightarrow> bool" where
  ir_start: "idequeue s = None \<Longrightarrow> havedisk1 s \<Longrightarrow> ide_reach s [] [] s"
| ir_submit: "ide_reach s0 js qs s \<Longrightarrow> i < length (bufs s) \<Longrightarrow> request (buf_at s i) \<Longrightarrow> i \<notin> set qs \<Longrightarrow> cur s \<noteq> None \<Longrightarrow>
    ide_rw i s = Some (Sleep c t) \<Longrightarrow> ide_reach s0 (js @ [i]) (qs @ [i]) t"
| ir_sched: "ide_reach s0 js qs s \<Longrightarrow> ide_reach s0 js qs (s\<lparr>procs := ps, cur := c\<rparr>)"
| ir_intr: "ide_reach s0 js (i # qs) s \<Longrightarrow> idewait True r \<ge> 0 \<Longrightarrow> ideintr r s = Done () t \<Longrightarrow> ide_reach s0 js qs t"

lemma ide_reach_inv:
  "ide_reach s0 js qs s \<Longrightarrow> ide_inv s qs \<and> fold serve qs (bufs s, disk s) = fold serve js (bufs s0, disk s0)"
proof (induction rule: ide_reach.induct)
  case (ir_start s)
  then show ?case by (simp add: ide_inv_def)
next
  case (ir_submit s0 js qs s i c t)
  then obtain v where "ide_rw i s = Some (Sleep (ChanBuf i) v)" "ide_inv v (qs @ [i])"
      "fold serve (qs @ [i]) (bufs v, disk v) = serve i (fold serve qs (bufs s, disk s))"
    using ide_rw_ok [of s qs i] by metis
  then show ?case using ir_submit by simp
next
  case (ir_sched s0 js qs s ps c)
  then show ?case by (simp add: ide_inv_def programmed_def)
next
  case (ir_intr s0 js i qs s r t)
  then show ?case using ideintr_ok [of s i qs r] by (metis kres.inject(1))
qed

text \<open>
  C11. The disk driver serves the requests in the order in which they were submitted, with the effect that memide.c has when it serves each at once: carrying out
  the requests that still wait gives the buffers and the disk that serving all submitted requests in order gives. An interrupt completes the oldest request: exactly the processes that sleep on
  its buffer become runnable, and a process that runs again finds the request complete and returns from iderw.
\<close>

theorem ide_serves_in_order:
  assumes "ide_reach s0 js qs s"
  shows "fold serve qs (bufs s, disk s) = fold serve js (bufs s0, disk s0) \<and>
    (case qs of [] \<Rightarrow> idequeue s = None
     | i # is \<Rightarrow> \<forall>r. idewait True r \<ge> 0 \<longrightarrow> (\<exists>t. ideintr r s = Done () t \<and> procs t = woken_by i (procs s) \<and>
         ide_wait i t = Done () t \<and> ide_reach s0 js is t))"
proof (cases qs)
  case Nil
  then show ?thesis using ide_reach_inv [OF assms] by (simp add: ide_inv_def)
next
  case (Cons i qs')
  have "\<exists>t. ideintr r s = Done () t \<and> procs t = woken_by i (procs s) \<and> ide_wait i t = Done () t \<and> ide_reach s0 js qs' t" if r: "idewait True r \<ge> 0" for r
  proof -
    obtain t where "ideintr r s = Done () t" "b_valid (buf_at t i)" "\<not> b_dirty (buf_at t i)" "procs t = woken_by i (procs s)"
      using ideintr_ok [of s i qs' r] ide_reach_inv [OF assms] r Cons by metis
    then show ?thesis using ir_intr [OF assms [unfolded Cons] r] by (simp add: ide_wait_def)
  qed
  then show ?thesis using ide_reach_inv [OF assms] Cons by simp
qed

definition ide_sample :: ide_state where
  "ide_sample = bcache_state.extend (bcache_sample\<lparr>bufs := (bufs bcache_sample)[0 := zero_buf\<lparr>b_busy := True, b_dev := 1, b_sector := 7\<rparr>]\<rparr>)
     \<lparr>qnext = (\<lambda>_. None), idequeue = None, havedisk1 = True,
      ctl = \<lparr>r_count = 0, r_lba0 = 0, r_lba1 = 0, r_lba2 = 0, r_drive = 0, r_cmd = 0\<rparr>, disk0 = (\<lambda>_. [])\<rparr>"

lemma ide_sample_sel:
  "bufs ide_sample = (replicate (Suc NBUF) zero_buf)[0 := zero_buf\<lparr>b_busy := True, b_dev := 1, b_sector := 7\<rparr>]" "idequeue ide_sample = None" "havedisk1 ide_sample"
  "qnext ide_sample = (\<lambda>_. None)" "disk ide_sample = (\<lambda>sec. replicate 512 (of_nat (unat sec)))" "cur ide_sample = Some 1"
  "1 < length (procs ide_sample)"
  using bcache_sample_sel
  by (simp_all add: ide_sample_def bcache_state.defs bcache_sample_def pipe_state.defs pipe_sample_def ptable_state.defs forked_table_def mk_table_def)

theorem ide_serves_in_order_witness:
  "\<exists>t u. ide_rw 0 ide_sample = Some (Sleep (ChanBuf 0) t) \<and> p_state (procs t ! 1) = SLEEPING \<and>
     ideintr IDE_DRDY t = Done () u \<and> p_state (procs u ! 1) = RUNNABLE \<and> ide_wait 0 u = Done () u \<and>
     b_data (buf_at u 0) = replicate 512 7"
proof -
  have b: "request (buf_at ide_sample 0)" "0 < length (bufs ide_sample)" by (simp_all add: ide_sample_sel request_def zero_buf_def)
  have r0: "ide_reach ide_sample [] [] ide_sample" by (rule ir_start) (simp_all add: ide_sample_sel)
  obtain t where t: "ide_rw 0 ide_sample = Some (Sleep (ChanBuf 0) t)"
      "procs t = (procs ide_sample)[1 := (procs ide_sample ! 1)\<lparr>p_chan := Some (ChanBuf 0), p_state := SLEEPING\<rparr>]"
    using ide_rw_ok [of ide_sample "[]" 0] ide_reach_inv [OF r0] b by (auto simp: ide_sample_sel(6))
  have r1: "ide_reach ide_sample [0] [0] t"
    using ir_submit [OF r0 b(2,1) _ _ t(1)] by (simp add: ide_sample_sel(6))
  have ok: "idewait True IDE_DRDY \<ge> 0" by (simp add: idewait_def IDE_DRDY_def IDE_DF_def IDE_ERR_def)
  obtain u where u: "ideintr IDE_DRDY t = Done () u" "ide_wait 0 u = Done () u" "ide_reach ide_sample [0] [] u"
      "procs u = woken_by 0 (procs t)"
    using ide_serves_in_order [OF r1] ok by auto
  have "(bufs u, disk u) = serve 0 (bufs ide_sample, disk ide_sample)" using ide_serves_in_order [OF u(3)] by simp
  then have "b_data (buf_at u 0) = replicate 512 7"
    by (auto simp: serve_def ide_sample_sel zero_buf_def dest!: arg_cong [of _ _ fst])
  moreover have "p_state (procs t ! 1) = SLEEPING" "p_state (procs u ! 1) = RUNNABLE"
    using ide_sample_sel(7) by (simp_all add: u(4) t(2) woken_by_def)
  ultimately show ?thesis using t(1) u by blast
qed

text \<open>After a read that the disk reports as failed, the buffer is marked valid all the same, with the bytes it had before.\<close>

lemma ideintr_read_error:
  assumes "idequeue s = Some i" "qnext s i = None" "i < length (bufs s)" "\<not> b_dirty (buf_at s i)" "idewait True r < 0"
  shows "\<exists>t. ideintr r s = Done () t \<and> b_valid (buf_at t i) \<and> b_data (buf_at t i) = b_data (buf_at s i)"
proof -
  let ?t = "wakeup (ChanBuf i) (upd_buf i (\<lambda>b. b\<lparr>b_valid := True, b_dirty := False\<rparr>) (s\<lparr>idequeue := None\<rparr>))"
  have n: "\<not> idewait True r \<ge> 0" using assms(5) by simp
  have "idequeue ?t = None" by (simp add: upd_buf_def wakeup_def wakeup1_def)
  then have "ideintr r s = Done () ?t" by (simp add: ideintr_def assms(1,2) n Let_def)
  moreover have "b_valid (buf_at ?t i)" "b_data (buf_at ?t i) = b_data (buf_at s i)"
    using assms(3) by (simp_all add: upd_buf_def wakeup_def wakeup1_def)
  ultimately show ?thesis by blast
qed

end
