(* ===== verification/Sysfile.thy ===== *)
theory Sysfile
  imports Exec
begin

text \<open>
  The system calls about files (sysfile.c): descriptors of the current process, links,
  creation and opening of files, directories, pipes, and exec. Each begins with the checks of its
  arguments in user memory and runs its updates between begin_op and end_op.
\<close>

section \<open>Descriptors\<close>

definition argfd :: "nat \<Rightarrow> 'x ptable_state_scheme \<Rightarrow> (nat \<times> nat) option" where
  "argfd n s =
     (case argint n s of
        None \<Rightarrow> None
      | Some w \<Rightarrow>
          (let fd = sint w
           in if fd < 0 \<or> fd \<ge> int NOFILE then None
              else case p_ofile (curproc s) ! nat fd of None \<Rightarrow> None | Some f \<Rightarrow> Some (nat fd, f)))"

definition fdalloc :: "nat \<Rightarrow> 'x ptable_state_scheme \<Rightarrow> nat option \<times> 'x ptable_state_scheme" where
  "fdalloc f s =
     (case find_idx (\<lambda>x. x = None) (take NOFILE (p_ofile (curproc s))) of
        Some fd \<Rightarrow> (Some fd, on_cur (\<lambda>p. p\<lparr>p_ofile := (p_ofile p)[fd := Some f]\<rparr>) s)
      | None \<Rightarrow> (None, s))"

definition sys_dup :: "'x ftable_state_scheme \<Rightarrow> (int, 'x ftable_state_scheme) kres" where
  "sys_dup s =
     (case argfd 0 s of
        None \<Rightarrow> Done (-1) s
      | Some (_, f) \<Rightarrow>
          (case fdalloc f s of
             (None, s1) \<Rightarrow> Done (-1) s1
           | (Some fd, s1) \<Rightarrow> kbind (filedup f s1) (\<lambda>_ s2. Done (int fd) s2)))"

definition sys_read :: "'x ftable_state_scheme devsw \<Rightarrow> 'x ftable_state_scheme \<Rightarrow> (int, 'x ftable_state_scheme) kres" where
  "sys_read dv s =
     (case (argfd 0 s, argint 2 s) of
        (Some (_, f), Some n) \<Rightarrow>
          (case argptr 1 (sint n) s of
             None \<Rightarrow> Done (-1) s
           | Some p \<Rightarrow> kbind (fileread dv f (sint n) s) (\<lambda>(r, bs) s1. Done r (ustore p bs s1)))
      | _ \<Rightarrow> Done (-1) s)"

definition sys_write :: "'x ftable_state_scheme devsw \<Rightarrow> 'x ftable_state_scheme \<Rightarrow> (int, 'x ftable_state_scheme) kres" where
  "sys_write dv s =
     (case (argfd 0 s, argint 2 s) of
        (Some (_, f), Some n) \<Rightarrow>
          (case argptr 1 (sint n) s of
             None \<Rightarrow> Done (-1) s
           | Some p \<Rightarrow> filewrite dv f (ubytes s p (nat (sint n))) (sint n) s)
      | _ \<Rightarrow> Done (-1) s)"

definition sys_close :: "uint \<Rightarrow> 'x ftable_state_scheme \<Rightarrow> (int, 'x ftable_state_scheme) kres" where
  "sys_close kend s =
     (case argfd 0 s of
        None \<Rightarrow> Done (-1) s
      | Some (fd, f) \<Rightarrow>
          kbind (fileclose kend f (on_cur (\<lambda>p. p\<lparr>p_ofile := (p_ofile p)[fd := None]\<rparr>) s)) (\<lambda>_ s1. Done 0 s1))"

text \<open>The fields of struct stat at their offsets; the padding is not written.\<close>

definition ustore_stat :: "uint \<Rightarrow> stat \<Rightarrow> 'x ptable_state_scheme \<Rightarrow> 'x ptable_state_scheme" where
  "ustore_stat a st s =
     ustore (a + 16) (le32 (st_size st)) (ustore (a + 12) (le16 (st_nlink st))
       (ustore (a + 8) (le32 (st_ino st)) (ustore (a + 4) (le32 (st_dev st)) (ustore a (le16 (st_type st)) s))))"

definition sys_fstat :: "'x ftable_state_scheme \<Rightarrow> (int, 'x ftable_state_scheme) kres" where
  "sys_fstat s =
     (case (argfd 0 s, argptr 1 20 s) of
        (Some (_, f), Some p) \<Rightarrow>
          kbind (filestat f s) (\<lambda>(r, st) s1.
            (case st of None \<Rightarrow> Done r s1 | Some st \<Rightarrow> Done r (ustore_stat p st s1)))
      | _ \<Rightarrow> Done (-1) s)"

section \<open>Links\<close>

text \<open>\<open>end_op(); return -1;\<close>\<close>

definition end_fail :: "'x icache_state_scheme \<Rightarrow> (int, 'x icache_state_scheme) kres" where
  "end_fail s = kbind (end_op s) (\<lambda>_ s1. Done (-1) s1)"

definition link_bad :: "nat \<Rightarrow> 'x icache_state_scheme \<Rightarrow> (int, 'x icache_state_scheme) kres" where
  "link_bad ip s =
     kbind (ilock ip s) (\<lambda>_ s1.
     kbind (iupdate ip (upd_inode ip (\<lambda>i. i\<lparr>i_nlink := i_nlink i - 1\<rparr>) s1)) (\<lambda>_ s2.
     kbind (iunlockput ip s2) (\<lambda>_ s3. end_fail s3)))"

definition sys_link :: "'x icache_state_scheme devsw \<Rightarrow> 'x icache_state_scheme \<Rightarrow> (int, 'x icache_state_scheme) kres" where
  "sys_link dv s =
     (case (argstr 0 s, argstr 1 s) of
        (Some old, Some new) \<Rightarrow>
          kbind (begin_op s) (\<lambda>_ s1.
          kbind (namei dv old s1) (\<lambda>r s2.
            (case r of
               None \<Rightarrow> end_fail s2
             | Some ip \<Rightarrow>
                 kbind (ilock ip s2) (\<lambda>_ s3.
                   if i_type (ino s3 ip) = T_DIR then kbind (iunlockput ip s3) (\<lambda>_ s4. end_fail s4)
                   else kbind (iupdate ip (upd_inode ip (\<lambda>i. i\<lparr>i_nlink := i_nlink i + 1\<rparr>) s3)) (\<lambda>_ s4.
                        kbind (iunlock ip s4) (\<lambda>_ s5.
                        kbind (nameiparent dv new (\<lambda>_. 0) s5) (\<lambda>(q, name) s6.
                          (case q of
                             None \<Rightarrow> link_bad ip s6
                           | Some dp \<Rightarrow>
                               kbind (ilock dp s6) (\<lambda>_ s7.
                               kbind (if i_dev (ino s7 dp) \<noteq> i_dev (ino s7 ip) then Done (-1) s7
                                      else dirlink dv dp name (i_inum (ino s7 ip)) s7) (\<lambda>l s8.
                               kbind (iunlockput dp s8) (\<lambda>_ s9.
                                 if l < 0 then link_bad ip s9
                                 else kbind (iput ip s9) (\<lambda>_ s10. kbind (end_op s10) (\<lambda>_ s11. Done 0 s11)))))))))))))
      | _ \<Rightarrow> Done (-1) s)"

primrec isdirempty_loop :: "'x icache_state_scheme devsw \<Rightarrow> nat \<Rightarrow> nat list \<Rightarrow> 'x icache_state_scheme \<Rightarrow> (bool, 'x icache_state_scheme) kres" where
  "isdirempty_loop dv dp [] s = Done True s"
| "isdirempty_loop dv dp (off # offs) s =
     kbind (readi dv dp (of_nat off) 16 s) (\<lambda>(r, de) s1.
       if r \<noteq> 16 then Panic ''isdirempty: readi''
       else if de_inum de \<noteq> 0 then Done False s1
       else isdirempty_loop dv dp offs s1)"

definition isdirempty :: "'x icache_state_scheme devsw \<Rightarrow> nat \<Rightarrow> 'x icache_state_scheme \<Rightarrow> (bool, 'x icache_state_scheme) kres" where
  "isdirempty dv dp s = isdirempty_loop dv dp (drop 2 (dir_offs (i_size (ino s dp)))) s"

definition dot :: cptr where "dot = cstr [0x2E]"

definition dotdot :: cptr where "dotdot = cstr [0x2E, 0x2E]"

definition unlink_bad :: "nat \<Rightarrow> 'x icache_state_scheme \<Rightarrow> (int, 'x icache_state_scheme) kres" where
  "unlink_bad dp s = kbind (iunlockput dp s) (\<lambda>_ s1. end_fail s1)"

definition sys_unlink :: "'x icache_state_scheme devsw \<Rightarrow> 'x icache_state_scheme \<Rightarrow> (int, 'x icache_state_scheme) kres" where
  "sys_unlink dv s =
     (case argstr 0 s of
        None \<Rightarrow> Done (-1) s
      | Some path \<Rightarrow>
          kbind (begin_op s) (\<lambda>_ s1.
          kbind (nameiparent dv path (\<lambda>_. 0) s1) (\<lambda>(q, name) s2.
            (case q of
               None \<Rightarrow> end_fail s2
             | Some dp \<Rightarrow>
                 kbind (ilock dp s2) (\<lambda>_ s3.
                   if namecmp name dot = 0 \<or> namecmp name dotdot = 0 then unlink_bad dp s3
                   else kbind (dirlookup dv dp name s3) (\<lambda>r s4.
                     (case r of
                        None \<Rightarrow> unlink_bad dp s4
                      | Some (ip, off) \<Rightarrow>
                          kbind (ilock ip s4) (\<lambda>_ s5.
                            if sint (i_nlink (ino s5 ip)) < 1 then Panic ''unlink: nlink < 1''
                            else kbind (if i_type (ino s5 ip) = T_DIR then isdirempty dv ip s5 else Done True s5) (\<lambda>e s6.
                              if \<not> e then kbind (iunlockput ip s6) (\<lambda>_ s7. unlink_bad dp s7)
                              else kbind (writei dv dp (replicate 16 0) off 16 s6) (\<lambda>w s7.
                                if w \<noteq> 16 then Panic ''unlink: writei''
                                else kbind (if i_type (ino s7 ip) = T_DIR
                                            then iupdate dp (upd_inode dp (\<lambda>i. i\<lparr>i_nlink := i_nlink i - 1\<rparr>) s7)
                                            else Done () s7) (\<lambda>_ s8.
                                     kbind (iunlockput dp s8) (\<lambda>_ s9.
                                     kbind (iupdate ip (upd_inode ip (\<lambda>i. i\<lparr>i_nlink := i_nlink i - 1\<rparr>) s9)) (\<lambda>_ s10.
                                     kbind (iunlockput ip s10) (\<lambda>_ s11.
                                     kbind (end_op s11) (\<lambda>_ s12. Done 0 s12)))))))))))))))"

section \<open>Creating and opening\<close>

text \<open>The inode that create returns is locked.\<close>

definition create :: "'x icache_state_scheme devsw \<Rightarrow> uchar list \<Rightarrow> ushort \<Rightarrow> ushort \<Rightarrow> ushort \<Rightarrow> 'x icache_state_scheme \<Rightarrow>
    (nat option, 'x icache_state_scheme) kres" where
  "create dv path ty major minor s =
     kbind (nameiparent dv path (\<lambda>_. 0) s) (\<lambda>(q, name) s1.
       (case q of
          None \<Rightarrow> Done None s1
        | Some dp \<Rightarrow>
            kbind (ilock dp s1) (\<lambda>_ s2.
            kbind (dirlookup dv dp name s2) (\<lambda>r s3.
              (case r of
                 Some (ip, _) \<Rightarrow>
                   kbind (iunlockput dp s3) (\<lambda>_ s4.
                   kbind (ilock ip s4) (\<lambda>_ s5.
                     if ty = T_FILE \<and> i_type (ino s5 ip) = T_FILE then Done (Some ip) s5
                     else kbind (iunlockput ip s5) (\<lambda>_ s6. Done None s6)))
               | None \<Rightarrow>
                   kbind (ialloc (i_dev (ino s3 dp)) ty s3) (\<lambda>ip s4.
                   kbind (ilock ip s4) (\<lambda>_ s5.
                   kbind (iupdate ip (upd_inode ip (\<lambda>i. i\<lparr>i_major := major, i_minor := minor, i_nlink := 1\<rparr>) s5)) (\<lambda>_ s6.
                   kbind (if ty = T_DIR then
                            kbind (iupdate dp (upd_inode dp (\<lambda>i. i\<lparr>i_nlink := i_nlink i + 1\<rparr>) s6)) (\<lambda>_ t1.
                            kbind (dirlink dv ip dot (i_inum (ino t1 ip)) t1) (\<lambda>a t2.
                              if a < 0 then Panic ''create dots''
                              else kbind (dirlink dv ip dotdot (i_inum (ino t2 dp)) t2) (\<lambda>b t3.
                                if b < 0 then Panic ''create dots'' else Done () t3)))
                          else Done () s6) (\<lambda>_ s7.
                   kbind (dirlink dv dp name (i_inum (ino s7 ip)) s7) (\<lambda>l s8.
                     if l < 0 then Panic ''create: dirlink''
                     else kbind (iunlockput dp s8) (\<lambda>_ s9. Done (Some ip) s9)))))))))))"

definition O_RDONLY :: uint where "O_RDONLY = 0"

definition O_WRONLY :: uint where "O_WRONLY = 1"

definition O_RDWR :: uint where "O_RDWR = 2"

definition O_CREATE :: uint where "O_CREATE = 0x200"

text \<open>The first part of sys_open: the locked inode, or None after the transaction was closed on a failure.\<close>

definition open_inode :: "'x icache_state_scheme devsw \<Rightarrow> uchar list \<Rightarrow> uint \<Rightarrow> 'x icache_state_scheme \<Rightarrow>
    (nat option, 'x icache_state_scheme) kres" where
  "open_inode dv path omode s =
     (if and omode O_CREATE \<noteq> 0 then
        kbind (create dv path T_FILE 0 0 s) (\<lambda>r s1.
          (case r of None \<Rightarrow> kbind (end_op s1) (\<lambda>_ s2. Done None s2) | Some ip \<Rightarrow> Done (Some ip) s1))
      else
        kbind (namei dv path s) (\<lambda>r s1.
          (case r of
             None \<Rightarrow> kbind (end_op s1) (\<lambda>_ s2. Done None s2)
           | Some ip \<Rightarrow>
               kbind (ilock ip s1) (\<lambda>_ s2.
                 if i_type (ino s2 ip) = T_DIR \<and> omode \<noteq> O_RDONLY
                 then kbind (iunlockput ip s2) (\<lambda>_ s3. kbind (end_op s3) (\<lambda>_ s4. Done None s4))
                 else Done (Some ip) s2))))"

definition sys_open :: "uint \<Rightarrow> 'x ftable_state_scheme devsw \<Rightarrow> 'x ftable_state_scheme \<Rightarrow> (int, 'x ftable_state_scheme) kres" where
  "sys_open kend dv s =
     (case (argstr 0 s, argint 1 s) of
        (Some path, Some omode) \<Rightarrow>
          kbind (begin_op s) (\<lambda>_ s1.
          kbind (open_inode dv path omode s1) (\<lambda>r s2.
            (case r of
               None \<Rightarrow> Done (-1) s2
             | Some ip \<Rightarrow>
                 (case filealloc s2 of
                    (None, s3) \<Rightarrow> kbind (iunlockput ip s3) (\<lambda>_ s4. end_fail s4)
                  | (Some f, s3) \<Rightarrow>
                      (case fdalloc f s3 of
                         (None, s4) \<Rightarrow>
                           kbind (fileclose kend f s4) (\<lambda>_ s5. kbind (iunlockput ip s5) (\<lambda>_ s6. end_fail s6))
                       | (Some fd, s4) \<Rightarrow>
                           kbind (iunlock ip s4) (\<lambda>_ s5.
                           kbind (end_op s5) (\<lambda>_ s6.
                             Done (int fd) (upd_file f (\<lambda>x. x\<lparr>f_type := FD_INODE, f_ip := ip, f_off := 0,
                               f_readable := (and omode O_WRONLY = 0),
                               f_writable := (and omode O_WRONLY \<noteq> 0 \<or> and omode O_RDWR \<noteq> 0)\<rparr>) s6))))))))
      | _ \<Rightarrow> Done (-1) s)"

definition finish_create :: "nat option \<Rightarrow> 'x icache_state_scheme \<Rightarrow> (int, 'x icache_state_scheme) kres" where
  "finish_create r s =
     (case r of
        None \<Rightarrow> end_fail s
      | Some ip \<Rightarrow> kbind (iunlockput ip s) (\<lambda>_ s1. kbind (end_op s1) (\<lambda>_ s2. Done 0 s2)))"

definition sys_mkdir :: "'x icache_state_scheme devsw \<Rightarrow> 'x icache_state_scheme \<Rightarrow> (int, 'x icache_state_scheme) kres" where
  "sys_mkdir dv s =
     kbind (begin_op s) (\<lambda>_ s1.
       (case argstr 0 s1 of
          None \<Rightarrow> end_fail s1
        | Some path \<Rightarrow> kbind (create dv path T_DIR 0 0 s1) (\<lambda>r s2. finish_create r s2)))"

definition sys_mknod :: "'x icache_state_scheme devsw \<Rightarrow> 'x icache_state_scheme \<Rightarrow> (int, 'x icache_state_scheme) kres" where
  "sys_mknod dv s =
     kbind (begin_op s) (\<lambda>_ s1.
       (case (argstr 0 s1, argint 1 s1, argint 2 s1) of
          (Some path, Some major, Some minor) \<Rightarrow>
            kbind (create dv path T_DEV (ucast major) (ucast minor) s1) (\<lambda>r s2. finish_create r s2)
        | _ \<Rightarrow> end_fail s1))"

definition sys_chdir :: "'x icache_state_scheme devsw \<Rightarrow> 'x icache_state_scheme \<Rightarrow> (int, 'x icache_state_scheme) kres" where
  "sys_chdir dv s =
     kbind (begin_op s) (\<lambda>_ s1.
       (case argstr 0 s1 of
          None \<Rightarrow> end_fail s1
        | Some path \<Rightarrow>
            kbind (namei dv path s1) (\<lambda>r s2.
              (case r of
                 None \<Rightarrow> end_fail s2
               | Some ip \<Rightarrow>
                   kbind (ilock ip s2) (\<lambda>_ s3.
                     if i_type (ino s3 ip) \<noteq> T_DIR then kbind (iunlockput ip s3) (\<lambda>_ s4. end_fail s4)
                     else kbind (iunlock ip s3) (\<lambda>_ s4.
                          kbind (iput (the (p_cwd (curproc s4))) s4) (\<lambda>_ s5.
                          kbind (end_op s5) (\<lambda>_ s6. Done 0 (on_cur (\<lambda>p. p\<lparr>p_cwd := Some ip\<rparr>) s6)))))))))"

section \<open>exec and pipe\<close>

text \<open>The argument vector: at most MAXARG pointers up to the null pointer, each to a string.\<close>

primrec exec_argv :: "nat \<Rightarrow> uint \<Rightarrow> 'x ptable_state_scheme \<Rightarrow> uchar list list option" where
  "exec_argv 0 a s = None"
| "exec_argv (Suc k) a s =
     (case fetchint a s of
        None \<Rightarrow> None
      | Some uarg \<Rightarrow>
          if uarg = 0 then Some []
          else (case fetchstr uarg s of
                  None \<Rightarrow> None
                | Some n \<Rightarrow> map_option (\<lambda>as. ubytes s uarg n # as) (exec_argv k (a + 4) s)))"

definition sys_exec :: "uint \<Rightarrow> uint \<Rightarrow> uchar list \<Rightarrow> uchar list \<Rightarrow> 'x icache_state_scheme devsw \<Rightarrow> 'x icache_state_scheme \<Rightarrow>
    (int, 'x icache_state_scheme) kres" where
  "sys_exec kend kdata implicit junk dv s =
     (case (argstr 0 s, argint 1 s) of
        (Some path, Some uargv) \<Rightarrow>
          (case exec_argv MAXARG uargv s of
             None \<Rightarrow> Done (-1) s
           | Some argv \<Rightarrow> exec kend kdata implicit junk dv path argv s)
      | _ \<Rightarrow> Done (-1) s)"

definition sys_pipe :: "uint \<Rightarrow> 'x ftable_state_scheme \<Rightarrow> (int, 'x ftable_state_scheme) kres" where
  "sys_pipe kend s =
     (case argptr 0 8 s of
        None \<Rightarrow> Done (-1) s
      | Some a \<Rightarrow>
          kbind (pipealloc kend s) (\<lambda>r s1.
            (case r of
               None \<Rightarrow> Done (-1) s1
             | Some (rf, wr) \<Rightarrow>
                 (let (fd0, s2) = fdalloc rf s1;
                      (fd1, s3) = (if fd0 = None then (None, s2) else fdalloc wr s2)
                  in case (fd0, fd1) of
                       (Some d0, Some d1) \<Rightarrow> Done 0 (ustore (a + 4) (le32 (of_nat d1)) (ustore a (le32 (of_nat d0)) s3))
                     | _ \<Rightarrow>
                         (let s4 = (case fd0 of Some d0 \<Rightarrow> on_cur (\<lambda>p. p\<lparr>p_ofile := (p_ofile p)[d0 := None]\<rparr>) s3 | None \<Rightarrow> s3)
                          in kbind (fileclose kend rf s4) (\<lambda>_ s5. kbind (fileclose kend wr s5) (\<lambda>_ s6. Done (-1) s6)))))))"

end
