(* ===== verification/Trap.thy ===== *)
theory Trap
  imports Sysfile Console
begin

text \<open>
  Traps and the system call table (trap.c, the second half of syscall.c). What the linker and the processor provide is an
  argument: the addresses of kernel symbols, the bytes that exec finds beyond the ends of files and stacks, the device switch, the processor's number and its
  \<open>cr2\<close>. Acknowledging an interrupt (lapiceoi) changes nothing the model has. The disk interrupt is that of memide.c, which does nothing.
\<close>

section \<open>System calls\<close>

record kenv =
  k_end :: uint
  k_data :: uint
  k_trapret :: uint
  k_forkret :: uint
  k_implicit :: "uchar list"
  k_junk :: "uchar list"
  k_stk :: uint

definition done_pair :: "int \<times> 's \<Rightarrow> (int, 's) kres" where
  "done_pair r = Done (fst r) (snd r)"

text \<open>The table of handlers, with the numbers of syscall.h.\<close>

definition syscalls :: "kenv \<Rightarrow> 'x cons_state_scheme devsw \<Rightarrow> int \<Rightarrow> ('x cons_state_scheme \<Rightarrow> (int, 'x cons_state_scheme) kres) option" where
  "syscalls k dv num =
     (if num = 1 then Some (fork (k_trapret k) (k_forkret k) (k_end k) (k_data k))
      else if num = 2 then Some (sys_exit (k_end k))
      else if num = 3 then Some (sys_wait (k_end k))
      else if num = 4 then Some (sys_pipe (k_end k))
      else if num = 5 then Some (sys_read dv)
      else if num = 6 then Some (\<lambda>s. done_pair (sys_kill s))
      else if num = 7 then Some (sys_exec (k_end k) (k_data k) (k_implicit k) (k_junk k) dv)
      else if num = 8 then Some sys_fstat
      else if num = 9 then Some (sys_chdir dv)
      else if num = 10 then Some sys_dup
      else if num = 11 then Some (\<lambda>s. Done (sys_getpid s) s)
      else if num = 12 then Some (sys_sbrk (k_end k))
      else if num = 13 then Some sys_sleep
      else if num = 14 then Some (\<lambda>s. Done (sys_uptime s) s)
      else if num = 15 then Some (sys_open (k_end k) dv)
      else if num = 16 then Some (sys_write dv)
      else if num = 17 then Some (sys_mknod dv)
      else if num = 18 then Some (sys_unlink dv)
      else if num = 19 then Some (sys_link dv)
      else if num = 20 then Some (sys_mkdir dv)
      else if num = 21 then Some (sys_close (k_end k))
      else if num = 22 then Some (\<lambda>s. done_pair (sys_pstat s))
      else if num = 23 then Some (\<lambda>s. Done (sys_printjob s) s)
      else if num = 24 then Some (\<lambda>s. done_pair (sys_attachjob s))
      else if num = 25 then Some (\<lambda>s. Done (sys_isJobEmpty s) s)
      else if num = 26 then Some (sys_fg (k_end k) (k_stk k))
      else if num = 27 then Some (sys_waitpid (k_end k))
      else if num = 28 then Some (\<lambda>s. done_pair (sys_signal s))
      else None)"

definition set_eax :: "int \<Rightarrow> 'x ptable_state_scheme \<Rightarrow> 'x ptable_state_scheme" where
  "set_eax v s = s\<lparr>memory := put32 (memory s) (p_tf (curproc s) + TF_EAX) (of_int v)\<rparr>"

definition sys_num :: "'x ptable_state_scheme \<Rightarrow> int" where
  "sys_num s = sint (get32 (memory s) (p_tf (curproc s) + TF_EAX))"

text \<open>A handler after which no process is current has ended the process (exit) and does not come back to store a result.\<close>

definition syscall :: "kenv \<Rightarrow> 'x cons_state_scheme devsw \<Rightarrow> 'x cons_state_scheme \<Rightarrow> (unit, 'x cons_state_scheme) kres" where
  "syscall k dv s =
     (let num = sys_num s
      in case (if 0 < num \<and> num < 29 then syscalls k dv num else None) of
           Some f \<Rightarrow> kbind (f s) (\<lambda>v s1. Done () (if cur s1 = None then s1 else set_eax v s1))
         | None \<Rightarrow>
             kbind (cprintf (''%d %s: unknown sys call %d'' @ [CHR 0x0A])
               [KInt (of_int (p_pid (curproc s))), KStr (Some (cstrn 16 (p_name (curproc s)))), KInt (of_int num)] s)
               (\<lambda>_ s1. Done () (set_eax (-1) s1)))"

section \<open>Traps\<close>

definition TF_ERR :: uint where "TF_ERR = 52"

definition T_SYSCALL :: uint where "T_SYSCALL = 64"

definition T_IRQ0 :: uint where "T_IRQ0 = 32"

definition get16 :: "mem \<Rightarrow> uint \<Rightarrow> ushort" where
  "get16 m a = or (ucast (m a)) (push_bit 8 (ucast (m (a + 1))))"

definition user_mode :: "uint \<Rightarrow> 'x ptable_state_scheme \<Rightarrow> bool" where
  "user_mode tf s \<longleftrightarrow> and (get16 (memory s) (tf + TF_CS)) 3 = 3"

text \<open>
  How a trap ends: the interrupted code goes on (\<open>TReturn\<close>), the process has exited (\<open>TExited\<close>), or it has given up the processor in
  yield (\<open>TYielded\<close>) and goes on with \<open>trap_resume\<close> when it is scheduled again.
\<close>

datatype tret = TReturn | TExited | TYielded

definition exit_if_killed :: "kenv \<Rightarrow> bool \<Rightarrow> ('x cons_state_scheme \<Rightarrow> (tret, 'x cons_state_scheme) kres) \<Rightarrow> 'x cons_state_scheme \<Rightarrow>
    (tret, 'x cons_state_scheme) kres" where
  "exit_if_killed k cond f s =
     (if cur s \<noteq> None \<and> p_killed (curproc s) \<and> cond then kbind (exit (k_end k) 0 s) (\<lambda>_ s1. Done TExited s1) else f s)"

definition trap_resume :: "kenv \<Rightarrow> uint \<Rightarrow> 'x cons_state_scheme \<Rightarrow> (tret, 'x cons_state_scheme) kres" where
  "trap_resume k tf s = exit_if_killed k (user_mode tf s) (Done TReturn) s"

definition trap_syscall :: "kenv \<Rightarrow> 'x cons_state_scheme devsw \<Rightarrow> uint \<Rightarrow> 'x cons_state_scheme \<Rightarrow> (tret, 'x cons_state_scheme) kres" where
  "trap_syscall k dv tf s =
     exit_if_killed k True (\<lambda>s.
       kbind (syscall k dv (on_cur (\<lambda>p. p\<lparr>p_tf := tf\<rparr>) s)) (\<lambda>_ s1.
         if cur s1 = None then Done TExited s1 else exit_if_killed k True (Done TReturn) s1)) s"

definition trap_irq :: "uint \<Rightarrow> uint \<Rightarrow> uint \<Rightarrow> 'x cons_state_scheme \<Rightarrow> (unit, 'x cons_state_scheme) kres" where
  "trap_irq cpuid cr2 tf s =
     (let trapno = get32 (memory s) (tf + TF_TRAPNO); eip = get32 (memory s) (tf + TF_EIP); cs = get16 (memory s) (tf + TF_CS)
      in if trapno = T_IRQ0 then Done () (if cpuid = 0 then wakeup ChanTicks (s\<lparr>ticks := ticks s + 1\<rparr>) else s)
         else if trapno = T_IRQ0 + 14 \<or> trapno = T_IRQ0 + 15 then Done () s
         else if trapno = T_IRQ0 + 1 then kbdintr s
         else if trapno = T_IRQ0 + 4 then uartintr s
         else if trapno = T_IRQ0 + 7 \<or> trapno = T_IRQ0 + 31 then
           cprintf (''cpu%d: spurious interrupt at %x:%x'' @ [CHR 0x0A]) [KInt cpuid, KInt (ucast cs), KInt eip] s
         else if cur s = None \<or> and cs 3 = 0 then
           kbind (cprintf (''unexpected trap %d from cpu %d eip %x (cr2=0x%x)'' @ [CHR 0x0A])
             [KInt trapno, KInt cpuid, KInt eip, KInt cr2] s) (\<lambda>_ s1. Panic ''trap'')
         else
           kbind (cprintf (''pid %d %s: trap %d err %d on cpu %d eip 0x%x addr 0x%x--kill proc'' @ [CHR 0x0A])
             [KInt (of_int (p_pid (curproc s))), KStr (Some (cstrn 16 (p_name (curproc s)))), KInt trapno,
              KInt (get32 (memory s) (tf + TF_ERR)), KInt cpuid, KInt eip, KInt cr2] s)
             (\<lambda>_ s1. Done () (on_cur (\<lambda>p. p\<lparr>p_killed := True\<rparr>) s1)))"

text \<open>
  trap; \<open>ls\<close> is the process table lock and the state of processor \<open>me\<close>, which yield needs. Without a result of yield the processor
  spins on a lock that it cannot get.
\<close>

definition trap :: "kenv \<Rightarrow> 'x cons_state_scheme devsw \<Rightarrow> nat \<Rightarrow> lock_state \<Rightarrow> uint \<Rightarrow> uint \<Rightarrow> 'x cons_state_scheme \<Rightarrow>
    (tret, 'x cons_state_scheme) kres option" where
  "trap k dv me ls cr2 tf s =
     (let trapno = get32 (memory s) (tf + TF_TRAPNO)
      in if trapno = T_SYSCALL then Some (trap_syscall k dv tf s)
         else case trap_irq (of_nat me) cr2 tf s of
                Panic e \<Rightarrow> Some (Panic e)
              | Sleep c t \<Rightarrow> Some (Sleep c t)
              | Done _ s1 \<Rightarrow>
                  if cur s1 \<noteq> None \<and> p_killed (curproc s1) \<and> user_mode tf s1 then Some (kbind (exit (k_end k) 0 s1) (\<lambda>_ s2. Done TExited s2))
                  else if cur s1 \<noteq> None \<and> p_state (curproc s1) = RUNNING \<and> trapno = T_IRQ0 then
                    map_option (\<lambda>r. kbind r (\<lambda>_ s2. Done TYielded s2)) (yield me ls s1)
                  else Some (trap_resume k tf s1))"

section \<open>Killed processes and unknown calls\<close>

lemma exit_if_killed_Return:
  assumes "exit_if_killed k c (Done TReturn) s = Done TReturn t"
  shows "t = s" "cur s \<noteq> None \<Longrightarrow> c \<Longrightarrow> \<not> p_killed (curproc s)"
  using assms by (auto simp: exit_if_killed_def split: if_splits)

lemma trap_syscall_Return:
  assumes "trap_syscall k dv tf s = Done TReturn t" "cur t \<noteq> None"
  shows "\<not> p_killed (curproc t)"
proof -
  have "exit_if_killed k True (Done TReturn) u = Done TReturn t"
    if "syscall k dv (on_cur (\<lambda>p. p\<lparr>p_tf := tf\<rparr>) s) = Done () u" for u
    using assms(1) that by (auto simp: trap_syscall_def exit_if_killed_def [of k True _ s] split: if_splits)
  moreover obtain u where "syscall k dv (on_cur (\<lambda>p. p\<lparr>p_tf := tf\<rparr>) s) = Done () u"
    using assms(1) by (auto simp: trap_syscall_def exit_if_killed_def [of k True _ s] split: if_splits)
  ultimately show ?thesis using exit_if_killed_Return [of k True u t] assms(2) by auto
qed

text \<open>
  C17. A killed process never returns to user space: whenever a system call, or another trap that came from user space, ends by returning to
  the interrupted code, at once or after the process gave up the processor and runs again, the current process has not been killed.
\<close>

theorem killed_never_returns:
  assumes "cur t \<noteq> None"
  shows "(trap k dv me ls cr2 tf s = Some (Done TReturn t) \<longrightarrow> get32 (memory s) (tf + TF_TRAPNO) = T_SYSCALL \<or> user_mode tf t \<longrightarrow>
      \<not> p_killed (curproc t)) \<and>
    (trap_resume k tf s = Done TReturn t \<longrightarrow> user_mode tf t \<longrightarrow> \<not> p_killed (curproc t))"
proof (intro conjI impI)
  have R: "\<not> p_killed (curproc t)" if "trap_resume k tf u = Done TReturn t" "user_mode tf t" for u
    using exit_if_killed_Return [of k "user_mode tf u" u t] that assms by (auto simp: trap_resume_def)
  then show "\<not> p_killed (curproc t)" if "trap_resume k tf s = Done TReturn t" "user_mode tf t" using that by blast
  assume a: "trap k dv me ls cr2 tf s = Some (Done TReturn t)" "get32 (memory s) (tf + TF_TRAPNO) = T_SYSCALL \<or> user_mode tf t"
  show "\<not> p_killed (curproc t)"
  proof (cases "get32 (memory s) (tf + TF_TRAPNO) = T_SYSCALL")
    case True
    then have "trap_syscall k dv tf s = Done TReturn t" using a(1) by (simp add: trap_def)
    then show ?thesis using assms by (rule trap_syscall_Return)
  next
    case False
    then obtain u where "trap_resume k tf u = Done TReturn t"
      using a(1) by (auto simp: trap_def Let_def split: kres.splits if_splits option.splits)
    then show ?thesis using R a(2) False by blast
  qed
qed

text \<open>A process in user space that a disk interrupt finds running.\<close>

definition trap_sample :: cons_state where
  "trap_sample = cons_sample\<lparr>memory := (\<lambda>a. if a = TF_TRAPNO then 46 else if a = TF_CS then 3 else 0), cur := Some 0,
     procs := [empty_proc\<lparr>p_state := RUNNING\<rparr>]\<rparr>"

definition kenv_sample :: kenv where
  "kenv_sample = \<lparr>k_end = 0, k_data = 0, k_trapret = 0, k_forkret = 0, k_implicit = [], k_junk = [], k_stk = 0\<rparr>"

definition lock_sample :: lock_state where
  "lock_sample = \<lparr>the_lock = initlock, the_cpu = \<lparr>ncli = 0, intena = True, iflag = True\<rparr>\<rparr>"

lemma trap_sample_sel:
  "cur trap_sample = Some 0" "curproc trap_sample = empty_proc\<lparr>p_state := RUNNING\<rparr>" "user_mode 0 trap_sample"
  "get32 (memory trap_sample) (0 + TF_TRAPNO) = 46"
  by (simp_all add: trap_sample_def curproc_def user_mode_def get16_def get32_def TF_TRAPNO_def TF_CS_def)

theorem killed_never_returns_witness:
  "trap kenv_sample console_devsw 0 lock_sample 0 0 trap_sample = Some (Done TReturn trap_sample) \<and> user_mode 0 trap_sample \<and>
   \<not> p_killed (curproc trap_sample)"
proof -
  have "trap kenv_sample console_devsw 0 lock_sample 0 0 trap_sample = Some (Done TReturn trap_sample)"
    using trap_sample_sel by (simp add: trap_def trap_irq_def T_SYSCALL_def T_IRQ0_def Let_def trap_resume_def exit_if_killed_def empty_proc_def)
  then show ?thesis
    using killed_never_returns [of trap_sample kenv_sample console_devsw 0 lock_sample 0 0 trap_sample] trap_sample_sel(1,3) by simp
qed

text \<open>The message for an unknown call.\<close>

definition unknown_msg :: "int \<Rightarrow> uchar list \<Rightarrow> int \<Rightarrow> uchar list" where
  "unknown_msg pid name num = dec_text pid @ map of_char '' '' @ name @ map of_char '': unknown sys call '' @ dec_text num @ [10]"

lemma unknown_msg_outs:
  assumes "screen_ok s"
  shows "outs (unknown_msg (sint w) name (sint v))
    (cprintf (''%d %s: unknown sys call %d'' @ [CHR 0x0A]) [KInt w, KStr (Some name), KInt v] s) s"
proof -
  have f: "''%d %s: unknown sys call %d'' @ [CHR 0x0A] = ''%d'' @ ('' '' @ (''%s'' @ ('': unknown sys call '' @ (''%d'' @ ([CHR 0x0A] @ [])))))"
    by simp
  have m: "unknown_msg (sint w) name (sint v) =
      dec_text (sint w) @ (map of_char '' '' @ (name @ (map of_char '': unknown sys call '' @ (dec_text (sint v) @ (map of_char [CHR 0x0A] @ [])))))"
    by (simp add: unknown_msg_def)
  show ?thesis unfolding cprintf_def f m
    by (intro cprintf_d cprintf_s cprintf_text assms) (simp_all add: outs_Done)
qed

text \<open>
  C40. A call with a number that the table does not have prints a message with the pid, the name of the process and the number, which is what the serial
  line gets (if there is one), changes nothing but the console, and returns -1 to the process.
\<close>

theorem unknown_syscall_fails:
  assumes "sys_num s < 1 \<or> sys_num s > 28" "screen_ok s"
  shows "\<exists>t. printed s t \<and>
    serial_out t = serial_out s @
      (if uart s then unknown_msg (sint (of_int (p_pid (curproc s)) :: uint)) (cstrn 16 (p_name (curproc s))) (sys_num s) else []) \<and>
    syscall k dv s = Done () (set_eax (-1) t) \<and> sys_num (set_eax (-1) t) = -1"
proof -
  let ?r = "cprintf (''%d %s: unknown sys call %d'' @ [CHR 0x0A])
               [KInt (of_int (p_pid (curproc s))), KStr (Some (cstrn 16 (p_name (curproc s)))), KInt (of_int (sys_num s))] s"
  have v: "sint (of_int (sys_num s) :: uint) = sys_num s" by (simp add: sys_num_def)
  obtain t where t: "?r = Done () t" "printed s t" "serial_out t = serial_out s @
      (if uart s then unknown_msg (sint (of_int (p_pid (curproc s)) :: uint)) (cstrn 16 (p_name (curproc s))) (sys_num s) else [])"
    using unknown_msg_outs [OF assms(2), of "of_int (p_pid (curproc s))" "cstrn 16 (p_name (curproc s))" "of_int (sys_num s)"]
    unfolding outs_def v by blast
  have n: "(if 0 < sys_num s \<and> sys_num s < 29 then syscalls k dv (sys_num s) else None) = None" using assms(1) by auto
  have "syscall k dv s = Done () (set_eax (-1) t)" unfolding syscall_def Let_def n option.case t(1) by simp
  moreover have "sys_num (set_eax (-1) t) = -1" by (simp add: sys_num_def set_eax_def curproc_def)
  ultimately show ?thesis using t(2,3) by blast
qed

theorem unknown_syscall_fails_witness:
  "\<exists>t. printed trap_sample t \<and> serial_out t = map of_char (''0 : unknown sys call 0'' @ [CHR 0x0A]) \<and>
     syscall kenv_sample console_devsw trap_sample = Done () (set_eax (-1) t)"
proof -
  have n: "sys_num trap_sample = 0"
    by (simp add: sys_num_def trap_sample_def curproc_def empty_proc_def get32_def TF_EAX_def TF_TRAPNO_def TF_CS_def)
  have sc: "screen_ok trap_sample" using cons_sample_ok(2) by (simp add: trap_sample_def screen_ok_def cursor_def)
  have u: "uart trap_sample" "serial_out trap_sample = []" by (simp_all add: trap_sample_def cons_sample_def log_state.defs)
  have p: "p_pid (curproc trap_sample) = 0" "cstrn 16 (p_name (curproc trap_sample)) = []"
    unfolding trap_sample_sel(2) by (simp_all add: empty_proc_def cstrn_def upt_conv_Cons)
  have m: "unknown_msg 0 [] 0 = map of_char (''0 : unknown sys call 0'' @ [CHR 0x0A])"
    by (simp add: unknown_msg_def dec_text_def dec_digits.simps)
  show ?thesis using unknown_syscall_fails [of trap_sample kenv_sample console_devsw] n sc u p m by auto
qed

end
