(* ===== verification/Irq.thy ===== *)
theory Irq
  imports Trap
begin

text \<open>
  The interrupt controllers and clocks (picirq.c, ioapic.c, lapic.c, timer.c, date.h). A device is its registers, or the list of what the kernel wrote to
  its ports, in order. What a device delivers when it is read (the version registers, the CMOS clock) is an argument. microdelay does nothing.
\<close>

definition IRQ_TIMER :: nat where "IRQ_TIMER = 0"
definition IRQ_SLAVE :: nat where "IRQ_SLAVE = 2"
definition IRQ_ERROR :: uint where "IRQ_ERROR = 19"
definition IRQ_SPURIOUS :: uint where "IRQ_SPURIOUS = 31"

section \<open>The 8259A controllers and the 8253 timer\<close>

type_synonym port_out = "(nat \<times> uchar) list"

record pic_state =
  irqmask :: ushort
  pic_out :: port_out

definition IO_PIC1 :: nat where "IO_PIC1 = 0x20"
definition IO_PIC2 :: nat where "IO_PIC2 = 0xA0"

definition outb :: "nat \<Rightarrow> uchar \<Rightarrow> pic_state \<Rightarrow> pic_state" where
  "outb p d s = s\<lparr>pic_out := pic_out s @ [(p, d)]\<rparr>"

definition initial_irqmask :: ushort where
  "initial_irqmask = and 0xFFFF (not (push_bit IRQ_SLAVE 1))"

definition picsetmask :: "ushort \<Rightarrow> pic_state \<Rightarrow> pic_state" where
  "picsetmask msk s = outb (IO_PIC2 + 1) (ucast (drop_bit 8 msk)) (outb (IO_PIC1 + 1) (ucast msk) (s\<lparr>irqmask := msk\<rparr>))"

definition picenable :: "nat \<Rightarrow> pic_state \<Rightarrow> pic_state" where
  "picenable irq s = picsetmask (and (irqmask s) (not (push_bit irq 1))) s"

definition picinit :: "pic_state \<Rightarrow> pic_state" where
  "picinit s =
     (let s1 = s\<lparr>pic_out := pic_out s @
            [(IO_PIC1 + 1, 0xFF), (IO_PIC2 + 1, 0xFF),
             (IO_PIC1, 0x11), (IO_PIC1 + 1, ucast T_IRQ0), (IO_PIC1 + 1, push_bit IRQ_SLAVE 1), (IO_PIC1 + 1, 0x3),
             (IO_PIC2, 0x11), (IO_PIC2 + 1, ucast (T_IRQ0 + 8)), (IO_PIC2 + 1, of_nat IRQ_SLAVE), (IO_PIC2 + 1, 0x3),
             (IO_PIC1, 0x68), (IO_PIC1, 0x0a), (IO_PIC2, 0x68), (IO_PIC2, 0x0a)]\<rparr>
      in if irqmask s1 \<noteq> 0xFFFF then picsetmask (irqmask s1) s1 else s1)"

definition TIMER_DIV :: "nat \<Rightarrow> nat" where
  "TIMER_DIV x = (1193182 + x div 2) div x"

definition timerinit :: "pic_state \<Rightarrow> pic_state" where
  "timerinit s =
     picenable IRQ_TIMER (outb 0x40 (of_nat (TIMER_DIV 100 div 256)) (outb 0x40 (of_nat (TIMER_DIV 100 mod 256)) (outb 0x43 (or 0x04 0x30) s)))"

text \<open>The mask registers hold what was written to them last; an interrupt passes when its bit is clear, and, on the second controller, when the slave's is too.\<close>

definition last_out :: "nat \<Rightarrow> port_out \<Rightarrow> uchar" where
  "last_out p out = snd (last (filter (\<lambda>(q, _). q = p) out))"

definition pic_passes :: "pic_state \<Rightarrow> nat \<Rightarrow> bool" where
  "pic_passes s irq \<longleftrightarrow>
     (if irq < 8 then \<not> bit (last_out (IO_PIC1 + 1) (pic_out s)) irq
      else \<not> bit (last_out (IO_PIC2 + 1) (pic_out s)) (irq - 8) \<and> \<not> bit (last_out (IO_PIC1 + 1) (pic_out s)) IRQ_SLAVE)"

lemma last_out_setmask:
  "last_out (IO_PIC1 + 1) (pic_out (picsetmask m s)) = ucast m" "last_out (IO_PIC2 + 1) (pic_out (picsetmask m s)) = ucast (drop_bit 8 m)"
  by (simp_all add: last_out_def picsetmask_def outb_def IO_PIC1_def IO_PIC2_def)

lemma pic_passes_setmask:
  assumes "irq < 16" "\<not> bit m IRQ_SLAVE"
  shows "pic_passes (picsetmask m s) irq \<longleftrightarrow> \<not> bit m irq"
  unfolding pic_passes_def last_out_setmask using assms by (auto simp: bit_ucast_iff bit_drop_bit_eq IRQ_SLAVE_def)

text \<open>After picinit and any calls of picenable, exactly the interrupts enabled pass, and the line of the slave.\<close>

lemma irqmask_enables: "irqmask (fold picenable irqs s) = and (irqmask s) (not (fold (\<lambda>i m. or (push_bit i 1) m) irqs 0))"
proof (induction irqs rule: rev_induct)
  case (snoc i irqs)
  then show ?case by (simp add: picenable_def picsetmask_def outb_def) (rule bit_word_eqI, auto simp: bit_and_iff bit_not_iff bit_or_iff)
qed simp

lemma bit_fold_or: "bit (fold (\<lambda>i m. or (push_bit i 1) m) irqs (0 :: ushort)) n \<longleftrightarrow> n \<in> set irqs \<and> n < 16"
proof (induction irqs rule: rev_induct)
  case (snoc i irqs)
  have "bit (push_bit i (1 :: ushort)) n \<longleftrightarrow> n = i \<and> n < 16" by (auto simp: push_bit_of_1 bit_exp_iff)
  then show ?case using snoc by (auto simp: bit_or_iff)
qed simp

lemma pic_enabled_exactly:
  assumes "irqmask s = initial_irqmask" "irq < 16"
  shows "pic_passes (fold picenable irqs (picinit s)) irq \<longleftrightarrow> irq \<in> set irqs \<or> irq = IRQ_SLAVE"
proof -
  have b: "bit initial_irqmask n \<longleftrightarrow> n < 16 \<and> n \<noteq> 2" for n
  proof (cases "n < 16")
    case True
    have "\<forall>n \<in> set [0..<16]. bit initial_irqmask n \<longleftrightarrow> n \<noteq> 2" by code_simp
    then show ?thesis using True by simp
  next
    case False
    then show ?thesis using bit_imp_le_length [of initial_irqmask n] by auto
  qed
  have "initial_irqmask \<noteq> 0xFFFF"
  proof
    assume "initial_irqmask = 0xFFFF"
    then have "bit (0xFFFF :: ushort) 2 = False" using b [of 2] by simp
    then show False by simp
  qed
  then obtain s1 where p: "picinit s = picsetmask initial_irqmask s1" "irqmask s1 = initial_irqmask"
    using assms(1) by (auto simp: picinit_def Let_def)
  let ?m = "and initial_irqmask (not (fold (\<lambda>i m. or (push_bit i 1) m) irqs 0))"
  have "\<exists>u. fold picenable irqs (picinit s) = picsetmask ?m u"
  proof (cases irqs rule: rev_cases)
    case Nil
    then show ?thesis using p by auto
  next
    case (snoc js i)
    have "irqmask (fold picenable js (picinit s)) = and initial_irqmask (not (fold (\<lambda>i m. or (push_bit i 1) m) js 0))"
      unfolding irqmask_enables p(1) by (simp add: picsetmask_def outb_def)
    moreover have "and (and initial_irqmask (not x)) (not y) = and initial_irqmask (not (or y x))" for x y :: ushort
      by (rule bit_word_eqI) (auto simp: bit_and_iff bit_not_iff bit_or_iff)
    ultimately show ?thesis by (auto simp: snoc picenable_def)
  qed
  then obtain u where u: "fold picenable irqs (picinit s) = picsetmask ?m u" by blast
  have "bit ?m n \<longleftrightarrow> n < 16 \<and> n \<noteq> 2 \<and> n \<notin> set irqs" for n unfolding bit_and_iff bit_not_iff b bit_fold_or by auto
  then show ?thesis unfolding u using assms(2) by (subst pic_passes_setmask) (auto simp: IRQ_SLAVE_def)
qed

lemma timer_count: "TIMER_DIV 100 = 11932"
  by (simp add: TIMER_DIV_def)

section \<open>The I/O APIC\<close>

definition INT_DISABLED :: uint where "INT_DISABLED = 0x10000"
definition REG_ID :: nat where "REG_ID = 0"
definition REG_VER :: nat where "REG_VER = 1"
definition REG_TABLE :: nat where "REG_TABLE = 0x10"

record ioapic_state =
  io_ismp :: bool
  io_reg :: "nat \<Rightarrow> uint"
  io_apicid :: uchar
  io_msgs :: "string list"

definition ioapicread :: "nat \<Rightarrow> ioapic_state \<Rightarrow> uint" where
  "ioapicread r s = io_reg s r"

definition ioapicwrite :: "nat \<Rightarrow> uint \<Rightarrow> ioapic_state \<Rightarrow> ioapic_state" where
  "ioapicwrite r d s = s\<lparr>io_reg := (io_reg s)(r := d)\<rparr>"

definition maxintr :: "ioapic_state \<Rightarrow> nat" where
  "maxintr s = unat (and (drop_bit 16 (ioapicread REG_VER s)) 0xFF)"

definition ioapic_mask_one :: "nat \<Rightarrow> ioapic_state \<Rightarrow> ioapic_state" where
  "ioapic_mask_one i s = ioapicwrite (REG_TABLE + 2 * i + 1) 0 (ioapicwrite (REG_TABLE + 2 * i) (or INT_DISABLED (T_IRQ0 + of_nat i)) s)"

definition ioapicinit :: "ioapic_state \<Rightarrow> ioapic_state" where
  "ioapicinit s =
     (if \<not> io_ismp s then s
      else let s1 = (if drop_bit 24 (ioapicread REG_ID s) \<noteq> ucast (io_apicid s)
                     then s\<lparr>io_msgs := io_msgs s @ [''ioapicinit: id isn't equal to ioapicid; not a MP'']\<rparr> else s)
           in fold ioapic_mask_one [0..<maxintr s + 1] s1)"

definition ioapicenable :: "nat \<Rightarrow> nat \<Rightarrow> ioapic_state \<Rightarrow> ioapic_state" where
  "ioapicenable irq cpunum s =
     (if \<not> io_ismp s then s
      else ioapicwrite (REG_TABLE + 2 * irq + 1) (push_bit 24 (of_nat cpunum)) (ioapicwrite (REG_TABLE + 2 * irq) (T_IRQ0 + of_nat irq) s))"

lemma ioapicwrite_sel [simp]: "io_ismp (ioapicwrite r d s) = io_ismp s" "io_reg (ioapicwrite r d s) = (io_reg s)(r := d)"
  by (simp_all add: ioapicwrite_def)

lemma ioapic_mask_all:
  "io_reg (fold ioapic_mask_one [0..<n] s) r =
     (if REG_TABLE \<le> r \<and> r < REG_TABLE + 2 * n
      then if even (r - REG_TABLE) then or INT_DISABLED (T_IRQ0 + of_nat ((r - REG_TABLE) div 2)) else 0 else io_reg s r) \<and>
   io_ismp (fold ioapic_mask_one [0..<n] s) = io_ismp s"
proof (induction n)
  case (Suc n)
  have "r - REG_TABLE = 2 * n" if "r = REG_TABLE + 2 * n" using that by simp
  moreover have "odd (r - REG_TABLE)" "r < REG_TABLE + 2 * Suc n" if "r = REG_TABLE + 2 * n + 1" using that by simp_all
  moreover have "r < REG_TABLE + 2 * n" if "REG_TABLE \<le> r" "r < REG_TABLE + 2 * Suc n" "r \<noteq> REG_TABLE + 2 * n" "r \<noteq> REG_TABLE + 2 * n + 1"
    using that by simp
  ultimately show ?case using Suc by (auto simp: ioapic_mask_one_def)
qed auto

text \<open>
  After ioapicinit and any calls of ioapicenable the redirection table routes exactly the interrupts enabled, each with the vector that trap
  expects and to the processor named last; all others are disabled.
\<close>

lemma ioapic_routes_exactly:
  fixes es :: "(nat \<times> nat) list"
  assumes "io_ismp s" "i \<le> maxintr s"
  defines "t \<equiv> fold (\<lambda>(irq, c). ioapicenable irq c) es (ioapicinit s)"
  shows "io_reg t (REG_TABLE + 2 * i) = (if i \<in> fst ` set es then T_IRQ0 + of_nat i else or INT_DISABLED (T_IRQ0 + of_nat i))"
    "io_reg t (REG_TABLE + 2 * i + 1) = (case map_of (rev es) i of Some c \<Rightarrow> push_bit 24 (of_nat c) | None \<Rightarrow> 0)"
proof -
  have init: "io_ismp (ioapicinit s)" "io_reg (ioapicinit s) (REG_TABLE + 2 * i) = or INT_DISABLED (T_IRQ0 + of_nat i)"
      "io_reg (ioapicinit s) (REG_TABLE + 2 * i + 1) = 0"
    using assms(1,2) ioapic_mask_all [where n = "maxintr s + 1"] by (simp_all add: ioapicinit_def Let_def)
  have "io_ismp t \<and> io_reg t (REG_TABLE + 2 * i) = (if i \<in> fst ` set es then T_IRQ0 + of_nat i else or INT_DISABLED (T_IRQ0 + of_nat i)) \<and>
      io_reg t (REG_TABLE + 2 * i + 1) = (case map_of (rev es) i of Some c \<Rightarrow> push_bit 24 (of_nat c) | None \<Rightarrow> 0)"
    unfolding t_def
  proof (induction es rule: rev_induct)
    case Nil
    then show ?case using init by simp
  next
    case (snoc e es)
    obtain j c where e: "e = (j, c)" by (cases e)
    have o: "2 * i + 1 \<noteq> 2 * j" "2 * i \<noteq> 2 * j + 1" by presburger+
    show ?case
    proof (cases "i = j")
      case True
      then show ?thesis using snoc by (simp add: e ioapicenable_def)
    next
      case False
      then show ?thesis using snoc o by (simp add: e ioapicenable_def)
    qed
  qed
  then show "io_reg t (REG_TABLE + 2 * i) = (if i \<in> fst ` set es then T_IRQ0 + of_nat i else or INT_DISABLED (T_IRQ0 + of_nat i))"
    "io_reg t (REG_TABLE + 2 * i + 1) = (case map_of (rev es) i of Some c \<Rightarrow> push_bit 24 (of_nat c) | None \<Rightarrow> 0)" by blast+
qed

section \<open>The local APIC\<close>

text \<open>Registers by their index in words.\<close>

definition LAPIC_ID :: nat where "LAPIC_ID = 0x20 div 4"
definition LAPIC_VER :: nat where "LAPIC_VER = 0x30 div 4"
definition LAPIC_TPR :: nat where "LAPIC_TPR = 0x80 div 4"
definition LAPIC_EOI :: nat where "LAPIC_EOI = 0xB0 div 4"
definition LAPIC_SVR :: nat where "LAPIC_SVR = 0xF0 div 4"
definition LAPIC_ESR :: nat where "LAPIC_ESR = 0x280 div 4"
definition LAPIC_ICRLO :: nat where "LAPIC_ICRLO = 0x300 div 4"
definition LAPIC_ICRHI :: nat where "LAPIC_ICRHI = 0x310 div 4"
definition LAPIC_TIMER :: nat where "LAPIC_TIMER = 0x320 div 4"
definition LAPIC_PCINT :: nat where "LAPIC_PCINT = 0x340 div 4"
definition LAPIC_LINT0 :: nat where "LAPIC_LINT0 = 0x350 div 4"
definition LAPIC_LINT1 :: nat where "LAPIC_LINT1 = 0x360 div 4"
definition LAPIC_ERROR :: nat where "LAPIC_ERROR = 0x370 div 4"
definition LAPIC_TICR :: nat where "LAPIC_TICR = 0x380 div 4"
definition LAPIC_TDCR :: nat where "LAPIC_TDCR = 0x3E0 div 4"

record lapic_state =
  lapic :: uint
  lreg :: "nat \<Rightarrow> uint"
  lwrites :: "(nat \<times> uint) list"

definition lapicw :: "nat \<Rightarrow> uint \<Rightarrow> lapic_state \<Rightarrow> lapic_state" where
  "lapicw index v s = s\<lparr>lreg := (lreg s)(index := v), lwrites := lwrites s @ [(index, v)]\<rparr>"

text \<open>lapicinit also waits until the interrupt command is delivered, which the hardware does.\<close>

definition lapicinit :: "lapic_state \<Rightarrow> lapic_state" where
  "lapicinit s =
     (if lapic s = 0 then s
      else fold (\<lambda>(i, v). lapicw i v)
        ([(LAPIC_SVR, or 0x100 (T_IRQ0 + IRQ_SPURIOUS)), (LAPIC_TDCR, 0xB), (LAPIC_TIMER, or 0x20000 (T_IRQ0 + of_nat IRQ_TIMER)), (LAPIC_TICR, 10000000),
          (LAPIC_LINT0, 0x10000), (LAPIC_LINT1, 0x10000)] @
         (if and (drop_bit 16 (lreg s LAPIC_VER)) 0xFF \<ge> 4 then [(LAPIC_PCINT, 0x10000)] else []) @
         [(LAPIC_ERROR, T_IRQ0 + IRQ_ERROR), (LAPIC_ESR, 0), (LAPIC_ESR, 0), (LAPIC_EOI, 0), (LAPIC_ICRHI, 0),
          (LAPIC_ICRLO, or (or 0x80000 0x500) 0x8000), (LAPIC_TPR, 0)]) s)"

text \<open>cpunum warns, once, when interrupts are enabled (\<open>ifl\<close>); \<open>n\<close> is its static counter.\<close>

definition cpunum :: "bool \<Rightarrow> nat \<Rightarrow> lapic_state \<Rightarrow> uint \<times> nat \<times> bool" where
  "cpunum ifl n s =
     (if lapic s \<noteq> 0 then drop_bit 24 (lreg s LAPIC_ID) else 0, if ifl then n + 1 else n, ifl \<and> n = 0)"

definition lapiceoi :: "lapic_state \<Rightarrow> lapic_state" where
  "lapiceoi s = (if lapic s \<noteq> 0 then lapicw LAPIC_EOI 0 s else s)"

text \<open>Starting a processor: the CMOS shutdown code, the warm reset vector in memory, and the interrupts sent to it.\<close>

definition put16 :: "mem \<Rightarrow> uint \<Rightarrow> ushort \<Rightarrow> mem" where
  "put16 m a w = m(a := ucast w, a + 1 := ucast (drop_bit 8 w))"

definition lapicstartap :: "uchar \<Rightarrow> uint \<Rightarrow> mem \<Rightarrow> lapic_state \<Rightarrow> port_out \<times> mem \<times> lapic_state" where
  "lapicstartap apicid adr m s =
     (let wrv = p2v (or (push_bit 4 0x40) 0x67);
          startup = [(LAPIC_ICRHI, push_bit 24 (ucast apicid)), (LAPIC_ICRLO, or 0x600 (drop_bit 12 adr))]
      in ([(0x70, 0xF), (0x71, 0x0A)], put16 (put16 m wrv 0) (wrv + 2) (ucast (drop_bit 4 adr)),
          fold (\<lambda>(i, v). lapicw i v)
            ([(LAPIC_ICRHI, push_bit 24 (ucast apicid)), (LAPIC_ICRLO, or (or 0x500 0x8000) 0x4000), (LAPIC_ICRLO, or 0x500 0x8000)] @ startup @ startup) s))"

lemma lapic_fold_regs:
  "lreg (fold (\<lambda>(i, v). lapicw i v) ws s) r = (case map_of (rev ws) r of Some v \<Rightarrow> v | None \<Rightarrow> lreg s r)"
  "lwrites (fold (\<lambda>(i, v). lapicw i v) ws s) = lwrites s @ ws"
  "lapic (fold (\<lambda>(i, v). lapicw i v) ws s) = lapic s"
  by (induction ws rule: rev_induct) (auto simp: lapicw_def split: prod.splits)

text \<open>After lapicinit the timer interrupts with the vector of T_IRQ0, periodically, and spurious and error interrupts have the vectors that trap knows.\<close>

lemma lapicinit_vectors:
  assumes "lapic s \<noteq> 0"
  shows "and (lreg (lapicinit s) LAPIC_TIMER) 0xFF = T_IRQ0" "bit (lreg (lapicinit s) LAPIC_TIMER) 17" "\<not> bit (lreg (lapicinit s) LAPIC_TIMER) 16"
    "and (lreg (lapicinit s) LAPIC_SVR) 0xFF = T_IRQ0 + IRQ_SPURIOUS" "lreg (lapicinit s) LAPIC_ERROR = T_IRQ0 + IRQ_ERROR" "lreg (lapicinit s) LAPIC_TPR = 0"
  using assms
  by (simp_all add: lapicinit_def lapicw_def LAPIC_TIMER_def LAPIC_SVR_def LAPIC_ERROR_def LAPIC_TPR_def LAPIC_ICRLO_def LAPIC_ICRHI_def LAPIC_EOI_def
      LAPIC_ESR_def LAPIC_PCINT_def LAPIC_LINT0_def LAPIC_LINT1_def LAPIC_TICR_def LAPIC_TDCR_def T_IRQ0_def IRQ_TIMER_def IRQ_SPURIOUS_def IRQ_ERROR_def)

section \<open>The clock\<close>

record rtcdate =
  second :: uint
  minute :: uint
  hour :: uint
  day :: uint
  month :: uint
  year :: uint

text \<open>\<open>cm n r\<close> is what the \<open>n\<close>-th reading of the CMOS gives for its register \<open>r\<close>.\<close>

definition fill_rtcdate :: "(nat \<Rightarrow> uint \<Rightarrow> uint) \<Rightarrow> nat \<Rightarrow> rtcdate \<times> nat" where
  "fill_rtcdate cm n = (\<lparr>second = cm n 0, minute = cm (n + 1) 2, hour = cm (n + 2) 4, day = cm (n + 3) 7, month = cm (n + 4) 8, year = cm (n + 5) 9\<rparr>, n + 6)"

partial_function (option) cmos_stable :: "(nat \<Rightarrow> uint \<Rightarrow> uint) \<Rightarrow> nat \<Rightarrow> rtcdate option" where
  "cmos_stable cm n =
     (let (t1, n1) = fill_rtcdate cm n
      in if and (cm n1 0xa) (push_bit 7 1) \<noteq> 0 then cmos_stable cm (n1 + 1)
         else let (t2, n2) = fill_rtcdate cm (n1 + 1) in if t1 = t2 then Some t1 else cmos_stable cm n2)"

definition CONV :: "uint \<Rightarrow> uint" where
  "CONV x = drop_bit 4 x * 10 + and x 0xf"

definition cmostime :: "(nat \<Rightarrow> uint \<Rightarrow> uint) \<Rightarrow> rtcdate option" where
  "cmostime cm =
     (let bcd = (and (cm 0 0xb) (push_bit 2 1) = 0)
      in map_option (\<lambda>t1.
           let t = (if bcd then \<lparr>second = CONV (second t1), minute = CONV (minute t1), hour = CONV (hour t1), day = CONV (day t1),
                                 month = CONV (month t1), year = CONV (year t1)\<rparr> else t1)
           in t\<lparr>year := year t + 2000\<rparr>) (cmos_stable cm 1))"

text \<open>Two decimal digits in a byte are converted to their number.\<close>

lemma CONV_bcd: "a < 10 \<Longrightarrow> b < 10 \<Longrightarrow> CONV (of_nat (16 * a + b)) = of_nat (10 * a + b)"
proof -
  assume ab: "a < 10" "b < 10"
  let ?x = "of_nat (16 * a + b) :: uint"
  have u: "unat ?x = 16 * a + b" using ab by (intro unat_of_nat32) simp
  have "unat (drop_bit 4 ?x) = (16 * a + b) div 16" by (simp add: drop_bit_eq_div unat_div_distrib u del: of_nat_add of_nat_mult)
  then have d: "drop_bit 4 ?x = of_nat a" using ab by (simp add: word_unat_eq_iff unat_of_nat32 del: of_nat_add of_nat_mult)
  have m: "(0xf :: uint) = mask 4" by (simp add: mask_eq_exp_minus_1)
  have "unat (and ?x 0xf) = (16 * a + b) mod 16" unfolding m by (simp add: take_bit_eq_mask [symmetric] take_bit_eq_mod unat_mod u del: of_nat_add of_nat_mult)
  then have "and ?x 0xf = of_nat b" using ab by (simp add: word_unat_eq_iff unat_of_nat32 del: of_nat_add of_nat_mult)
  then show ?thesis unfolding CONV_def d by simp
qed

text \<open>A clock that does not change while it is read is read at the first attempt.\<close>

lemma cmostime_steady:
  assumes "\<And>n r. cm n r = f r" "and (f 0xa) (push_bit 7 1) = 0" "and (f 0xb) (push_bit 2 1) = 0"
  shows "cmostime cm = Some \<lparr>second = CONV (f 0), minute = CONV (f 2), hour = CONV (f 4), day = CONV (f 7), month = CONV (f 8), year = CONV (f 9) + 2000\<rparr>"
proof -
  have "cmos_stable cm 1 = Some \<lparr>second = f 0, minute = f 2, hour = f 4, day = f 7, month = f 8, year = f 9\<rparr>"
    using assms by (subst cmos_stable.simps) (simp add: fill_rtcdate_def)
  then show ?thesis using assms by (simp add: cmostime_def Let_def)
qed

end
