(* ===== verification/Mp.thy ===== *)
theory Mp
  imports Irq
begin

text \<open>
  Finding the processors (mp.c, mp.h): the search for the floating pointer structure and the configuration table that the firmware leaves in memory, and the
  loop over the entries of the table. Structures are read at their offsets in the byte memory; messages are collected in a list.
\<close>

section \<open>Structures\<close>

definition sizeof_mp :: nat where "sizeof_mp = 16"
definition sizeof_mpconf :: uint where "sizeof_mpconf = 44"

definition MPPROC :: uchar where "MPPROC = 0"
definition MPBUS :: uchar where "MPBUS = 1"
definition MPIOAPIC :: uchar where "MPIOAPIC = 2"
definition MPIOINTR :: uchar where "MPIOINTR = 3"
definition MPLINTR :: uchar where "MPLINTR = 4"
definition MPBOOT :: uchar where "MPBOOT = 2"

definition mp_physaddr :: "mem \<Rightarrow> uint \<Rightarrow> uint" where "mp_physaddr m p = get32 m (p + 4)"
definition mp_imcrp :: "mem \<Rightarrow> uint \<Rightarrow> uchar" where "mp_imcrp m p = m (p + 12)"

definition conf_length :: "mem \<Rightarrow> uint \<Rightarrow> ushort" where "conf_length m c = or (ucast (m (c + 4))) (push_bit 8 (ucast (m (c + 5))))"
definition conf_version :: "mem \<Rightarrow> uint \<Rightarrow> uchar" where "conf_version m c = m (c + 6)"
definition conf_lapicaddr :: "mem \<Rightarrow> uint \<Rightarrow> uint" where "conf_lapicaddr m c = get32 m (c + 36)"

record mp_state =
  bcpu :: nat
  ismp :: bool
  ncpu :: nat
  cpu_id :: "nat \<Rightarrow> uchar"
  ioapicid :: uchar
  mp_lapic :: uint
  mp_msgs :: "(string \<times> nat list) list"
  mp_out :: port_out

section \<open>The search\<close>

primrec sum_loop :: "nat \<Rightarrow> uint \<Rightarrow> mem \<Rightarrow> uchar \<Rightarrow> uchar" where
  "sum_loop 0 a m acc = acc"
| "sum_loop (Suc n) a m acc = sum_loop n (a + 1) m (acc + m a)"

definition sum_bytes :: "uint \<Rightarrow> nat \<Rightarrow> mem \<Rightarrow> uchar" where
  "sum_bytes a len m = sum_loop len a m 0"

definition bytes_are :: "mem \<Rightarrow> uint \<Rightarrow> string \<Rightarrow> bool" where
  "bytes_are m p s \<longleftrightarrow> (\<forall>i < length s. m (p + of_nat i) = of_char (s ! i))"

definition mpsearch1 :: "uint \<Rightarrow> nat \<Rightarrow> mem \<Rightarrow> uint option" where
  "mpsearch1 a len m =
     find (\<lambda>p. bytes_are m p ''_MP_'' \<and> sum_bytes p sizeof_mp m = 0)
       (map (\<lambda>k. p2v a + of_nat (k * sizeof_mp)) [0..<(len + sizeof_mp - 1) div sizeof_mp])"

definition mpsearch :: "mem \<Rightarrow> uint option" where
  "mpsearch m =
     (let bda = p2v 0x400;
          p = push_bit 4 (or (push_bit 8 (ucast (m (bda + 0xF)))) (ucast (m (bda + 0xE)))) :: uint;
          q = or (push_bit 8 (ucast (m (bda + 0x14)))) (ucast (m (bda + 0x13))) * 1024 :: uint;
          first = (if p \<noteq> 0 then mpsearch1 p 1024 m else mpsearch1 (q - 1024) 1024 m)
      in if first \<noteq> None then first else mpsearch1 0xF0000 0x10000 m)"

definition mpconfig :: "mem \<Rightarrow> (uint \<times> uint) option" where
  "mpconfig m =
     (case mpsearch m of
        None \<Rightarrow> None
      | Some mp \<Rightarrow>
          (if mp_physaddr m mp = 0 then None
           else let conf = p2v (mp_physaddr m mp)
                in if \<not> bytes_are m conf ''PCMP'' then None
                   else if conf_version m conf \<noteq> 1 \<and> conf_version m conf \<noteq> 4 then None
                   else if sum_bytes conf (unat (conf_length m conf)) m \<noteq> 0 then None
                   else Some (mp, conf)))"

section \<open>The table\<close>

partial_function (option) mpinit_loop :: "mem \<Rightarrow> uint \<Rightarrow> uint \<Rightarrow> mp_state \<Rightarrow> mp_state option" where
  "mpinit_loop m p e s =
     (if p < e then
        (if m p = MPPROC then
           (let s1 = (if ncpu s \<noteq> unat (m (p + 1))
                      then s\<lparr>mp_msgs := mp_msgs s @ [(''mpinit: ncpu=%d apicid=%d'', [ncpu s, unat (m (p + 1))])], ismp := False\<rparr> else s);
                s2 = (if and (m (p + 3)) MPBOOT \<noteq> 0 then s1\<lparr>bcpu := ncpu s1\<rparr> else s1);
                s3 = s2\<lparr>cpu_id := (cpu_id s2)(ncpu s2 := of_nat (ncpu s2)), ncpu := ncpu s2 + 1\<rparr>
            in mpinit_loop m (p + 20) e s3)
         else if m p = MPIOAPIC then mpinit_loop m (p + 8) e (s\<lparr>ioapicid := m (p + 1)\<rparr>)
         else if m p = MPBUS \<or> m p = MPIOINTR \<or> m p = MPLINTR then mpinit_loop m (p + 8) e s
         else mpinit_loop m p e (s\<lparr>mp_msgs := mp_msgs s @ [(''mpinit: unknown config type %x'', [unat (m p)])], ismp := False\<rparr>))
      else Some s)"

text \<open>\<open>imcr\<close> is what the port 0x23 delivers.\<close>

definition mpinit :: "mem \<Rightarrow> uchar \<Rightarrow> mp_state \<Rightarrow> mp_state option" where
  "mpinit m imcr s =
     (let s0 = s\<lparr>bcpu := 0\<rparr>
      in case mpconfig m of
           None \<Rightarrow> Some s0
         | Some (mp, conf) \<Rightarrow>
             (case mpinit_loop m (conf + sizeof_mpconf) (conf + ucast (conf_length m conf)) (s0\<lparr>ismp := True, mp_lapic := conf_lapicaddr m conf\<rparr>) of
                None \<Rightarrow> None
              | Some s1 \<Rightarrow>
                  Some (if \<not> ismp s1 then s1\<lparr>ncpu := 1, mp_lapic := 0, ioapicid := 0\<rparr>
                        else if mp_imcrp m mp \<noteq> 0 then s1\<lparr>mp_out := mp_out s1 @ [(0x22, 0x70), (0x23, or imcr 1)]\<rparr>
                        else s1)))"

definition mpbcpu :: "mp_state \<Rightarrow> nat" where
  "mpbcpu s = bcpu s"

section \<open>What the loop does\<close>

datatype mpent = EProc uchar uchar | EIoapic uchar | EOther | EUnknown

definition ent_at :: "mem \<Rightarrow> uint \<Rightarrow> mpent" where
  "ent_at m p =
     (if m p = MPPROC then EProc (m (p + 1)) (m (p + 3)) else if m p = MPIOAPIC then EIoapic (m (p + 1))
      else if m p = MPBUS \<or> m p = MPIOINTR \<or> m p = MPLINTR then EOther else EUnknown)"

fun ent_size :: "mpent \<Rightarrow> uint" where
  "ent_size (EProc a f) = 20"
| "ent_size x = 8"

text \<open>The entries between \<open>p\<close> and \<open>e\<close>, up to the first one of an unknown type.\<close>

primrec entries_at :: "mem \<Rightarrow> uint \<Rightarrow> uint \<Rightarrow> mpent list \<Rightarrow> bool" where
  "entries_at m p e [] \<longleftrightarrow> \<not> p < e"
| "entries_at m p e (x # xs) \<longleftrightarrow> p < e \<and> ent_at m p = x \<and> (if x = EUnknown then xs = [] else entries_at m (p + ent_size x) e xs)"

fun apply_ent :: "mpent \<Rightarrow> mp_state \<Rightarrow> mp_state" where
  "apply_ent (EProc a f) s =
     (let s1 = (if ncpu s \<noteq> unat a then s\<lparr>mp_msgs := mp_msgs s @ [(''mpinit: ncpu=%d apicid=%d'', [ncpu s, unat a])], ismp := False\<rparr> else s);
          s2 = (if and f MPBOOT \<noteq> 0 then s1\<lparr>bcpu := ncpu s1\<rparr> else s1)
      in s2\<lparr>cpu_id := (cpu_id s2)(ncpu s2 := of_nat (ncpu s2)), ncpu := ncpu s2 + 1\<rparr>)"
| "apply_ent (EIoapic n) s = s\<lparr>ioapicid := n\<rparr>"
| "apply_ent x s = s"

lemma mp_types: "MPPROC \<noteq> MPIOAPIC" "MPPROC \<noteq> MPBUS" "MPPROC \<noteq> MPIOINTR" "MPPROC \<noteq> MPLINTR" "MPIOAPIC \<noteq> MPBUS" "MPIOAPIC \<noteq> MPIOINTR" "MPIOAPIC \<noteq> MPLINTR"
  by (simp_all add: MPPROC_def MPIOAPIC_def MPBUS_def MPIOINTR_def MPLINTR_def)

lemma ent_unknown: "ent_at m p = EUnknown \<longleftrightarrow> m p \<notin> {MPPROC, MPIOAPIC, MPBUS, MPIOINTR, MPLINTR}"
  by (auto simp: ent_at_def)

lemma mpinit_loop_unknown:
  assumes "p < e" "ent_at m p = EUnknown"
  shows "mpinit_loop m p e s = None"
proof (rule ccontr)
  assume "mpinit_loop m p e s \<noteq> None"
  then obtain t where "mpinit_loop m p e s = Some t" by auto
  moreover have "mpinit_loop m p e s = Some t \<Longrightarrow> p < e \<longrightarrow> ent_at m p \<noteq> EUnknown" for m p e s t
    by (erule mpinit_loop.raw_induct [rotated, where P = "\<lambda>m p e s t. p < e \<longrightarrow> ent_at m p \<noteq> EUnknown"])
      (fastforce simp: ent_unknown split: if_splits)
  ultimately show False using assms by blast
qed

lemma mpinit_loop_step:
  assumes "p < e" "ent_at m p \<noteq> EUnknown"
  shows "mpinit_loop m p e s = mpinit_loop m (p + ent_size (ent_at m p)) e (apply_ent (ent_at m p) s)"
  using assms by (subst mpinit_loop.simps) (auto simp: ent_at_def Let_def split: if_splits)

text \<open>
  C39. The loop over the configuration table takes each entry in turn when it knows the types of all of them, and ends; at an entry of a type it does not know
  it does not advance, so that mpinit never returns.
\<close>

theorem mpinit_reads_table:
  assumes "entries_at m p e es"
  shows "mpinit_loop m p e s = (if EUnknown \<in> set es then None else Some (fold apply_ent es s))"
  using assms
proof (induction es arbitrary: p s)
  case Nil
  then show ?case by (subst mpinit_loop.simps) simp
next
  case (Cons x xs)
  show ?case
  proof (cases "x = EUnknown")
    case True
    then show ?thesis using Cons.prems mpinit_loop_unknown [of p e m s] by simp
  next
    case False
    then show ?thesis using Cons mpinit_loop_step [of p e m s] by simp
  qed
qed

definition mp_zero :: mp_state where
  "mp_zero = \<lparr>bcpu = 0, ismp = True, ncpu = 0, cpu_id = (\<lambda>_. 0), ioapicid = 0, mp_lapic = 0, mp_msgs = [], mp_out = []\<rparr>"

theorem mpinit_reads_table_witness:
  "mpinit_loop (\<lambda>a. if a = 0 \<or> a = 1 then 0 else if a = 20 then 2 else if a = 21 then 5 else 9) 0 28 mp_zero =
     Some (mp_zero\<lparr>ncpu := 1, cpu_id := (\<lambda>_. 0), ioapicid := 5\<rparr>) \<and>
   mpinit_loop (\<lambda>_. 9) 0 8 mp_zero = None"
proof -
  have a: "entries_at (\<lambda>a. if a = 0 \<or> a = 1 then 0 else if a = 20 then 2 else if a = 21 then 5 else 9) 0 28 [EProc 0 9, EIoapic 5]"
    by (simp add: ent_at_def MPPROC_def MPIOAPIC_def)
  have b: "entries_at (\<lambda>_. 9) 0 8 [EUnknown]"
    by (simp add: ent_at_def MPPROC_def MPIOAPIC_def MPBUS_def MPIOINTR_def MPLINTR_def)
  have "(\<lambda>_. 0 :: uchar)(0 := 0 :: uchar) = (\<lambda>_ :: nat. 0)" by auto
  then show ?thesis
    using mpinit_reads_table [OF a, of mp_zero] mpinit_reads_table [OF b, of mp_zero] by (simp add: mp_zero_def MPBOOT_def Let_def)
qed

text \<open>The processors of a table are numbered from 0; nothing stops at the NCPU = 8 elements of cpus.\<close>

lemma ncpu_counts: "ncpu (fold apply_ent es s) = ncpu s + length (filter (\<lambda>x. case x of EProc a f \<Rightarrow> True | _ \<Rightarrow> False) es)"
proof (induction es arbitrary: s)
  case (Cons x xs)
  then show ?case by (cases x) (simp_all add: Let_def)
qed simp

lemma sum_bytes_Suc: "sum_bytes a (Suc n) m = m a + sum_bytes (a + 1) n m"
proof -
  have "sum_loop n b m (x + y) = x + sum_loop n b m y" for n b x y
  proof (induction n arbitrary: b y)
    case (Suc n)
    from Suc [of "b + 1" "y + m b"] show ?case by (simp add: add.assoc)
  qed simp
  from this [of n "a + 1" "m a" 0] show ?thesis by (simp add: sum_bytes_def)
qed

end
