(* ===== verification/Pagemap.thy ===== *)
theory Pagemap
  imports Vm
begin

text \<open>
  What page tables mean (vm.c). The abstract view of a page directory is the partial map \<open>vmap\<close> from virtual addresses to page table
  entries; mapping, growing and copying an address space are specified on it. \<open>vspace\<close> is the invariant under which the view
  is meaningful: the directory and its tables are different pages, and none of them is free.
\<close>

section \<open>Words\<close>

lemma unat_PGROUNDDOWN: "unat (PGROUNDDOWN a) = unat a div 4096 * 4096"
  by (simp add: PGROUNDDOWN_def PGSIZE_def unat_page_round_neg)

lemma unat_PDX: "unat (PDX va) = unat va div 4194304"
proof -
  have m: "(0x3FF :: uint) = mask 10" by (simp add: mask_eq_exp_minus_1)
  have "unat (drop_bit 22 va) = unat va div 4194304" by (simp add: drop_bit_eq_div unat_div_distrib)
  moreover have "unat va div 4194304 < 1024" using unat_lt32 [of va] by (intro less_mult_imp_div_less) simp
  ultimately show ?thesis unfolding PDX_def m by (simp add: take_bit_eq_mask [symmetric] take_bit_eq_mod unat_mod)
qed

lemma unat_PTX: "unat (PTX va) = unat va div 4096 mod 1024"
proof -
  have m: "(0x3FF :: uint) = mask 10" by (simp add: mask_eq_exp_minus_1)
  have "unat (drop_bit 12 va) = unat va div 4096" by (simp add: drop_bit_eq_div unat_div_distrib)
  then show ?thesis unfolding PTX_def m by (simp add: take_bit_eq_mask [symmetric] take_bit_eq_mod unat_mod)
qed

lemma PDX_less [simp]: "unat (PDX va) < 1024"
  unfolding unat_PDX using unat_lt32 [of va] by (intro less_mult_imp_div_less) simp

lemma PTX_less [simp]: "unat (PTX va) < 1024"
  by (simp add: unat_PTX)

text \<open>Two addresses have the same entry exactly when they are in the same page.\<close>

lemma same_page: "PDX a = PDX b \<and> PTX a = PTX b \<longleftrightarrow> unat a div 4096 = unat b div 4096"
proof -
  have d: "unat x div 4194304 = unat x div 4096 div 1024" for x :: uint by (simp add: div_mult2_eq [symmetric])
  have "PDX a = PDX b \<and> PTX a = PTX b \<longleftrightarrow>
      unat a div 4096 div 1024 = unat b div 4096 div 1024 \<and> unat a div 4096 mod 1024 = unat b div 4096 mod 1024"
    by (simp add: word_unat_eq_iff unat_PDX unat_PTX d)
  also have "\<dots> \<longleftrightarrow> unat a div 4096 = unat b div 4096" by (metis div_mod_decomp)
  finally show ?thesis .
qed

lemma aligned_bits:
  assumes "unat (x :: uint) mod 4096 = 0"
  shows "n < 12 \<Longrightarrow> \<not> bit x n"
proof -
  assume n: "n < 12"
  have "take_bit 12 (unat x) = 0" using assms by (simp add: take_bit_eq_mod)
  then have "\<not> bit (take_bit 12 (unat x)) n" by simp
  then show "\<not> bit x n" using n by (simp add: bit_take_bit_iff bit_unsigned_iff)
qed

lemma small_bits:
  assumes "unat (x :: uint) < 4096"
  shows "12 \<le> n \<Longrightarrow> \<not> bit x n"
proof -
  assume n: "12 \<le> n"
  have "take_bit 12 (unat x) = unat x" using assms by (simp add: take_bit_nat_eq_self)
  then have "bit (take_bit 12 (unat x)) n = bit (unat x) n" by simp
  then show "\<not> bit x n" using n by (auto simp: bit_take_bit_iff bit_unsigned_iff dest: bit_imp_le_length)
qed

lemma pte_parts:
  assumes "unat pa mod 4096 = 0" "unat fl < 4096"
  shows "PTE_ADDR (or pa fl) = pa" "PTE_FLAGS (or pa fl) = fl"
proof -
  have m: "(0xFFF :: uint) = mask 12" by (simp add: mask_eq_exp_minus_1)
  show "PTE_ADDR (or pa fl) = pa"
  proof (rule bit_word_eqI)
    fix n assume "n < LENGTH(32)"
    then show "bit (PTE_ADDR (or pa fl)) n = bit pa n"
      using aligned_bits [OF assms(1), of n] small_bits [OF assms(2), of n] unfolding PTE_ADDR_def m
      by (cases "n < 12") (auto simp: bit_and_iff bit_or_iff bit_not_iff bit_mask_iff)
  qed
  show "PTE_FLAGS (or pa fl) = fl"
  proof (rule bit_word_eqI)
    fix n assume "n < LENGTH(32)"
    then show "bit (PTE_FLAGS (or pa fl)) n = bit fl n"
      using aligned_bits [OF assms(1), of n] small_bits [OF assms(2), of n] unfolding PTE_FLAGS_def m
      by (cases "n < 12") (auto simp: bit_and_iff bit_or_iff bit_not_iff bit_mask_iff)
  qed
qed

lemma pte_present_or [simp]: "pte_present (or x PTE_P)"
proof -
  have "and (or x PTE_P) PTE_P = PTE_P" unfolding PTE_P_def by (rule bit_word_eqI) (auto simp: bit_and_iff bit_or_iff)
  then show ?thesis by (simp add: pte_present_def PTE_P_def)
qed

lemma present_flag: "pte_present x \<longleftrightarrow> bit x 0"
  by (simp add: pte_present_def PTE_P_def and_one_eq odd_iff_mod_2_eq_one [symmetric] bit_0)

lemma pte_ptable:
  assumes "page_ok kend p"
  shows "p2v (PTE_ADDR (or (or (or (v2p p) PTE_P) PTE_W) PTE_U)) = p" "pte_present (or (or (or (v2p p) PTE_P) PTE_W) PTE_U)"
proof -
  note u = page_ok_unat [OF assms]
  have "unat (v2p p) = unat p - 0x80000000" using u(2) by (simp add: v2p_def KERNBASE_def unat_sub word_le_nat_alt)
  then have al: "unat (v2p p) mod 4096 = 0" using u(1,2) by (simp add: mod_eq_0_iff_dvd dvd_diff_nat)
  have "or (or (or (v2p p) PTE_P) PTE_W) PTE_U = or (v2p p) 7" by (simp add: PTE_P_def PTE_W_def PTE_U_def or.assoc)
  then show "p2v (PTE_ADDR (or (or (or (v2p p) PTE_P) PTE_W) PTE_U)) = p"
    using pte_parts(1) [OF al, of 7] by (simp add: p2v_def v2p_def)
  show "pte_present (or (or (or (v2p p) PTE_P) PTE_W) PTE_U)"
    by (simp add: present_flag bit_or_iff PTE_P_def)
qed

section \<open>Entries in memory\<close>

lemma entry_in_page: "unat x < 1024 \<Longrightarrow> k < 4 \<Longrightarrow> in_page p (p + 4 * x + of_nat k)"
proof -
  assume a: "unat x < 1024" "k < 4"
  have "unat (4 * x) = 4 * unat x" using a(1) by (simp add: unat_word_ariths)
  then have "unat (4 * x + of_nat k) = 4 * unat x + k" using a unat_add_of_nat32 [of "4 * x" k] by simp
  moreover have "p + 4 * x + of_nat k - p = 4 * x + of_nat k" by simp
  ultimately show ?thesis using a by (simp add: in_page_def)
qed

lemma entry_bytes:
  assumes "unat x < 1024"
  shows "in_page p (p + 4 * x)" "in_page p (p + 4 * x + 1)" "in_page p (p + 4 * x + 2)" "in_page p (p + 4 * x + 3)"
  using entry_in_page [OF assms, of 0 p] entry_in_page [OF assms, of 1 p] entry_in_page [OF assms, of 2 p]
    entry_in_page [OF assms, of 3 p] by simp_all

lemma get32_entry_cong:
  assumes "\<And>a. in_page p a \<Longrightarrow> m a = m' a" "unat x < 1024"
  shows "get32 m (p + 4 * x) = get32 m' (p + 4 * x)"
  using assms(1) entry_bytes [OF assms(2), of p] by (intro get32_cong) blast+

lemma put32_entry_frame: "unat x < 1024 \<Longrightarrow> \<not> in_page p a \<Longrightarrow> put32 m (p + 4 * x) w a = m a"
  using entry_bytes [of x p] by (auto simp: put32_def)

lemma get32_put32_aligned:
  assumes "4 dvd unat a" "4 dvd unat b" "a \<noteq> b"
  shows "get32 (put32 m a w) b = get32 m b"
proof -
  have "unat (b - a) = unat b - unat a \<or> unat (b - a) = unat b + 4294967296 - unat a"
    by (simp add: unat_sub_if')
  moreover have "4 dvd unat b - unat a" "4 dvd unat b + 4294967296 - unat a"
    using assms(1,2) by (intro dvd_diff_nat dvd_add; simp)+
  ultimately have d: "4 dvd unat (b - a)" by metis
  have nz: "unat (b - a) \<noteq> 0" using assms(3) by (simp add: unat_eq_zero)
  from d obtain q where q: "unat (b - a) = 4 * q" by blast
  have lo: "4 \<le> unat (b - a)" "unat (b - a) + 3 < 4294967296" using q nz unat_lt32 [of "b - a"] by presburger+
  have "4 \<le> unat (b + of_nat k - a)" if "k < 4" for k
  proof -
    have u: "unat ((b - a) + of_nat k) = unat (b - a) + k" using lo(2) that by (intro unat_add_of_nat32) simp
    have e: "b + of_nat k - a = (b - a) + of_nat k" by simp
    show ?thesis unfolding e u using lo(1) by (rule trans_le_add1)
  qed
  from this [of 0] this [of 1] this [of 2] this [of 3] show ?thesis
    by (intro get32_cong put32_other) simp_all
qed

lemma unat_entry: "page_ok kend p \<Longrightarrow> unat x < 1024 \<Longrightarrow> unat (p + 4 * x) = unat p + 4 * unat x"
proof -
  assume a: "page_ok kend p" "unat x < 1024"
  have x: "unat (4 * x) = 4 * unat x" using a(2) by (simp add: unat_word_ariths)
  have "unat p + unat (4 * x) < 4294967296" unfolding x using page_ok_unat(3) [OF a(1)] a(2) by simp
  then show ?thesis by (simp only: unat_add32 x)
qed

lemma get32_put32_entries:
  assumes "page_ok kend p" "page_ok kend q" "unat x < 1024" "unat y < 1024" "p \<noteq> q \<or> x \<noteq> y"
  shows "get32 (put32 m (p + 4 * x) w) (q + 4 * y) = get32 m (q + 4 * y)"
proof (rule get32_put32_aligned)
  have al: "4 dvd unat (r + 4 * z)" if "page_ok kend r" "unat z < 1024" for r z
  proof -
    have "4096 dvd unat r" using page_ok_unat(1) [OF that(1)] by (rule mod_0_imp_dvd)
    moreover have "(4 :: nat) dvd 4096" by simp
    ultimately have "4 dvd unat r" by (rule dvd_trans [rotated])
    then show ?thesis unfolding unat_entry [OF that] by simp
  qed
  show "4 dvd unat (p + 4 * x)" "4 dvd unat (q + 4 * y)" using al assms(1-4) by blast+
  show "p + 4 * x \<noteq> q + 4 * y"
  proof
    assume e: "p + 4 * x = q + 4 * y"
    have "in_page q (p + 4 * x)" unfolding e by (rule entry_bytes(1) [OF assms(4)])
    then have pq: "p = q" by (rule pages_disjoint [OF assms(1,2) entry_bytes(1) [OF assms(3)]])
    have "unat p + 4 * unat x = unat q + 4 * unat y"
      unfolding unat_entry [OF assms(1,3), symmetric] unat_entry [OF assms(2,4), symmetric] e ..
    then have "x = y" using pq by (simp add: word_unat_eq_iff)
    then show False using assms(5) pq by blast
  qed
qed

section \<open>The view of a page directory\<close>

definition pde_at :: "mem \<Rightarrow> uint \<Rightarrow> uint \<Rightarrow> uint" where
  "pde_at m d x = get32 m (d + 4 * x)"

definition ptab :: "mem \<Rightarrow> uint \<Rightarrow> uint \<Rightarrow> uint" where
  "ptab m d x = p2v (PTE_ADDR (pde_at m d x))"

definition has_tab :: "mem \<Rightarrow> uint \<Rightarrow> uint \<Rightarrow> bool" where
  "has_tab m d x \<longleftrightarrow> unat x < 1024 \<and> pte_present (pde_at m d x)"

definition vmap :: "mem \<Rightarrow> uint \<Rightarrow> uint \<Rightarrow> uint option" where
  "vmap m d va =
     (if has_tab m d (PDX va)
      then let e = get32 m (ptab m d (PDX va) + 4 * PTX va) in if pte_present e then Some e else None
      else None)"

text \<open>The pages of the directory and its tables, and the invariant with the list of free pages.\<close>

definition pt_pages :: "mem \<Rightarrow> uint \<Rightarrow> uint set" where
  "pt_pages m d = insert d (ptab m d ` {x. has_tab m d x})"

definition vspace :: "uint \<Rightarrow> mem \<Rightarrow> uint \<Rightarrow> uint list \<Rightarrow> bool" where
  "vspace kend m d xs \<longleftrightarrow>
     (\<forall>p \<in> pt_pages m d. page_ok kend p \<and> p \<notin> set xs) \<and>
     d \<notin> ptab m d ` {x. has_tab m d x} \<and> inj_on (ptab m d) {x. has_tab m d x}"

lemma vspace_dir: "vspace kend m d xs \<Longrightarrow> page_ok kend d" "vspace kend m d xs \<Longrightarrow> d \<notin> set xs"
  by (simp_all add: vspace_def pt_pages_def)

lemma vspace_tab:
  assumes "vspace kend m d xs" "has_tab m d x"
  shows "page_ok kend (ptab m d x)" "ptab m d x \<notin> set xs" "ptab m d x \<noteq> d" "ptab m d x \<in> pt_pages m d"
    "has_tab m d y \<Longrightarrow> ptab m d x = ptab m d y \<Longrightarrow> x = y"
proof -
  have i: "ptab m d x \<in> ptab m d ` {x. has_tab m d x}" using assms(2) by simp
  then show p: "ptab m d x \<in> pt_pages m d" by (simp add: pt_pages_def)
  show "page_ok kend (ptab m d x)" "ptab m d x \<notin> set xs" using assms(1) p by (simp_all add: vspace_def)
  show "ptab m d x \<noteq> d" using assms(1) i by (auto simp: vspace_def simp del: image_eqI)
  show "has_tab m d y \<Longrightarrow> ptab m d x = ptab m d y \<Longrightarrow> x = y" using assms by (simp add: vspace_def inj_on_def)
qed

lemma has_tab_cong:
  assumes "\<And>a. in_page d a \<Longrightarrow> m a = m' a"
  shows "has_tab m d x = has_tab m' d x" "has_tab m d x \<Longrightarrow> ptab m d x = ptab m' d x"
proof -
  have e: "pde_at m d x = pde_at m' d x" if "unat x < 1024" using get32_entry_cong [OF assms that] by (simp add: pde_at_def)
  then show "has_tab m d x = has_tab m' d x" by (auto simp: has_tab_def)
  show "ptab m d x = ptab m' d x" if "has_tab m d x" using e that by (simp add: ptab_def has_tab_def)
qed

lemma pt_pages_cong:
  assumes "\<And>a. in_page d a \<Longrightarrow> m a = m' a"
  shows "pt_pages m d = pt_pages m' d" "vspace kend m d xs = vspace kend m' d xs"
proof -
  have h: "{x. has_tab m d x} = {x. has_tab m' d x}" using has_tab_cong(1) [of d m m', OF assms] by simp
  have i: "ptab m d ` {x. has_tab m d x} = ptab m' d ` {x. has_tab m' d x}"
    using has_tab_cong [of d m m', OF assms] by (intro image_cong) auto
  then show p: "pt_pages m d = pt_pages m' d" by (simp add: pt_pages_def)
  have "inj_on (ptab m d) {x. has_tab m d x} = inj_on (ptab m' d) {x. has_tab m' d x}"
    unfolding h using has_tab_cong [of d m m', OF assms] by (intro inj_on_cong) auto
  then show "vspace kend m d xs = vspace kend m' d xs" using p i by (simp add: vspace_def)
qed

text \<open>The view depends on the bytes of the directory and its tables only.\<close>

lemma vmap_cong:
  assumes "\<And>a p. p \<in> pt_pages m d \<Longrightarrow> in_page p a \<Longrightarrow> m a = m' a"
  shows "vmap m d va = vmap m' d va"
proof -
  have d: "m a = m' a" if "in_page d a" for a using assms [of d] that by (simp add: pt_pages_def)
  note h = has_tab_cong [of d m m', OF d, of "PDX va"]
  show ?thesis
  proof (cases "has_tab m d (PDX va)")
    case True
    then have "ptab m d (PDX va) \<in> pt_pages m d" by (simp add: pt_pages_def)
    then have "get32 m (ptab m d (PDX va) + 4 * PTX va) = get32 m' (ptab m d (PDX va) + 4 * PTX va)"
      using assms by (intro get32_entry_cong) auto
    then show ?thesis using True h by (simp add: vmap_def)
  next
    case False
    then show ?thesis using h by (simp add: vmap_def)
  qed
qed

section \<open>One change of an address space\<close>

text \<open>The number of page tables of a directory.\<close>

definition ntabs :: "mem \<Rightarrow> uint \<Rightarrow> nat" where
  "ntabs m d = card {x. has_tab m d x}"

text \<open>
  \<open>vstep\<close> relates the states before and after an operation on the directory \<open>d\<close>: the invariants hold again, new tables were free pages, every page
  that left the free list became a table, and no byte outside the tables and the free pages changed.
\<close>

definition vstep :: "uint \<Rightarrow> uint \<Rightarrow> 'x kmem_state_scheme \<Rightarrow> uint list \<Rightarrow> 'x kmem_state_scheme \<Rightarrow> uint list \<Rightarrow> bool" where
  "vstep kend d s xs t ys \<longleftrightarrow>
     kmem_rep kend t ys \<and> vspace kend (memory t) d ys \<and>
     pt_pages (memory t) d \<union> set ys \<subseteq> pt_pages (memory s) d \<union> set xs \<and>
     (\<forall>a. (\<forall>p \<in> pt_pages (memory s) d \<union> set xs. \<not> in_page p a) \<longrightarrow> memory t a = memory s a) \<and>
     length ys + ntabs (memory t) d = length xs + ntabs (memory s) d \<and> kmem_state.more t = kmem_state.more s"

lemma ntabs_le: "ntabs m d \<le> 1024"
proof -
  have "card {x. has_tab m d x} = card (unat ` {x. has_tab m d x})"
    by (intro card_image [symmetric] inj_onI) (simp add: word_unat_eq_iff)
  also have "\<dots> \<le> card {..<1024 :: nat}" by (intro card_mono) (auto simp: has_tab_def)
  finally show ?thesis by (simp add: ntabs_def)
qed

lemma vstep_refl: "kmem_rep kend s xs \<Longrightarrow> vspace kend (memory s) d xs \<Longrightarrow> vstep kend d s xs s xs"
  by (simp add: vstep_def)

lemma vstep_trans:
  assumes "vstep kend d s xs t ys" "vstep kend d t ys u zs"
  shows "vstep kend d s xs u zs"
proof -
  have sub: "pt_pages (memory t) d \<union> set ys \<subseteq> pt_pages (memory s) d \<union> set xs" using assms(1) unfolding vstep_def by blast
  have fr: "memory u a = memory s a" if "\<forall>p \<in> pt_pages (memory s) d \<union> set xs. \<not> in_page p a" for a
  proof -
    have "memory t a = memory s a" using assms(1) that unfolding vstep_def by blast
    moreover have "\<forall>p \<in> pt_pages (memory t) d \<union> set ys. \<not> in_page p a" using that sub by blast
    then have "memory u a = memory t a" using assms(2) unfolding vstep_def by blast
    ultimately show ?thesis by simp
  qed
  show ?thesis unfolding vstep_def
  proof (intro conjI allI impI)
    show "kmem_rep kend u zs" "vspace kend (memory u) d zs" using assms(2) unfolding vstep_def by blast+
    show "pt_pages (memory u) d \<union> set zs \<subseteq> pt_pages (memory s) d \<union> set xs" using sub assms(2) unfolding vstep_def by blast
    show "length zs + ntabs (memory u) d = length xs + ntabs (memory s) d" "kmem_state.more u = kmem_state.more s"
      using assms unfolding vstep_def by auto
  qed (rule fr)
qed

lemma vstep_rep: "vstep kend d s xs t ys \<Longrightarrow> kmem_rep kend t ys" "vstep kend d s xs t ys \<Longrightarrow> vspace kend (memory t) d ys"
  by (simp_all add: vstep_def)

lemma kmem_rep_cong:
  assumes "kmem_rep kend s xs" "\<And>p a. p \<in> set xs \<Longrightarrow> in_page p a \<Longrightarrow> memory t a = memory s a" "freelist t = freelist s"
  shows "kmem_rep kend t xs"
proof -
  have "get32 (memory t) p = get32 (memory s) p" if "p \<in> set xs" for p
    using assms(2) [OF that] by (intro get32_cong) (simp_all add: in_page_first)
  then have "chain (memory t) (freelist t) xs = chain (memory s) (freelist t) xs" by (rule chain_cong)
  then show ?thesis using assms(1,3) by (simp add: kmem_rep_def)
qed

section \<open>Storing an entry\<close>

definition pte_slot :: "mem \<Rightarrow> uint \<Rightarrow> uint \<Rightarrow> uint" where
  "pte_slot m d va = ptab m d (PDX va) + 4 * PTX va"

lemma pte_slot_nonzero:
  assumes "vspace kend m d xs" "has_tab m d (PDX va)"
  shows "pte_slot m d va \<noteq> 0"
proof -
  have "unat (pte_slot m d va) \<ge> 0x80000000"
    unfolding pte_slot_def unat_entry [OF vspace_tab(1) [OF assms] PTX_less] using page_ok_unat(2) [OF vspace_tab(1) [OF assms]] by simp
  then show ?thesis by auto
qed

lemma vspace_free_disjoint:
  assumes "kmem_rep kend s xs" "vspace kend m d xs" "p \<in> pt_pages m d" "x \<in> set xs" "in_page p a"
  shows "\<not> in_page x a"
proof
  assume "in_page x a"
  moreover have "page_ok kend p" "p \<notin> set xs" using assms(2,3) by (simp_all add: vspace_def)
  moreover have "page_ok kend x" using assms(1,4) by (simp add: kmem_rep_def)
  ultimately show False using pages_disjoint [of kend p x a] assms(4,5) by blast
qed

lemma store_pte:
  fixes w :: uint
  assumes "kmem_rep kend s xs" "vspace kend (memory s) d xs" "has_tab (memory s) d (PDX va)"
  defines "t \<equiv> s\<lparr>memory := put32 (memory s) (pte_slot (memory s) d va) w\<rparr>"
  shows "vstep kend d s xs t xs"
    "vmap (memory t) d b = (if unat b div 4096 = unat va div 4096 then if pte_present w then Some w else None else vmap (memory s) d b)"
proof -
  let ?m = "memory s" and ?q = "ptab (memory s) d (PDX va)"
  note q = vspace_tab [OF assms(2,3)]
  have mt: "memory t = put32 ?m (?q + 4 * PTX va) w" by (simp add: t_def pte_slot_def)
  have fr: "memory t a = ?m a" if "\<not> in_page ?q a" for a using that unfolding mt by (simp add: put32_entry_frame)
  have dd: "?m a = memory t a" if "in_page d a" for a
    using fr [of a] pages_disjoint [OF vspace_dir(1) [OF assms(2)] q(1) that] q(3) by (metis (no_types))
  note h = has_tab_cong [of d ?m "memory t", OF dd]
  note p = pt_pages_cong [of d ?m "memory t", OF dd]
  have n: "ntabs (memory t) d = ntabs ?m d" using h(1) by (simp add: ntabs_def)
  have "kmem_rep kend t xs"
  proof (rule kmem_rep_cong [OF assms(1)])
    show "memory t a = ?m a" if "x \<in> set xs" "in_page x a" for x a
      using fr vspace_free_disjoint [OF assms(1,2) q(4) that(1)] that(2) by blast
  qed (simp add: t_def)
  then show "vstep kend d s xs t xs" unfolding vstep_def using assms(2) p n fr q(4) by (auto simp: t_def)
  show "vmap (memory t) d b = (if unat b div 4096 = unat va div 4096 then if pte_present w then Some w else None else vmap ?m d b)"
  proof (cases "has_tab ?m d (PDX b)")
    case True
    note b = vspace_tab [OF assms(2) True]
    have e: "get32 (memory t) (ptab ?m d (PDX b) + 4 * PTX b) =
        (if PDX b = PDX va \<and> PTX b = PTX va then w else get32 ?m (ptab ?m d (PDX b) + 4 * PTX b))"
    proof (cases "PDX b = PDX va \<and> PTX b = PTX va")
      case True
      then show ?thesis unfolding mt by simp
    next
      case False
      then have "?q \<noteq> ptab ?m d (PDX b) \<or> PTX va \<noteq> PTX b" using b(5) [OF assms(3)] by metis
      then have "get32 (memory t) (ptab ?m d (PDX b) + 4 * PTX b) = get32 ?m (ptab ?m d (PDX b) + 4 * PTX b)"
        unfolding mt by (intro get32_put32_entries [OF q(1) b(1)]) simp_all
      then show ?thesis using False by (simp only: if_False)
    qed
    have "vmap (memory t) d b = (let e = get32 (memory t) (ptab ?m d (PDX b) + 4 * PTX b) in if pte_present e then Some e else None)"
      using True h [of "PDX b"] by (simp add: vmap_def)
    then show ?thesis unfolding e same_page [of b va] using True by (simp add: vmap_def Let_def)
  next
    case False
    then have "\<not> unat b div 4096 = unat va div 4096" using same_page [of b va] assms(3) by metis
    then show ?thesis using False h(1) [of "PDX b"] by (simp add: vmap_def)
  qed
qed

section \<open>Walking\<close>

lemma walkpgdir_found:
  assumes "has_tab (memory s) d (PDX va)"
  shows "walkpgdir d va al s = (pte_slot (memory s) d va, s)"
  using assms by (simp add: walkpgdir_def Let_def has_tab_def pde_at_def pte_slot_def ptab_def)

lemma walkpgdir_none:
  assumes "\<not> has_tab (memory s) d (PDX va)"
  shows "walkpgdir d va False s = (0, s)"
  using assms by (simp add: walkpgdir_def Let_def has_tab_def pde_at_def)

lemma walkpgdir_full:
  assumes "\<not> has_tab (memory s) d (PDX va)" "kmem_rep kend s []"
  shows "walkpgdir d va True s = (0, s)"
  using assms kalloc_ok(1) [OF assms(2)] by (simp add: walkpgdir_def Let_def has_tab_def pde_at_def)

text \<open>A new table is a free page, filled with zeroes, so the view does not change.\<close>

lemma walkpgdir_new:
  assumes "kmem_rep kend s (p # ys)" "vspace kend (memory s) d (p # ys)" "\<not> has_tab (memory s) d (PDX va)"
  obtains t where "walkpgdir d va True s = (pte_slot (memory t) d va, t)" "has_tab (memory t) d (PDX va)"
    "vstep kend d s (p # ys) t ys" "vmap (memory t) d = vmap (memory s) d"
proof -
  let ?m = "memory s" and ?x = "PDX va" and ?e = "or (or (or (v2p p) PTE_P) PTE_W) PTE_U"
  define s1 where "s1 = s\<lparr>freelist := get32 (memory s) p\<rparr>"
  define z where "z = memset p 0 PGSIZE ?m"
  define t where "t = s1\<lparr>memory := put32 z (d + 4 * ?x) ?e\<rparr>"
  have ka: "kalloc s = (p, s1)" "kmem_rep kend s1 ys" using kalloc_ok [OF assms(1)] by (simp_all add: s1_def)
  have p: "page_ok kend p" "p \<notin> set ys" "\<forall>y \<in> set ys. page_ok kend y" using assms(1) by (auto simp: kmem_rep_def)
  have d: "page_ok kend d" "d \<noteq> p" "d \<notin> set ys" using vspace_dir [OF assms(2)] by auto
  have zf: "z a = ?m a" if "\<not> in_page p a" for a using that by (simp add: z_def memset_correct in_page_def PGSIZE_def)
  have fr: "memory t a = ?m a" if "\<not> in_page p a" "\<not> in_page d a" for a
    using that by (simp add: t_def put32_entry_frame zf)
  have zd: "z a = ?m a" if "in_page d a" for a using zf [of a] pages_disjoint [OF d(1) p(1) that] d(2) by blast
  have pd: "pde_at (memory t) d y = (if y = ?x then ?e else pde_at ?m d y)" if "unat y < 1024" for y
    using that get32_put32_entries [OF d(1) d(1) PDX_less that, of va z ?e] get32_entry_cong [of d z ?m y, OF zd]
    by (simp add: pde_at_def t_def)
  have h: "has_tab (memory t) d y \<longleftrightarrow> y = ?x \<or> has_tab ?m d y" for y
    using pd [of y] pte_ptable(2) [OF p(1)] PDX_less [of va] by (auto simp: has_tab_def)
  have px: "ptab (memory t) d ?x = p" using pd [of ?x] pte_ptable(1) [OF p(1)] by (simp add: ptab_def)
  have py: "ptab (memory t) d y = ptab ?m d y" if "has_tab ?m d y" for y
    using pd [of y] that assms(3) by (auto simp: ptab_def has_tab_def)
  have hs: "{y. has_tab (memory t) d y} = insert ?x {y. has_tab ?m d y}" using h by auto
  have im: "ptab (memory t) d ` {y. has_tab (memory t) d y} = insert p (ptab ?m d ` {y. has_tab ?m d y})"
  proof -
    have "ptab (memory t) d ` {y. has_tab ?m d y} = ptab ?m d ` {y. has_tab ?m d y}" using py by (intro image_cong) auto
    then show ?thesis unfolding hs by (simp add: px)
  qed
  have pts: "pt_pages (memory t) d = insert p (pt_pages ?m d)" unfolding pt_pages_def im by auto
  have tp: "ptab ?m d y \<noteq> p" if "has_tab ?m d y" for y using vspace_tab(2) [OF assms(2) that] by auto
  have inj: "inj_on (ptab (memory t) d) {y. has_tab (memory t) d y}"
  proof (rule inj_onI, unfold mem_Collect_eq)
    fix y z assume a: "has_tab (memory t) d y" "has_tab (memory t) d z" "ptab (memory t) d y = ptab (memory t) d z"
    show "y = z"
    proof (cases "has_tab ?m d y"; cases "has_tab ?m d z")
      assume "has_tab ?m d y" "has_tab ?m d z"
      then show ?thesis using a(3) py vspace_tab(5) [OF assms(2)] by metis
    qed (use a h px py tp in metis)+
  qed
  have vs: "vspace kend (memory t) d ys"
    unfolding vspace_def pts im using assms(2) inj p d by (auto simp: vspace_def)
  have rep: "kmem_rep kend t ys"
  proof (rule kmem_rep_cong [OF ka(2)])
    show "memory t a = memory s1 a" if "y \<in> set ys" "in_page y a" for y a
    proof -
      have y: "page_ok kend y" "y \<noteq> p" "y \<noteq> d" using p d that(1) by auto
      then have "\<not> in_page p a" "\<not> in_page d a" using pages_disjoint that(2) p(1) d(1) by blast+
      then show ?thesis using fr by (simp add: s1_def)
    qed
  qed (simp add: t_def)
  have nt: "ntabs (memory t) d = Suc (ntabs ?m d)" unfolding ntabs_def hs using assms(3) by simp
  have st: "vstep kend d s (p # ys) t ys"
    unfolding vstep_def pts using rep vs nt fr by (auto simp: pt_pages_def t_def s1_def)
  have vm: "vmap (memory t) d b = vmap ?m d b" for b
  proof (cases "has_tab ?m d (PDX b)")
    case True
    note q = vspace_tab [OF assms(2) True]
    have "ptab ?m d (PDX b) \<noteq> p" "ptab ?m d (PDX b) \<noteq> d" using q(2,3) by auto
    then have "memory t a = ?m a" if "in_page (ptab ?m d (PDX b)) a" for a
      using fr pages_disjoint [OF q(1) p(1) that] pages_disjoint [OF q(1) d(1) that] by blast
    then have "get32 (memory t) (ptab ?m d (PDX b) + 4 * PTX b) = get32 ?m (ptab ?m d (PDX b) + 4 * PTX b)"
      by (intro get32_entry_cong) simp_all
    then show ?thesis using True h [of "PDX b"] py [OF True] by (simp add: vmap_def)
  next
    case False
    have "\<not> pte_present (get32 (memory t) (p + 4 * PTX b))"
    proof -
      have "memory t a = 0" if "in_page p a" for a
      proof -
        have "\<not> in_page d a" using pages_disjoint [OF d(1) p(1) _ that] d(2) by blast
        then show ?thesis using that by (simp add: t_def put32_entry_frame z_def memset_correct in_page_def PGSIZE_def)
      qed
      then have "get32 (memory t) (p + 4 * PTX b) = get32 (\<lambda>_. 0) (p + 4 * PTX b)" by (intro get32_entry_cong) simp_all
      then show ?thesis by (simp add: get32_def pte_present_def)
    qed
    then show ?thesis using False h [of "PDX b"] px by (auto simp: vmap_def Let_def)
  qed
  have nz: "p \<noteq> 0" using page_ok_unat(4) [OF p(1)] .
  have "walkpgdir d va True s = (p + 4 * PTX va, t)"
    using assms(3) nz by (simp add: walkpgdir_def Let_def ka(1) has_tab_def pde_at_def t_def z_def s1_def)
  then show thesis using that [of t] st vm h px by (auto simp: pte_slot_def)
qed

lemma walkpgdir_alloc:
  assumes "kmem_rep kend s xs" "vspace kend (memory s) d xs"
  obtains (full) "walkpgdir d va True s = (0, s)" "xs = []" "\<not> has_tab (memory s) d (PDX va)"
  | (slot) t ys where "walkpgdir d va True s = (pte_slot (memory t) d va, t)" "pte_slot (memory t) d va \<noteq> 0" "has_tab (memory t) d (PDX va)"
      "vstep kend d s xs t ys" "vmap (memory t) d = vmap (memory s) d"
proof (cases "has_tab (memory s) d (PDX va)")
  case True
  then show thesis using slot [of s xs] walkpgdir_found vstep_refl [OF assms] pte_slot_nonzero [OF assms(2)] by blast
next
  case False
  show thesis
  proof (cases xs)
    case Nil
    then show thesis using full walkpgdir_full [OF False] assms(1) False by blast
  next
    case (Cons p ys)
    obtain t where "walkpgdir d va True s = (pte_slot (memory t) d va, t)" "has_tab (memory t) d (PDX va)"
      "vstep kend d s (p # ys) t ys" "vmap (memory t) d = vmap (memory s) d"
      using walkpgdir_new [OF assms [unfolded Cons] False] by blast
    then show thesis using slot [of t ys] pte_slot_nonzero [OF vstep_rep(2)] Cons by blast
  qed
qed

section \<open>Mapping a range of pages\<close>

text \<open>The view \<open>f\<close> with the \<open>n\<close> pages from \<open>a\<close> on mapped to the physical pages from \<open>pa\<close> on.\<close>

definition map_range :: "(uint \<Rightarrow> uint option) \<Rightarrow> uint \<Rightarrow> nat \<Rightarrow> uint \<Rightarrow> uint \<Rightarrow> uint \<Rightarrow> uint option" where
  "map_range f a n pa perm b =
     (if unat a \<le> unat b \<and> unat b < unat a + 4096 * n then Some (or (or (pa + (PGROUNDDOWN b - a)) perm) PTE_P) else f b)"

lemma map_range_0 [simp]: "map_range f a 0 pa perm = f"
  by (rule ext) (auto simp: map_range_def)

lemma page_of:
  assumes "unat a mod 4096 = 0"
  shows "unat b div 4096 = unat a div 4096 \<longleftrightarrow> unat a \<le> unat b \<and> unat b < unat a + 4096"
proof -
  have "unat a = 4096 * (unat a div 4096)" using assms by auto
  moreover have "unat b = 4096 * (unat b div 4096) + unat b mod 4096" "unat b mod 4096 < 4096" by simp_all
  ultimately show ?thesis by linarith
qed

lemma PGROUNDDOWN_page:
  assumes "unat a mod 4096 = 0" "unat a \<le> unat b" "unat b < unat a + 4096"
  shows "PGROUNDDOWN b = a"
proof -
  have "unat (PGROUNDDOWN b) = unat a div 4096 * 4096" using page_of [OF assms(1), of b] assms(2,3) by (simp add: unat_PGROUNDDOWN)
  also have "\<dots> = unat a" using assms(1) by auto
  finally show ?thesis by (simp add: word_unat_eq_iff)
qed

lemma map_range_first:
  assumes "unat a mod 4096 = 0"
  shows "(\<lambda>b. if unat b div 4096 = unat a div 4096 then Some (or (or pa perm) PTE_P) else f b) = map_range f a 1 pa perm"
  using page_of [OF assms] PGROUNDDOWN_page [OF assms] by (intro ext) (auto simp: map_range_def)

lemma map_range_next:
  assumes "unat a mod 4096 = 0" "unat (a + PGSIZE) = unat a + 4096"
  shows "map_range (map_range f a 1 pa perm) (a + PGSIZE) n (pa + PGSIZE) perm = map_range f a (Suc n) pa perm"
proof
  fix b
  have "pa + PGSIZE + (PGROUNDDOWN b - (a + PGSIZE)) = pa + (PGROUNDDOWN b - a)" by simp
  then show "map_range (map_range f a 1 pa perm) (a + PGSIZE) n (pa + PGSIZE) perm b = map_range f a (Suc n) pa perm b"
    unfolding map_range_def assms(2) by auto
qed

text \<open>
  What mapping \<open>n\<close> pages may do: it maps all of them, or runs out of free pages after some of them, or panics because one of
  them is mapped already.
\<close>

definition maps_pages :: "uint \<Rightarrow> uint \<Rightarrow> uint \<Rightarrow> nat \<Rightarrow> uint \<Rightarrow> uint \<Rightarrow> 'x kmem_state_scheme \<Rightarrow> uint list
    \<Rightarrow> (int, 'x kmem_state_scheme) kres \<Rightarrow> bool" where
  "maps_pages kend d a n pa perm s xs r \<longleftrightarrow>
     (case r of
        Panic msg \<Rightarrow> msg = ''remap'' \<and> (\<exists>b. unat a \<le> unat b \<and> unat b < unat a + 4096 * n \<and> vmap (memory s) d b \<noteq> None)
      | Sleep c t \<Rightarrow> False
      | Done v t \<Rightarrow> \<exists>ys. vstep kend d s xs t ys \<and>
          (v = 0 \<and> vmap (memory t) d = map_range (vmap (memory s) d) a n pa perm \<or>
           v = -1 \<and> ys = [] \<and> (\<exists>k < n. vmap (memory t) d = map_range (vmap (memory s) d) a k pa perm)))"

lemma slot_present:
  assumes "has_tab m d (PDX a)"
  shows "pte_present (get32 m (pte_slot m d a)) \<longleftrightarrow> vmap m d a \<noteq> None"
  using assms by (simp add: vmap_def pte_slot_def Let_def)

lemma map_one:
  assumes "kmem_rep kend s xs" "vspace kend (memory s) d xs" "unat a mod 4096 = 0"
  obtains (full) "walkpgdir d a True s = (0, s)" "xs = []"
  | (remap) t where "walkpgdir d a True s = (pte_slot (memory t) d a, t)" "pte_slot (memory t) d a \<noteq> 0"
      "pte_present (get32 (memory t) (pte_slot (memory t) d a))" "vmap (memory s) d a \<noteq> None"
  | (new) t u ys where "walkpgdir d a True s = (pte_slot (memory t) d a, t)" "pte_slot (memory t) d a \<noteq> 0"
      "\<not> pte_present (get32 (memory t) (pte_slot (memory t) d a))"
      "u = t\<lparr>memory := put32 (memory t) (pte_slot (memory t) d a) (or (or pa perm) PTE_P)\<rparr>"
      "vstep kend d s xs u ys" "vmap (memory u) d = map_range (vmap (memory s) d) a 1 pa perm"
  using assms(1,2)
proof (cases rule: walkpgdir_alloc [of kend s xs d a])
  case full
  then show thesis using that(1) by blast
next
  case (slot t ys)
  show thesis
  proof (cases "pte_present (get32 (memory t) (pte_slot (memory t) d a))")
    case True
    then show thesis using that(2) [of t] slot slot_present [OF slot(3)] by simp
  next
    case False
    let ?u = "t\<lparr>memory := put32 (memory t) (pte_slot (memory t) d a) (or (or pa perm) PTE_P)\<rparr>"
    note st = store_pte [OF vstep_rep [OF slot(4)] slot(3), of "or (or pa perm) PTE_P"]
    have "vmap (memory ?u) d = map_range (vmap (memory s) d) a 1 pa perm"
      unfolding map_range_first [OF assms(3), symmetric] using st(2) slot(5) by (intro ext) simp
    then show thesis using that(3) [of t ?u ys] slot False vstep_trans [OF slot(4) st(1)] by blast
  qed
qed

lemma mappages_loop_ok:
  assumes "kmem_rep kend s xs" "vspace kend (memory s) d xs" "unat a mod 4096 = 0" "unat a + 4096 * Suc n \<le> 4294967296"
  shows "maps_pages kend d a (Suc n) pa perm s xs (mappages_loop n d a pa perm s)"
  using assms
proof (induction n arbitrary: a pa s xs)
  case 0
  show ?case
  proof (cases rule: map_one [OF 0(1-3), where pa = pa and perm = perm, case_names full remap new])
    case full
    then have "maps_pages kend d a (Suc 0) pa perm s xs (Done (-1) s)"
      using vstep_refl [OF 0(1,2)] by (auto simp: maps_pages_def)
    then show ?thesis using full(1) by simp
  next
    case (remap t)
    have "maps_pages kend d a (Suc 0) pa perm s xs (Panic ''remap'')"
      unfolding maps_pages_def kres.case using remap(4) by (intro conjI exI [of _ a]) auto
    then show ?thesis using remap(1-3) by simp
  next
    case (new t u ys)
    then have "maps_pages kend d a (Suc 0) pa perm s xs (Done 0 u)" by (auto simp: maps_pages_def)
    then show ?thesis using new(1-4) by simp
  qed
next
  case (Suc n)
  show ?case
  proof (cases rule: map_one [OF Suc.prems(1-3), where pa = pa and perm = perm, case_names full remap new])
    case full
    have "vmap (memory s) d = map_range (vmap (memory s) d) a 0 pa perm" by simp
    then have "maps_pages kend d a (Suc (Suc n)) pa perm s xs (Done (-1) s)"
      using vstep_refl [OF Suc.prems(1,2)] full(2) unfolding maps_pages_def kres.case by blast
    then show ?thesis using full(1) by simp
  next
    case (remap t)
    have "maps_pages kend d a (Suc (Suc n)) pa perm s xs (Panic ''remap'')"
      unfolding maps_pages_def kres.case using remap(4) by (intro conjI exI [of _ a]) auto
    then show ?thesis using remap(1-3) by simp
  next
    case (new t u ys)
    have p: "unat (a + PGSIZE) = unat a + 4096" using Suc.prems(4) by (simp add: PGSIZE_def unat_word_ariths)
    have al: "unat (a + PGSIZE) mod 4096 = 0" unfolding p using Suc.prems(3) by simp
    have ih: "maps_pages kend d (a + PGSIZE) (Suc n) (pa + PGSIZE) perm u ys (mappages_loop n d (a + PGSIZE) (pa + PGSIZE) perm u)"
      using Suc.prems(4) by (intro Suc.IH vstep_rep [OF new(5)] al) (simp add: p)
    have e: "mappages_loop (Suc n) d a pa perm s = mappages_loop n d (a + PGSIZE) (pa + PGSIZE) perm u"
      using new(1-4) by simp
    note mr = map_range_next [OF Suc.prems(3) p, of "vmap (memory s) d" pa perm]
    show ?thesis
    proof (cases "mappages_loop n d (a + PGSIZE) (pa + PGSIZE) perm u")
      case (Done v w)
      then obtain zs where z: "vstep kend d u ys w zs"
          "v = 0 \<and> vmap (memory w) d = map_range (vmap (memory s) d) a (Suc (Suc n)) pa perm \<or>
           v = -1 \<and> zs = [] \<and> (\<exists>k < Suc n. vmap (memory w) d = map_range (vmap (memory s) d) a (Suc k) pa perm)"
        using ih unfolding maps_pages_def new(6) mr by auto
      then have "v = 0 \<and> vmap (memory w) d = map_range (vmap (memory s) d) a (Suc (Suc n)) pa perm \<or>
           v = -1 \<and> zs = [] \<and> (\<exists>k < Suc (Suc n). vmap (memory w) d = map_range (vmap (memory s) d) a k pa perm)"
        using Suc_less_eq by blast
      then show ?thesis unfolding e Done maps_pages_def kres.case using vstep_trans [OF new(5) z(1)] by blast
    next
      case (Panic msg)
      then obtain b where b: "msg = ''remap''" "unat (a + PGSIZE) \<le> unat b" "unat b < unat (a + PGSIZE) + 4096 * Suc n" "vmap (memory u) d b \<noteq> None"
        using ih unfolding maps_pages_def by auto
      then have "vmap (memory s) d b \<noteq> None" using p by (simp add: new(6) map_range_def)
      then show ?thesis unfolding e Panic maps_pages_def kres.case using b(1-3) p by (intro conjI exI [of _ b]) auto
    next
      case (Sleep c w)
      then show ?thesis using ih by (simp add: maps_pages_def)
    qed
  qed
qed

text \<open>The number of pages that the \<open>sz\<close> bytes from \<open>va\<close> on touch.\<close>

definition npages :: "uint \<Rightarrow> uint \<Rightarrow> nat" where
  "npages va sz = (unat va + unat sz - 1) div 4096 - unat va div 4096 + 1"

lemma mappages_ok:
  assumes "kmem_rep kend s xs" "vspace kend (memory s) d xs" "0 < unat sz" "unat va + unat sz \<le> 4294967296"
  shows "maps_pages kend d (PGROUNDDOWN va) (npages va sz) pa perm s xs (mappages d va sz pa perm s)"
proof -
  let ?l = "va + sz - 1"
  have e: "?l = va + (sz - 1)" by simp
  have "unat (sz - 1) = unat sz - 1" using assms(3) by (subst unat_sub) (auto simp: word_le_nat_alt)
  moreover have "unat va + (unat sz - 1) < 4294967296" using assms(3,4) by linarith
  ultimately have l: "unat ?l = unat va + unat sz - 1" unfolding e using unat_add32 [of va "sz - 1"] assms(3) by simp
  have le: "unat va div 4096 * 4096 \<le> unat ?l div 4096 * 4096"
    using assms(3) by (intro mult_le_mono1 div_le_mono) (simp add: l)
  have "unat (PGROUNDDOWN ?l - PGROUNDDOWN va) = unat ?l div 4096 * 4096 - unat va div 4096 * 4096"
    using le by (subst unat_sub) (simp_all add: word_le_nat_alt unat_PGROUNDDOWN)
  also have "\<dots> = (unat ?l div 4096 - unat va div 4096) * 4096" by (simp add: diff_mult_distrib)
  finally have n: "Suc (unat (PGROUNDDOWN ?l - PGROUNDDOWN va) div 4096) = npages va sz" by (simp add: npages_def l)
  have "unat va div 4096 \<le> unat ?l div 4096" using le by simp
  then have "unat va div 4096 * 4096 + 4096 * npages va sz = (unat ?l div 4096) * 4096 + 4096"
    unfolding npages_def l [symmetric] by (simp add: diff_mult_distrib2 mult.commute [of _ 4096])
  moreover have "unat ?l div 4096 < 1048576" using unat_lt32 [of ?l] by (intro less_mult_imp_div_less) simp
  ultimately have b: "unat (PGROUNDDOWN va) + 4096 * npages va sz \<le> 4294967296" unfolding unat_PGROUNDDOWN by linarith
  have al: "unat (PGROUNDDOWN va) mod 4096 = 0" by (simp add: unat_PGROUNDDOWN)
  show ?thesis unfolding mappages_def Let_def using mappages_loop_ok [OF assms(1,2) al, of "unat (PGROUNDDOWN ?l - PGROUNDDOWN va) div 4096" pa perm] b
    unfolding n by simp
qed

text \<open>Mapping pages that are not mapped succeeds when there are enough free pages for all tables.\<close>

lemma mappages_fresh:
  assumes "kmem_rep kend s xs" "vspace kend (memory s) d xs" "0 < unat sz" "unat va + unat sz \<le> 4294967296"
    "unat va mod 4096 = 0" "unat sz mod 4096 = 0" "1024 < length xs + ntabs (memory s) d"
    "\<And>b. unat va \<le> unat b \<Longrightarrow> unat b < unat va + unat sz \<Longrightarrow> vmap (memory s) d b = None"
  obtains t ys where "mappages d va sz pa perm s = Done 0 t" "vstep kend d s xs t ys"
    "vmap (memory t) d = map_range (vmap (memory s) d) va (unat sz div 4096) pa perm"
proof -
  have a: "PGROUNDDOWN va = va" using assms(5) by (intro PGROUNDDOWN_page) simp_all
  have n: "npages va sz = unat sz div 4096"
  proof -
    obtain k where k: "unat sz = 4096 * k" using assms(6) by auto
    obtain j where j: "unat va = 4096 * j" using assms(5) by auto
    have "unat va + unat sz - 1 = 4095 + 4096 * (j + k - 1)" using assms(3) k j by (cases k) simp_all
    then have "(unat va + unat sz - 1) div 4096 = j + k - 1" by simp
    then show ?thesis using assms(3) k j by (simp add: npages_def)
  qed
  have 4: "4096 * (unat sz div 4096) = unat sz" using assms(6) by auto
  have "maps_pages kend d va (unat sz div 4096) pa perm s xs (mappages d va sz pa perm s)"
    using mappages_ok [OF assms(1-4)] unfolding a n .
  then show thesis
  proof (cases "mappages d va sz pa perm s")
    case (Done v t)
    with \<open>maps_pages kend d va (unat sz div 4096) pa perm s xs (mappages d va sz pa perm s)\<close>
    obtain ys where y: "vstep kend d s xs t ys" "v = 0 \<and> vmap (memory t) d = map_range (vmap (memory s) d) va (unat sz div 4096) pa perm \<or> ys = []"
      unfolding maps_pages_def by auto
    have "ys \<noteq> []" using y(1) assms(7) ntabs_le [of "memory t" d] by (auto simp: vstep_def)
    then show thesis using that Done y by blast
  qed (use assms(8) in \<open>auto simp: maps_pages_def 4\<close>)
qed

text \<open>
  C14. mappages does exactly what it promises on the view of a page directory: it returns 0 and the pages that the range touches, and no others, are mapped to
  consecutive physical pages with the permissions asked for; or it returns -1, no page is free, and a proper part of the range is mapped; or it panics
  because a page of the range is mapped already. Every page it takes from the free list becomes a page table, and no byte outside free
  pages and page tables changes.
\<close>

theorem mappages_maps_exactly:
  assumes "kmem_rep kend s xs" and "vspace kend (memory s) d xs" and "0 < unat sz" and "unat va + unat sz \<le> 2 ^ 32"
  shows "maps_pages kend d (PGROUNDDOWN va) (npages va sz) pa perm s xs (mappages d va sz pa perm s)"
  using assms(4) by (intro mappages_ok [OF assms(1-3)]) simp

lemma one_free_page_space: "vspace 0x80100000 (memory one_free_page) 0x80401000 [0x80400000]"
proof -
  have "\<not> has_tab (memory one_free_page) 0x80401000 x" for x
    by (simp add: has_tab_def pde_at_def one_free_page_def get32_def pte_present_def)
  then show ?thesis by (simp add: vspace_def pt_pages_def page_ok_def mem_consts)
qed

theorem mappages_maps_exactly_witness:
  "maps_pages 0x80100000 0x80401000 (PGROUNDDOWN 0) (npages 0 4096) 0x5000 PTE_W one_free_page [0x80400000]
     (mappages 0x80401000 0 4096 0x5000 PTE_W one_free_page)"
  using mappages_maps_exactly [OF one_free_page_rep one_free_page_space, of 4096 0 "0x5000" PTE_W] by simp

section \<open>The kernel half of an address space\<close>

lemma fresh_dir:
  assumes "kmem_rep kend s (d # ys)"
  defines "t \<equiv> s\<lparr>freelist := get32 (memory s) d, memory := memset d 0 PGSIZE (memory s)\<rparr>"
  shows "kmem_rep kend t ys" "vspace kend (memory t) d ys" "vmap (memory t) d b = None" "ntabs (memory t) d = 0" "pt_pages (memory t) d = {d}"
proof -
  have d: "page_ok kend d" "d \<notin> set ys" "\<forall>y \<in> set ys. page_ok kend y" using assms(1) by (auto simp: kmem_rep_def)
  have z: "memory t a = 0" if "in_page d a" for a using that by (simp add: t_def memset_correct in_page_def PGSIZE_def)
  have fr: "memory t a = memory s a" if "\<not> in_page d a" for a using that by (simp add: t_def memset_correct in_page_def PGSIZE_def)
  have no: "\<not> has_tab (memory t) d x" for x
  proof
    assume h: "has_tab (memory t) d x"
    then have "get32 (memory t) (d + 4 * x) = get32 (\<lambda>_. 0) (d + 4 * x)"
      using z by (intro get32_entry_cong) (simp_all add: has_tab_def)
    then show False using h by (simp add: has_tab_def pde_at_def get32_def pte_present_def)
  qed
  show "vmap (memory t) d b = None" "ntabs (memory t) d = 0" "pt_pages (memory t) d = {d}" "vspace kend (memory t) d ys"
    using no d by (simp_all add: vmap_def ntabs_def pt_pages_def vspace_def)
  have "kmem_rep kend (s\<lparr>freelist := get32 (memory s) d\<rparr>) ys" using kalloc_ok [OF assms(1)] by simp
  then show "kmem_rep kend t ys"
  proof (rule kmem_rep_cong)
    show "memory t a = memory (s\<lparr>freelist := get32 (memory s) d\<rparr>) a" if "p \<in> set ys" "in_page p a" for p a
    proof -
      have "page_ok kend p" "p \<noteq> d" using d that(1) by auto
      then have "\<not> in_page d a" using pages_disjoint [of kend p d a] d(1) that(2) by blast
      then show ?thesis using fr by simp
    qed
  qed (simp add: t_def)
qed

text \<open>The mapping of the kernel that every process has.\<close>

definition kview :: "uint \<Rightarrow> uint \<Rightarrow> uint option" where
  "kview kdata =
     map_range (map_range (map_range (map_range (\<lambda>_. None) KERNBASE 256 0 PTE_W)
       KERNLINK (unat (kdata - KERNLINK) div 4096) EXTMEM 0)
       kdata (unat (0x8E000000 - kdata) div 4096) (v2p kdata) PTE_W)
       DEVSPACE 8192 DEVSPACE PTE_W"

definition kdata_ok :: "uint \<Rightarrow> bool" where
  "kdata_ok kdata \<longleftrightarrow> unat kdata mod 4096 = 0 \<and> KERNLINK < kdata \<and> kdata < 0x8E000000"

lemma kdata_sizes:
  assumes "kdata_ok kdata"
  shows "unat (kdata - KERNLINK) = unat kdata - 0x80100000" "unat (0x8E000000 - kdata) = 0x8E000000 - unat kdata"
    "0x80100000 < unat kdata" "unat kdata < 0x8E000000" "unat kdata mod 4096 = 0"
    "unat (kdata - KERNLINK) mod 4096 = 0" "unat (0x8E000000 - kdata) mod 4096 = 0"
proof -
  have k: "KERNLINK = 0x80100000" by (simp add: KERNLINK_def KERNBASE_def EXTMEM_def)
  show l: "0x80100000 < unat kdata" "unat kdata < 0x8E000000" "unat kdata mod 4096 = 0"
    using assms by (simp_all add: kdata_ok_def k word_less_nat_alt)
  show u: "unat (kdata - KERNLINK) = unat kdata - 0x80100000" "unat (0x8E000000 - kdata) = 0x8E000000 - unat kdata"
    using l unfolding k by (simp_all add: unat_sub word_le_nat_alt)
  have "4096 dvd unat kdata - 0x80100000" "4096 dvd 0x8E000000 - unat kdata"
    using l(3) by (intro dvd_diff_nat; simp add: mod_eq_0_iff_dvd)+
  then show "unat (kdata - KERNLINK) mod 4096 = 0" "unat (0x8E000000 - kdata) mod 4096 = 0" unfolding u by (simp_all add: mod_eq_0_iff_dvd)
qed

lemma kmap_ok:
  assumes "kmem_rep kend s xs" "vspace kend (memory s) d xs" "kdata_ok kdata" "1024 < length xs + ntabs (memory s) d"
    "\<And>b. vmap (memory s) d b = None"
  obtains t ys where "map_kmap d (kmap kdata) s = Done d t" "vstep kend d s xs t ys" "vmap (memory t) d = kview kdata"
proof -
  note k = kdata_sizes [OF assms(3)]
  have c: "unat KERNBASE = 0x80000000" "unat EXTMEM = 0x100000" "unat KERNLINK = 0x80100000" "unat DEVSPACE = 0xFE000000"
    by (simp_all add: KERNBASE_def EXTMEM_def KERNLINK_def DEVSPACE_def)
  have v: "vmap (memory s) d = (\<lambda>_. None)" using assms(5) by (rule ext)
  have more: "1024 < length ys + ntabs (memory t) d" if "vstep kend d s xs t ys" for t ys
    using that assms(4) by (simp add: vstep_def)
  obtain t1 y1 where 1: "mappages d KERNBASE EXTMEM 0 PTE_W s = Done 0 t1" "vstep kend d s xs t1 y1"
    "vmap (memory t1) d = map_range (\<lambda>_. None) KERNBASE 256 0 PTE_W" (is "_ = ?f1")
    using mappages_fresh [OF assms(1,2), of EXTMEM KERNBASE 0 PTE_W] assms(4) by (auto simp: c v)
  obtain t2 y2 where 2: "mappages d KERNLINK (kdata - KERNLINK) EXTMEM 0 t1 = Done 0 t2" "vstep kend d t1 y1 t2 y2"
    "vmap (memory t2) d = map_range ?f1 KERNLINK (unat (kdata - KERNLINK) div 4096) EXTMEM 0" (is "_ = ?f2")
  proof (rule mappages_fresh [OF vstep_rep [OF 1(2)], of "kdata - KERNLINK" KERNLINK EXTMEM 0])
    show "vmap (memory t1) d b = None" if "unat KERNLINK \<le> unat b" for b using that by (simp add: 1(3) map_range_def c)
  qed (use k more [OF 1(2)] in \<open>simp_all add: c 1(3)\<close>)
  note 12 = vstep_trans [OF 1(2) 2(2)]
  obtain t3 y3 where 3: "mappages d kdata (0x8E000000 - kdata) (v2p kdata) PTE_W t2 = Done 0 t3" "vstep kend d t2 y2 t3 y3"
    "vmap (memory t3) d = map_range ?f2 kdata (unat (0x8E000000 - kdata) div 4096) (v2p kdata) PTE_W" (is "_ = ?f3")
  proof (rule mappages_fresh [OF vstep_rep [OF 12], of "0x8E000000 - kdata" kdata "v2p kdata" PTE_W])
    have "4096 * (unat (kdata - KERNLINK) div 4096) = unat kdata - 0x80100000" using k(1,6) by auto
    then show "vmap (memory t2) d b = None" if "unat kdata \<le> unat b" for b
      using that k(3) by (simp add: 2(3) map_range_def c)
  qed (use k more [OF 12] in \<open>simp_all add: c 2(3)\<close>)
  note 123 = vstep_trans [OF 12 3(2)]
  obtain t4 y4 where 4: "mappages d DEVSPACE 0x2000000 DEVSPACE PTE_W t3 = Done 0 t4" "vstep kend d t3 y3 t4 y4"
    "vmap (memory t4) d = map_range ?f3 DEVSPACE 8192 DEVSPACE PTE_W"
  proof (rule mappages_fresh [OF vstep_rep [OF 123], of "0x2000000" DEVSPACE DEVSPACE PTE_W])
    have "4096 * (unat (kdata - KERNLINK) div 4096) = unat kdata - 0x80100000" using k(1,6) by auto
    moreover have "4096 * (unat (0x8E000000 - kdata) div 4096) = 0x8E000000 - unat kdata" using k(2,7) by auto
    ultimately show "vmap (memory t3) d b = None" if "unat DEVSPACE \<le> unat b" for b
      using that k(3,4) by (simp add: 3(3) map_range_def c)
  qed (use more [OF 123] in \<open>simp_all add: c 3(3)\<close>)
  have e: "EXTMEM - 0 = EXTMEM" "v2p KERNLINK = EXTMEM" "v2p kdata - v2p KERNLINK = kdata - KERNLINK"
      "PHYSTOP - v2p kdata = 0x8E000000 - kdata" "0 - DEVSPACE = 0x2000000"
    by (simp_all add: KERNLINK_def EXTMEM_def v2p_def KERNBASE_def PHYSTOP_def DEVSPACE_def)
  have "map_kmap d (kmap kdata) s = Done d t4"
    using 1(1) 2(1) 3(1) 4(1) unfolding kmap_def map_kmap.simps e(3,4,5) unfolding e by simp
  then show thesis using that [of t4 y4] vstep_trans [OF 123 4(2)] 4(3) by (simp add: kview_def)
qed

lemma kview_low: "kdata_ok kdata \<Longrightarrow> unat b < 0x80000000 \<Longrightarrow> kview kdata b = None"
  using kdata_sizes(3) [of kdata]
  by (simp add: kview_def map_range_def KERNBASE_def EXTMEM_def KERNLINK_def DEVSPACE_def)

lemma setupkvm_ok:
  assumes "kmem_rep kend s xs" "kdata_ok kdata" "1025 < length xs"
  obtains d t ys where "setupkvm kdata s = Done d t" "d \<in> set xs" "d \<noteq> 0" "kmem_rep kend t ys" "vspace kend (memory t) d ys"
    "pt_pages (memory t) d \<union> set ys \<subseteq> set xs" "\<And>a. (\<forall>p \<in> set xs. \<not> in_page p a) \<Longrightarrow> memory t a = memory s a"
    "length ys + ntabs (memory t) d + 1 = length xs" "vmap (memory t) d = kview kdata"
proof -
  obtain d zs where x: "xs = d # zs" using assms(3) by (cases xs) auto
  define s2 where "s2 = s\<lparr>freelist := get32 (memory s) d, memory := memset d 0 PGSIZE (memory s)\<rparr>"
  note f = fresh_dir [OF assms(1) [unfolded x], folded s2_def]
  have "1024 < length zs + ntabs (memory s2) d" using assms(3) x f(4) by simp
  from kmap_ok [OF f(1,2) assms(2) this f(3)]
  obtain t ys where t: "map_kmap d (kmap kdata) s2 = Done d t" "vstep kend d s2 zs t ys" "vmap (memory t) d = kview kdata" by blast
  have d0: "d \<noteq> 0" using assms(1) page_ok_unat(4) by (auto simp: x kmem_rep_def)
  have "kalloc s = (d, s\<lparr>freelist := get32 (memory s) d\<rparr>)" using kalloc_ok(1) [OF assms(1)] by (simp add: x)
  moreover have "\<not> p2v PHYSTOP > DEVSPACE" by (simp add: p2v_def PHYSTOP_def KERNBASE_def DEVSPACE_def)
  ultimately have "setupkvm kdata s = Done d t" using d0 t(1) by (simp add: setupkvm_def Let_def s2_def)
  moreover have "memory t a = memory s a" if "\<forall>p \<in> set xs. \<not> in_page p a" for a
  proof -
    have "memory t a = memory s2 a" using t(2) that x unfolding vstep_def f(5) by auto
    also have "\<dots> = memory s a" using that x by (simp add: s2_def memset_correct in_page_def PGSIZE_def)
    finally show ?thesis .
  qed
  moreover have "pt_pages (memory t) d \<union> set ys \<subseteq> set xs" using t(2) x unfolding vstep_def f(5) by auto
  moreover have "length ys + ntabs (memory t) d + 1 = length xs" using t(2) x f(4) unfolding vstep_def by auto
  ultimately show thesis using that [of d t ys] d0 vstep_rep [OF t(2)] t(3) x by simp
qed

section \<open>Copying an address space\<close>

text \<open>
  The parent's address space: its tables and the pages of its first \<open>n\<close> pages of memory are not free. \<open>ubyte\<close> is the byte that a process
  sees at a virtual address.
\<close>

definition user_pages :: "uint \<Rightarrow> mem \<Rightarrow> uint \<Rightarrow> uint list \<Rightarrow> nat \<Rightarrow> bool" where
  "user_pages kend m p xs n \<longleftrightarrow> vspace kend m p xs \<and>
     (\<forall>i < n. \<exists>e. vmap m p (of_nat (4096 * i)) = Some e \<and> page_ok kend (p2v (PTE_ADDR e)) \<and> p2v (PTE_ADDR e) \<notin> set xs)"

definition ubyte :: "mem \<Rightarrow> uint \<Rightarrow> uint \<Rightarrow> uchar option" where
  "ubyte m d va = map_option (\<lambda>e. m (p2v (PTE_ADDR e) + (va - PGROUNDDOWN va))) (vmap m d va)"

lemma vmap_page: "unat a div 4096 = unat b div 4096 \<Longrightarrow> vmap m d a = vmap m d b"
  using same_page [of a b] by (simp add: vmap_def)

text \<open>The state after \<open>j\<close> pages were copied to the pages \<open>qs\<close>; \<open>m0\<close> and \<open>xs0\<close> are the memory and the free pages at the start.\<close>

definition page_copied :: "mem \<Rightarrow> uint \<Rightarrow> mem \<Rightarrow> uint \<Rightarrow> uint \<Rightarrow> nat \<Rightarrow> bool" where
  "page_copied m0 p m d q i \<longleftrightarrow> (\<exists>e e'. vmap m0 p (of_nat (4096 * i)) = Some e \<and> vmap m d (of_nat (4096 * i)) = Some e' \<and>
     p2v (PTE_ADDR e') = q \<and> PTE_FLAGS e' = PTE_FLAGS e \<and> (\<forall>k. unat k < 4096 \<longrightarrow> m (q + k) = m0 (p2v (PTE_ADDR e) + k)))"

definition copy_inv :: "uint \<Rightarrow> uint \<Rightarrow> mem \<Rightarrow> uint \<Rightarrow> uint list \<Rightarrow> uint \<Rightarrow> nat \<Rightarrow> 'x kmem_state_scheme \<Rightarrow> uint list \<Rightarrow> uint list \<Rightarrow> bool" where
  "copy_inv kend kdata m0 p xs0 d j s ys qs \<longleftrightarrow>
     kmem_rep kend s ys \<and> vspace kend (memory s) d ys \<and> pt_pages (memory s) d \<union> set ys \<subseteq> set xs0 \<and>
     (\<forall>a. (\<forall>x \<in> set xs0. \<not> in_page x a) \<longrightarrow> memory s a = m0 a) \<and>
     length qs = j \<and> distinct qs \<and> set qs \<subseteq> set xs0 \<and> set qs \<inter> (pt_pages (memory s) d \<union> set ys) = {} \<and>
     (\<forall>i < j. page_copied m0 p (memory s) d (qs ! i) i) \<and>
     (\<forall>b. 4096 * j \<le> unat b \<longrightarrow> vmap (memory s) d b = kview kdata b)"

text \<open>Taking the page \<open>q\<close> from the free list and filling it.\<close>

lemma take_page:
  assumes "kmem_rep kend s (q # ys)" "vspace kend (memory s) d (q # ys)" "\<forall>a. \<not> in_page q a \<longrightarrow> m a = memory s a"
  defines "t \<equiv> s\<lparr>freelist := get32 (memory s) q, memory := m\<rparr>"
  shows "kmem_rep kend t ys" "vspace kend (memory t) d ys" "vmap (memory t) d = vmap (memory s) d"
    "pt_pages (memory t) d = pt_pages (memory s) d" "ntabs (memory t) d = ntabs (memory s) d" "q \<notin> pt_pages (memory s) d"
proof -
  have q: "page_ok kend q" "q \<notin> set ys" "\<forall>y \<in> set ys. page_ok kend y" using assms(1) by (auto simp: kmem_rep_def)
  have pt: "page_ok kend p" "p \<noteq> q" if "p \<in> pt_pages (memory s) d" for p using assms(2) that by (auto simp: vspace_def)
  then show "q \<notin> pt_pages (memory s) d" by blast
  have out: "memory t a = memory s a" if "page_ok kend p" "p \<noteq> q" "in_page p a" for p a
    using assms(3) pages_disjoint [of kend p q a] that q(1) by (auto simp: t_def)
  have same: "memory s a = memory t a" if "p \<in> pt_pages (memory s) d" "in_page p a" for p a
    using out pt [OF that(1)] that(2) by simp
  have dd: "memory s a = memory t a" if "in_page d a" for a using same [of d] that by (simp add: pt_pages_def)
  show "vmap (memory t) d = vmap (memory s) d" using vmap_cong [of "memory s" d "memory t", OF same] by (intro ext) simp
  show "pt_pages (memory t) d = pt_pages (memory s) d" using pt_pages_cong(1) [of d "memory s" "memory t", OF dd] by simp
  show "ntabs (memory t) d = ntabs (memory s) d" using has_tab_cong(1) [of d "memory s" "memory t", OF dd] by (simp add: ntabs_def)
  have "vspace kend (memory t) d (q # ys)" using pt_pages_cong(2) [of d "memory s" "memory t", OF dd] assms(2) by simp
  then show "vspace kend (memory t) d ys" by (simp add: vspace_def)
  have "kmem_rep kend (s\<lparr>freelist := get32 (memory s) q\<rparr>) ys" using kalloc_ok [OF assms(1)] by simp
  then show "kmem_rep kend t ys"
  proof (rule kmem_rep_cong)
    show "memory t a = memory (s\<lparr>freelist := get32 (memory s) q\<rparr>) a" if "x \<in> set ys" "in_page x a" for x a
      using out [of x a] that q by auto
  qed (simp add: t_def)
qed

lemma v2p_aligned: "page_ok kend q \<Longrightarrow> unat (v2p q) mod 4096 = 0"
proof -
  assume q: "page_ok kend q"
  note u = page_ok_unat [OF q]
  have "unat (v2p q) = unat q - 0x80000000" using u(2) by (simp add: v2p_def KERNBASE_def unat_sub word_le_nat_alt)
  then show ?thesis using u(1) by (simp add: mod_eq_0_iff_dvd dvd_diff_nat)
qed

text \<open>The entry of the copy: the new page with the flags of the original.\<close>

lemma copy_entry:
  assumes "page_ok kend q" "pte_present e"
  shows "p2v (PTE_ADDR (or (or (v2p q) (PTE_FLAGS e)) PTE_P)) = q" "PTE_FLAGS (or (or (v2p q) (PTE_FLAGS e)) PTE_P) = PTE_FLAGS e"
proof -
  have "or (PTE_FLAGS e) PTE_P = PTE_FLAGS e"
    by (rule bit_word_eqI) (use assms(2) in \<open>auto simp: bit_or_iff PTE_FLAGS_def PTE_P_def bit_and_iff bit_1_iff present_flag\<close>)
  then have e: "or (or (v2p q) (PTE_FLAGS e)) PTE_P = or (v2p q) (PTE_FLAGS e)" by (simp add: or.assoc)
  have m: "(0xFFF :: uint) = mask 12" by (simp add: mask_eq_exp_minus_1)
  have "unat (PTE_FLAGS e) < 4096"
    unfolding PTE_FLAGS_def m by (simp add: take_bit_eq_mask [symmetric] take_bit_eq_mod unat_mod)
  note p = pte_parts [OF v2p_aligned [OF assms(1)] this]
  show "p2v (PTE_ADDR (or (or (v2p q) (PTE_FLAGS e)) PTE_P)) = q" unfolding e p(1) by (simp add: p2v_def v2p_def)
  show "PTE_FLAGS (or (or (v2p q) (PTE_FLAGS e)) PTE_P) = PTE_FLAGS e" unfolding e p(2) ..
qed

lemma page_copied_mono:
  assumes "page_copied m0 p m d q i" "vmap m' d (of_nat (4096 * i)) = vmap m d (of_nat (4096 * i))" "\<And>a. in_page q a \<Longrightarrow> m' a = m a"
  shows "page_copied m0 p m' d q i"
proof -
  have "in_page q (q + k)" if "unat k < 4096" for k using that by (simp add: in_page_def)
  then show ?thesis using assms unfolding page_copied_def by metis
qed

lemma copyuvm_loop_page:
  assumes "walkpgdir p i False s = (sl, s)" "sl \<noteq> 0" "get32 (memory s) sl = e" "pte_present e" "kalloc s = (q, u)" "q \<noteq> 0"
    "mappages d i PGSIZE (v2p q) (PTE_FLAGS e) (u\<lparr>memory := memmove q (p2v (PTE_ADDR e)) PGSIZE (memory u)\<rparr>) = Done 0 t"
  shows "copyuvm_loop (Suc k) kend d p i s = copyuvm_loop k kend d p (i + PGSIZE) t"
  using assms by (simp add: Let_def)

lemma copyuvm_step:
  assumes inv: "copy_inv kend kdata m0 p xs0 d j s ys qs" and user: "user_pages kend m0 p xs0 n" and j: "j < n" "4096 * Suc j \<le> 0x80000000"
    and kd: "kdata_ok kdata" and room: "1025 < length ys + ntabs (memory s) d" and xs0: "\<forall>x \<in> set xs0. page_ok kend x"
  obtains t zs q where "copyuvm_loop (Suc k) kend d p (of_nat (4096 * j)) s = copyuvm_loop k kend d p (of_nat (4096 * Suc j)) t"
    "copy_inv kend kdata m0 p xs0 d (Suc j) t zs (qs @ [q])" "length zs + ntabs (memory t) d + 1 = length ys + ntabs (memory s) d"
proof -
  let ?i = "of_nat (4096 * j) :: uint"
  have ui: "unat ?i = 4096 * j" using j(2) by (intro unat_of_nat32) simp
  from inv have rep: "kmem_rep kend s ys" and vs: "vspace kend (memory s) d ys" and sub: "pt_pages (memory s) d \<union> set ys \<subseteq> set xs0"
    and fr: "\<forall>a. (\<forall>x \<in> set xs0. \<not> in_page x a) \<longrightarrow> memory s a = m0 a" and qs: "length qs = j" "distinct qs" "set qs \<subseteq> set xs0"
      "set qs \<inter> (pt_pages (memory s) d \<union> set ys) = {}"
    and cp: "\<forall>i < j. page_copied m0 p (memory s) d (qs ! i) i" and kv: "\<forall>b. 4096 * j \<le> unat b \<longrightarrow> vmap (memory s) d b = kview kdata b"
    unfolding copy_inv_def by blast+
  obtain e where e: "vmap m0 p ?i = Some e" "page_ok kend (p2v (PTE_ADDR e))" "p2v (PTE_ADDR e) \<notin> set xs0"
    using user j(1) unfolding user_pages_def by blast
  have old: "memory s a = m0 a" if "page_ok kend x" "x \<notin> set xs0" "in_page x a" for x a
    using fr pages_disjoint [of kend x _ a] that xs0 by blast
  have vp: "vspace kend m0 p xs0" using user by (simp add: user_pages_def)
  have ptp: "m0 a = memory s a" if "x \<in> pt_pages m0 p" "in_page x a" for x a using old [of x a] vp that unfolding vspace_def by metis
  have pp: "m0 a = memory s a" if "in_page p a" for a using ptp [of p a] that by (simp add: pt_pages_def)
  have vs0: "vspace kend (memory s) p xs0" using pt_pages_cong(2) [of p m0 "memory s", OF pp] vp by simp
  have vme: "vmap (memory s) p ?i = Some e" using vmap_cong [of m0 p "memory s", OF ptp] e(1) by simp
  then have ht: "has_tab (memory s) p (PDX ?i)" and ge: "get32 (memory s) (pte_slot (memory s) p ?i) = e" and pe: "pte_present e"
    unfolding vmap_def pte_slot_def by (auto simp: Let_def split: if_splits)
  have w: "walkpgdir p ?i False s = (pte_slot (memory s) p ?i, s)" "pte_slot (memory s) p ?i \<noteq> 0"
    using walkpgdir_found [OF ht] pte_slot_nonzero [OF vs0 ht] by blast+
  have "ys \<noteq> []" using room ntabs_le [of "memory s" d] by auto
  then obtain q y1 where ys: "ys = q # y1" by (cases ys) auto
  have q: "page_ok kend q" "q \<in> set xs0" "q \<notin> set y1" "q \<noteq> 0" using rep sub ys page_ok_unat(4) [of kend q] by (auto simp: kmem_rep_def)
  define m where "m = memmove q (p2v (PTE_ADDR e)) PGSIZE (memory s)"
  have meq: "m = (\<lambda>a. if in_page q a then memory s (p2v (PTE_ADDR e) + (a - q)) else memory s a)"
    unfolding m_def in_page_def using page_ok_unat(3) [OF q(1)] page_ok_unat(3) [OF e(2)]
    by (subst memmove_eq) (simp_all add: PGSIZE_def)
  define s3 where "s3 = s\<lparr>freelist := get32 (memory s) q, memory := m\<rparr>"
  have "\<forall>a. \<not> in_page q a \<longrightarrow> m a = memory s a" by (simp add: meq)
  note tk = take_page [OF rep [unfolded ys] vs [unfolded ys] this, folded s3_def]
  have r3: "1024 < length y1 + ntabs (memory s3) d" using room ys tk(5) by simp
  have i4: "unat ?i + unat PGSIZE \<le> 4294967296" "unat ?i mod 4096 = 0" using j(2) unfolding ui by (simp_all add: PGSIZE_def)
  have none: "vmap (memory s3) d b = None" if "unat ?i \<le> unat b" "unat b < unat ?i + unat PGSIZE" for b
    using kv kview_low [OF kd, of b] that j(2) unfolding tk(3) ui by (simp add: PGSIZE_def)
  obtain t zs where t: "mappages d ?i PGSIZE (v2p q) (PTE_FLAGS e) s3 = Done 0 t" "vstep kend d s3 y1 t zs"
      "vmap (memory t) d = map_range (vmap (memory s) d) ?i 1 (v2p q) (PTE_FLAGS e)"
    using mappages_fresh [OF tk(1,2) _ i4 _ r3 none, of "v2p q" "PTE_FLAGS e"] unfolding tk(3) by (auto simp: PGSIZE_def)
  have ka: "kalloc s = (q, s\<lparr>freelist := get32 (memory s) q\<rparr>)" using kalloc_ok(1) [OF rep] by (simp add: ys)
  have nxt: "?i + PGSIZE = of_nat (4096 * Suc j)" by (simp add: PGSIZE_def)
  have 1: "copyuvm_loop (Suc k) kend d p ?i s = copyuvm_loop k kend d p (of_nat (4096 * Suc j)) t"
    unfolding nxt [symmetric] using t(1) by (intro copyuvm_loop_page [OF w ge pe ka q(4)]) (simp add: s3_def m_def)
  have q3: "q \<notin> pt_pages (memory s3) d \<union> set y1" using tk(4,6) q(3) by simp
  have pts: "pt_pages (memory t) d \<union> set zs \<subseteq> pt_pages (memory s) d \<union> set y1" using t(2) unfolding vstep_def tk(4) by blast
  have out: "memory t a = memory s3 a" if "x \<notin> pt_pages (memory s) d \<union> set y1" "page_ok kend x" "in_page x a" for x a
  proof -
    have "\<not> in_page y a" if "y \<in> pt_pages (memory s3) d \<union> set y1" for y
    proof -
      have "y \<in> pt_pages (memory s) d \<union> set y1" using that tk(4) by simp
      moreover have "page_ok kend y" using calculation vs rep ys by (auto simp: vspace_def kmem_rep_def)
      ultimately show ?thesis using pages_disjoint [of kend x y a] \<open>page_ok kend x\<close> \<open>in_page x a\<close> \<open>x \<notin> pt_pages (memory s) d \<union> set y1\<close> by blast
    qed
    then show ?thesis using t(2) unfolding vstep_def by blast
  qed
  have s3q: "memory s3 a = (if in_page q a then m0 (p2v (PTE_ADDR e) + (a - q)) else memory s a)" for a
  proof -
    have "memory s (p2v (PTE_ADDR e) + (a - q)) = m0 (p2v (PTE_ADDR e) + (a - q))" if "in_page q a"
      using that by (intro old [OF e(2,3)]) (simp add: in_page_def)
    then show ?thesis by (simp add: s3_def meq)
  qed
  show thesis
  proof (rule that [OF 1])
    show "length zs + ntabs (memory t) d + 1 = length ys + ntabs (memory s) d" using t(2) tk(5) ys unfolding vstep_def by simp
    have new: "page_copied m0 p (memory t) d q j"
    proof -
      have "vmap (memory t) d ?i = Some (or (or (v2p q) (PTE_FLAGS e)) PTE_P)"
        using PGROUNDDOWN_page [OF i4(2), of ?i] unfolding t(3) by (simp add: map_range_def)
      moreover have "memory t (q + o') = m0 (p2v (PTE_ADDR e) + o')" if "unat o' < 4096" for o'
        using out [of q "q + o'"] q3 q(1) that s3q [of "q + o'"] unfolding tk(4) by (simp add: in_page_def)
      ultimately show ?thesis unfolding page_copied_def using e(1) copy_entry [OF q(1) pe] by blast
    qed
    have olds: "page_copied m0 p (memory t) d (qs ! i) i" if "i < j" for i
    proof (rule page_copied_mono [of m0 p "memory s"])
      show "page_copied m0 p (memory s) d (qs ! i) i" using cp that by blast
      have "unat (of_nat (4096 * i) :: uint) = 4096 * i" using that j(2) by (intro unat_of_nat32) simp
      then show "vmap (memory t) d (of_nat (4096 * i)) = vmap (memory s) d (of_nat (4096 * i))" unfolding t(3) map_range_def ui using that by simp
      have x: "qs ! i \<in> set qs" using that qs(1) by simp
      have "qs ! i \<noteq> q" "page_ok kend (qs ! i)" using x qs(3,4) ys xs0 by auto
      moreover have "qs ! i \<notin> pt_pages (memory s) d \<union> set y1" using x qs(4) ys by auto
      ultimately show "memory t a = memory s a" if "in_page (qs ! i) a" for a
        using out [OF _ _ that] s3q [of a] pages_disjoint [of kend "qs ! i" q a] q(1) that by auto
    qed
    show "copy_inv kend kdata m0 p xs0 d (Suc j) t zs (qs @ [q])" unfolding copy_inv_def
    proof (intro conjI allI impI)
      show "kmem_rep kend t zs" "vspace kend (memory t) d zs" using vstep_rep [OF t(2)] .
      show "pt_pages (memory t) d \<union> set zs \<subseteq> set xs0" using pts sub ys by auto
      show "memory t a = m0 a" if "\<forall>x \<in> set xs0. \<not> in_page x a" for a
      proof -
        have "pt_pages (memory s3) d \<union> set y1 \<subseteq> set xs0" using sub ys tk(4) by auto
        then have "memory t a = memory s3 a" using t(2) that unfolding vstep_def by blast
        then show ?thesis using s3q [of a] that q(2) fr by simp
      qed
      show "length (qs @ [q]) = Suc j" "set (qs @ [q]) \<subseteq> set xs0" using qs q(2) by simp_all
      show "distinct (qs @ [q])" using qs(2,4) ys by auto
      show "set (qs @ [q]) \<inter> (pt_pages (memory t) d \<union> set zs) = {}" using pts q3 qs(4) ys tk(4) by auto
      show "page_copied m0 p (memory t) d ((qs @ [q]) ! i) i" if "i < Suc j" for i
        using that olds [of i] new qs(1) by (cases "i = j") (simp_all add: nth_append)
      show "vmap (memory t) d b = kview kdata b" if "4096 * Suc j \<le> unat b" for b
        using that kv unfolding t(3) map_range_def ui by simp
    qed
  qed
qed

lemma copyuvm_loop_ok:
  assumes "copy_inv kend kdata m0 p xs0 d j s ys qs" "user_pages kend m0 p xs0 n" "j + k = n" "4096 * n \<le> 0x80000000"
    "kdata_ok kdata" "k + 1024 < length ys + ntabs (memory s) d" "\<forall>x \<in> set xs0. page_ok kend x"
  shows "\<exists>t zs qs'. copyuvm_loop k kend d p (of_nat (4096 * j)) s = Done d t \<and> copy_inv kend kdata m0 p xs0 d n t zs qs'"
  using assms
proof (induction k arbitrary: j s ys qs)
  case 0
  then show ?case by auto
next
  case (Suc k)
  have "j < n" "4096 * Suc j \<le> 0x80000000" "1025 < length ys + ntabs (memory s) d" using Suc.prems by auto
  from copyuvm_step [OF Suc.prems(1,2) this(1,2) Suc.prems(5) this(3) Suc.prems(7), of k]
  obtain t zs q where t: "copyuvm_loop (Suc k) kend d p (of_nat (4096 * j)) s = copyuvm_loop k kend d p (of_nat (4096 * Suc j)) t"
    "copy_inv kend kdata m0 p xs0 d (Suc j) t zs (qs @ [q])" "length zs + ntabs (memory t) d + 1 = length ys + ntabs (memory s) d" by blast
  show ?case unfolding t(1) using Suc.prems t(3) by (intro Suc.IH [OF t(2)]) auto
qed

lemma page_index:
  assumes "unat va < 4096 * n" "4096 * n \<le> 0x80000000"
  shows "unat va div 4096 < n" "unat (of_nat (4096 * (unat va div 4096)) :: uint) div 4096 = unat va div 4096"
    "unat (va - PGROUNDDOWN va) < 4096"
proof -
  show n: "unat va div 4096 < n" using assms(1) by (simp add: less_mult_imp_div_less mult.commute)
  then have "4096 * (unat va div 4096) < 4294967296" using assms(2) by linarith
  then show "unat (of_nat (4096 * (unat va div 4096)) :: uint) div 4096 = unat va div 4096" by (simp only: unat_of_nat32 nonzero_mult_div_cancel_left)
  have "unat (va - PGROUNDDOWN va) = unat va - unat va div 4096 * 4096"
    by (subst unat_sub) (simp_all add: word_le_nat_alt unat_PGROUNDDOWN)
  also have "\<dots> = unat va mod 4096" by (simp add: minus_div_mult_eq_mod)
  finally show "unat (va - PGROUNDDOWN va) < 4096" by simp
qed

text \<open>What the copied pages mean for the bytes that the two processes see.\<close>

lemma copied_bytes:
  assumes "copy_inv kend kdata m0 p xs0 d n t zs qs" "user_pages kend m0 p xs0 n" "unat va < 4096 * n" "4096 * n \<le> 0x80000000"
    "\<forall>x \<in> set xs0. page_ok kend x"
  obtains e e' where "vmap m0 p va = Some e" "vmap (memory t) p va = Some e" "vmap (memory t) d va = Some e'"
    "p2v (PTE_ADDR e') = qs ! (unat va div 4096)" "PTE_FLAGS e' = PTE_FLAGS e" "p2v (PTE_ADDR e) \<notin> set xs0"
    "ubyte (memory t) d va = ubyte m0 p va" "ubyte (memory t) p va = ubyte m0 p va"
proof -
  let ?i = "unat va div 4096" and ?o = "va - PGROUNDDOWN va"
  note i = page_index [OF assms(3,4)]
  have fr: "memory t a = m0 a" if "page_ok kend x" "x \<notin> set xs0" "in_page x a" for x a
    using assms(1,5) pages_disjoint [of kend x _ a] that unfolding copy_inv_def by blast
  have pg: "vmap m x va = vmap m x (of_nat (4096 * ?i))" for m x using i(2) by (intro vmap_page) simp
  have "page_copied m0 p (memory t) d (qs ! ?i) ?i" using assms(1) i(1) unfolding copy_inv_def by blast
  then obtain e e' where e: "vmap m0 p va = Some e" "vmap (memory t) d va = Some e'" "p2v (PTE_ADDR e') = qs ! ?i" "PTE_FLAGS e' = PTE_FLAGS e"
      "memory t (qs ! ?i + ?o) = m0 (p2v (PTE_ADDR e) + ?o)"
    using i(3) unfolding page_copied_def pg by blast
  have u: "page_ok kend (p2v (PTE_ADDR e))" "p2v (PTE_ADDR e) \<notin> set xs0"
    using assms(2) i(1) e(1) unfolding user_pages_def pg by force+
  have "m0 a = memory t a" if "x \<in> pt_pages m0 p" "in_page x a" for x a
    using fr [of x a] assms(2) that unfolding user_pages_def vspace_def by metis
  then have pm: "vmap (memory t) p va = Some e" using vmap_cong [of m0 p "memory t" va] e(1) by simp
  have "in_page (p2v (PTE_ADDR e)) (p2v (PTE_ADDR e) + ?o)" using i(3) by (simp add: in_page_def)
  then have "ubyte (memory t) p va = ubyte m0 p va" using fr [OF u] by (simp add: ubyte_def pm e(1))
  moreover have "ubyte (memory t) d va = ubyte m0 p va" by (simp add: ubyte_def e)
  ultimately show thesis using that e(1-4) pm u(2) by blast
qed

text \<open>
  C13. copyuvm, with which fork makes the memory of the child, returns a new address space when the pages it may need are free. In it every address
  of the parent's memory has the byte and the access flags that the parent has there, no page is shared between the parent and the child or by
  two pages of the child, above the copied memory there is exactly the kernel's mapping, and the parent sees what it saw before.
\<close>

theorem copyuvm_copies:
  assumes "kmem_rep kend s xs" and "user_pages kend (memory s) pgdir xs n" and "n = (unat sz + 4095) div 4096" and "sz \<le> KERNBASE"
    and "kdata_ok kdata" and "n + 1025 < length xs"
  shows "\<exists>d t. copyuvm kend kdata pgdir sz s = Done d t \<and> d \<noteq> 0 \<and>
    (\<forall>va. unat va < 4096 * n \<longrightarrow>
      ubyte (memory t) d va = ubyte (memory s) pgdir va \<and> ubyte (memory t) pgdir va = ubyte (memory s) pgdir va \<and>
      map_option PTE_FLAGS (vmap (memory t) d va) = map_option PTE_FLAGS (vmap (memory s) pgdir va)) \<and>
    (\<forall>va vb. unat va < 4096 * n \<longrightarrow> unat vb < 4096 * n \<longrightarrow>
      map_option PTE_ADDR (vmap (memory t) d va) \<noteq> map_option PTE_ADDR (vmap (memory t) pgdir vb) \<and>
      (unat va div 4096 \<noteq> unat vb div 4096 \<longrightarrow> map_option PTE_ADDR (vmap (memory t) d va) \<noteq> map_option PTE_ADDR (vmap (memory t) d vb))) \<and>
    (\<forall>va. 4096 * n \<le> unat va \<longrightarrow> vmap (memory t) d va = kview kdata va)"
proof -
  have ok: "\<forall>x \<in> set xs. page_ok kend x" using assms(1) by (simp add: kmem_rep_def)
  have sz: "unat sz \<le> 0x80000000" using assms(4) by (simp add: KERNBASE_def word_le_nat_alt)
  have "n \<le> (0x80000000 + 4095) div 4096" unfolding assms(3) using sz by (intro div_le_mono) simp
  then have n: "4096 * n \<le> 0x80000000" by simp
  have "1025 < length xs" using assms(6) by simp
  from setupkvm_ok [OF assms(1,5) this] obtain d u ys where u: "setupkvm kdata s = Done d u" "d \<noteq> 0" "kmem_rep kend u ys"
    "vspace kend (memory u) d ys" "pt_pages (memory u) d \<union> set ys \<subseteq> set xs" "\<And>a. (\<forall>p \<in> set xs. \<not> in_page p a) \<Longrightarrow> memory u a = memory s a"
    "length ys + ntabs (memory u) d + 1 = length xs" "vmap (memory u) d = kview kdata" by metis
  have "copy_inv kend kdata (memory s) pgdir xs d 0 u ys []" unfolding copy_inv_def using u(3-6,8) by simp
  from copyuvm_loop_ok [OF this assms(2) _ n assms(5) _ ok, of n] u(7) assms(6)
  obtain t zs qs where t: "copyuvm_loop n kend d pgdir (of_nat (4096 * 0)) u = Done d t" "copy_inv kend kdata (memory s) pgdir xs d n t zs qs" by auto
  have "copyuvm kend kdata pgdir sz s = Done d t" using u(1,2) t(1) by (simp add: copyuvm_def assms(3))
  moreover have qs: "qs ! i \<in> set xs" "i' < n \<Longrightarrow> i \<noteq> i' \<Longrightarrow> qs ! i \<noteq> qs ! i'" if "i < n" for i i'
    using t(2) that unfolding copy_inv_def by (auto simp: nth_eq_iff_index_eq)
  have "map_option PTE_ADDR (vmap (memory t) d va) \<noteq> map_option PTE_ADDR (vmap (memory t) pgdir vb) \<and>
      (unat va div 4096 \<noteq> unat vb div 4096 \<longrightarrow> map_option PTE_ADDR (vmap (memory t) d va) \<noteq> map_option PTE_ADDR (vmap (memory t) d vb))"
    if a: "unat va < 4096 * n" "unat vb < 4096 * n" for va vb
  proof -
    obtain e e' where 1: "vmap (memory t) d va = Some e'" "p2v (PTE_ADDR e') = qs ! (unat va div 4096)"
      using copied_bytes [OF t(2) assms(2) a(1) n ok] by blast
    obtain f f' where 2: "vmap (memory t) pgdir vb = Some f" "vmap (memory t) d vb = Some f'"
        "p2v (PTE_ADDR f') = qs ! (unat vb div 4096)" "p2v (PTE_ADDR f) \<notin> set xs"
      using copied_bytes [OF t(2) assms(2) a(2) n ok] by blast
    note i = page_index(1) [OF a(1) n] page_index(1) [OF a(2) n]
    have "PTE_ADDR e' \<noteq> PTE_ADDR f" using 1(2) 2(4) qs(1) [OF i(1)] by metis
    moreover have "PTE_ADDR e' \<noteq> PTE_ADDR f'" if "unat va div 4096 \<noteq> unat vb div 4096" using 1(2) 2(3) qs(2) [OF i that] by metis
    ultimately show ?thesis using 1(1) 2(1,2) by simp
  qed
  moreover have "ubyte (memory t) d va = ubyte (memory s) pgdir va \<and> ubyte (memory t) pgdir va = ubyte (memory s) pgdir va \<and>
      map_option PTE_FLAGS (vmap (memory t) d va) = map_option PTE_FLAGS (vmap (memory s) pgdir va)" if "unat va < 4096 * n" for va
    using copied_bytes [OF t(2) assms(2) that n ok] by (metis option.simps(9))
  moreover have "\<forall>va. 4096 * n \<le> unat va \<longrightarrow> vmap (memory t) d va = kview kdata va" using t(2) unfolding copy_inv_def by blast
  ultimately show ?thesis using u(2) by blast
qed

text \<open>A parent with one page of memory, made by the operations themselves from a pool of 2100 free pages.\<close>

lemma user_sample:
  "\<exists>(s :: kmem_state) xs p. kmem_rep 0x80100000 s xs \<and> user_pages 0x80100000 (memory s) p xs 1 \<and> 1026 < length xs"
proof -
  let ?k = "0x80100000 :: uint" and ?kd = "0x80108000 :: uint"
  have kd: "kdata_ok ?kd" by (simp add: kdata_ok_def KERNLINK_def KERNBASE_def EXTMEM_def word_less_nat_alt)
  have "kmem_rep ?k (one_free_page\<lparr>freelist := 0\<rparr>) []" by (simp add: kmem_rep_def)
  from freerange_loop_ok [OF this, of "0x80400000" "0x80C34000" 2100 0]
  obtain s0 :: kmem_state where s0: "kmem_rep ?k s0 (rev (pages 0x80400000 2100))" by (auto simp: word_le_nat_alt)
  have "1025 < length (rev (pages 0x80400000 2100))" by (simp add: pages_def)
  from setupkvm_ok [OF s0 kd this] obtain p and t :: kmem_state and ys where t: "kmem_rep ?k t ys" "vspace ?k (memory t) p ys"
      "length ys + ntabs (memory t) p + 1 = 2100" "vmap (memory t) p = kview ?kd" by (simp add: pages_def) metis
  have "ys \<noteq> []" using t(3) ntabs_le [of "memory t" p] by auto
  then obtain q zs where ys: "ys = q # zs" by (cases ys) auto
  define s3 where "s3 = t\<lparr>freelist := get32 (memory t) q, memory := memory t\<rparr>"
  have "\<forall>a. \<not> in_page q a \<longrightarrow> memory t a = memory t a" by simp
  note tk = take_page [OF t(1,2) [unfolded ys] this, folded s3_def]
  have q: "page_ok ?k q" "q \<notin> set zs" using t(1) ys by (auto simp: kmem_rep_def)
  have r: "1024 < length zs + ntabs (memory s3) p" using t(3) ys tk(5) by simp
  have z: "unat (0 :: uint) + unat PGSIZE \<le> 4294967296" "unat (0 :: uint) mod 4096 = 0" "0 < unat PGSIZE" "unat PGSIZE mod 4096 = 0" "unat PGSIZE div 4096 = 1"
    by (simp_all add: PGSIZE_def)
  have none: "vmap (memory s3) p b = None" if "unat (0 :: uint) \<le> unat b" "unat b < unat (0 :: uint) + unat PGSIZE" for b
    using kview_low [OF kd, of b] that unfolding tk(3) t(4) by (simp add: PGSIZE_def)
  obtain u ws where u: "vstep ?k p s3 zs u ws" "vmap (memory u) p = map_range (vmap (memory t) p) 0 1 (v2p q) 6"
    using mappages_fresh [OF tk(1,2) z(3) z(1,2,4) r none, of "v2p q" 6] unfolding tk(3) z(5) by blast
  have "vmap (memory u) p 0 = Some (or (v2p q) 7)" unfolding u(2) by (simp add: map_range_def PGROUNDDOWN_def PTE_P_def or.assoc)
  moreover have "p2v (PTE_ADDR (or (v2p q) 7)) = q" using pte_parts(1) [OF v2p_aligned [OF q(1)], of 7] by (simp add: p2v_def v2p_def)
  moreover have "q \<notin> set ws" using u(1) q(2) tk(4,6) unfolding vstep_def by blast
  ultimately have "user_pages ?k (memory u) p ws 1" using vstep_rep [OF u(1)] q(1) by (simp add: user_pages_def)
  moreover have "1026 < length ws" using u(1) t(3) ys tk(5) ntabs_le [of "memory u" p] unfolding vstep_def by auto
  ultimately show ?thesis using vstep_rep(1) [OF u(1)] by blast
qed

theorem copyuvm_copies_witness:
  "\<exists>(s :: kmem_state) xs p d t. kmem_rep 0x80100000 s xs \<and> user_pages 0x80100000 (memory s) p xs 1 \<and>
     copyuvm 0x80100000 0x80108000 p 4096 s = Done d t \<and> d \<noteq> 0 \<and> ubyte (memory t) d 5 = ubyte (memory s) p 5"
proof -
  obtain s :: kmem_state and xs p where s: "kmem_rep 0x80100000 s xs" "user_pages 0x80100000 (memory s) p xs 1" "1 + 1025 < length xs"
    using user_sample by auto
  have "(1 :: nat) = (unat (4096 :: uint) + 4095) div 4096" "(4096 :: uint) \<le> KERNBASE" by (simp_all add: KERNBASE_def)
  moreover have "kdata_ok 0x80108000" by (simp add: kdata_ok_def KERNLINK_def KERNBASE_def EXTMEM_def word_less_nat_alt)
  ultimately obtain d t where "copyuvm 0x80100000 0x80108000 p 4096 s = Done d t" "d \<noteq> 0" "ubyte (memory t) d 5 = ubyte (memory s) p 5"
    using copyuvm_copies [OF s(1,2) _ _ _ s(3), of 4096 "0x80108000"] by auto
  then show ?thesis using s(1,2) by blast
qed

end
