(* ===== verification/Seg.thy ===== *)
theory Seg
  imports Trap
begin

text \<open>
  Segment and gate descriptors (mmu.h), the tables that seginit and switchuvm (vm.c) and tvinit (trap.c) fill with them, and the
  pseudo-descriptors of lgdt and lidt (x86.h). The fields of a descriptor are words of their width, so that storing into one truncates as a C
  bit field does. What the processor reads from a descriptor is defined separately and compared with what the kernel meant.
\<close>

section \<open>Segments\<close>

record segdesc =
  lim_15_0 :: "16 word"
  base_15_0 :: "16 word"
  base_23_16 :: "8 word"
  sd_type :: "4 word"
  sd_s :: bool
  sd_dpl :: "2 word"
  sd_p :: bool
  lim_19_16 :: "4 word"
  sd_avl :: bool
  sd_rsv1 :: bool
  sd_db :: bool
  sd_g :: bool
  base_31_24 :: "8 word"

definition SEG :: "4 word \<Rightarrow> uint \<Rightarrow> uint \<Rightarrow> 2 word \<Rightarrow> segdesc" where
  "SEG ty base lim dpl = \<lparr>lim_15_0 = ucast (and (drop_bit 12 lim) 0xffff), base_15_0 = ucast (and base 0xffff),
     base_23_16 = ucast (and (drop_bit 16 base) 0xff), sd_type = ty, sd_s = True, sd_dpl = dpl, sd_p = True,
     lim_19_16 = ucast (drop_bit 28 lim), sd_avl = False, sd_rsv1 = False, sd_db = True, sd_g = True, base_31_24 = ucast (drop_bit 24 base)\<rparr>"

definition SEG16 :: "4 word \<Rightarrow> uint \<Rightarrow> uint \<Rightarrow> 2 word \<Rightarrow> segdesc" where
  "SEG16 ty base lim dpl = \<lparr>lim_15_0 = ucast (and lim 0xffff), base_15_0 = ucast (and base 0xffff),
     base_23_16 = ucast (and (drop_bit 16 base) 0xff), sd_type = ty, sd_s = True, sd_dpl = dpl, sd_p = True,
     lim_19_16 = ucast (drop_bit 16 lim), sd_avl = False, sd_rsv1 = False, sd_db = True, sd_g = False, base_31_24 = ucast (drop_bit 24 base)\<rparr>"

definition SEG_KCODE :: nat where "SEG_KCODE = 1"
definition SEG_KDATA :: nat where "SEG_KDATA = 2"
definition SEG_KCPU :: nat where "SEG_KCPU = 3"
definition SEG_UCODE :: nat where "SEG_UCODE = 4"
definition SEG_UDATA :: nat where "SEG_UDATA = 5"
definition SEG_TSS :: nat where "SEG_TSS = 6"

definition DPL_USER :: "2 word" where "DPL_USER = 3"
definition STA_X :: "4 word" where "STA_X = 8"
definition STA_W :: "4 word" where "STA_W = 2"
definition STA_R :: "4 word" where "STA_R = 2"
definition STS_T32A :: "4 word" where "STS_T32A = 9"
definition STS_IG32 :: "4 word" where "STS_IG32 = 0xE"
definition STS_TG32 :: "4 word" where "STS_TG32 = 0xF"

record taskstate =
  ts_link :: uint
  ts_esp0 :: uint
  ts_ss0 :: ushort
  ts_padding1 :: ushort
  ts_esp1 :: uint
  ts_ss1 :: ushort
  ts_padding2 :: ushort
  ts_esp2 :: uint
  ts_ss2 :: ushort
  ts_padding3 :: ushort
  ts_cr3 :: uint
  ts_eip :: uint
  ts_eflags :: uint
  ts_eax :: uint
  ts_ecx :: uint
  ts_edx :: uint
  ts_ebx :: uint
  ts_esp :: uint
  ts_ebp :: uint
  ts_esi :: uint
  ts_edi :: uint
  ts_es :: ushort
  ts_padding4 :: ushort
  ts_cs :: ushort
  ts_padding5 :: ushort
  ts_ss :: ushort
  ts_padding6 :: ushort
  ts_ds :: ushort
  ts_padding7 :: ushort
  ts_fs :: ushort
  ts_padding8 :: ushort
  ts_gs :: ushort
  ts_padding9 :: ushort
  ts_ldt :: ushort
  ts_padding10 :: ushort
  ts_t :: ushort
  ts_iomb :: ushort

definition sizeof_taskstate :: uint where "sizeof_taskstate = 104"

text \<open>\<open>cpu_fld\<close> is the address of the field cpu of the processor's structure; \<open>ts_adr\<close> that of its task state.\<close>

definition seginit :: "uint \<Rightarrow> segdesc list \<Rightarrow> segdesc list" where
  "seginit cpu_fld gdt = gdt[SEG_KCODE := SEG (or STA_X STA_R) 0 0xffffffff 0, SEG_KDATA := SEG STA_W 0 0xffffffff 0,
     SEG_UCODE := SEG (or STA_X STA_R) 0 0xffffffff DPL_USER, SEG_UDATA := SEG STA_W 0 0xffffffff DPL_USER,
     SEG_KCPU := SEG STA_W cpu_fld 8 0]"

definition load_tss :: "uint \<Rightarrow> uint \<Rightarrow> segdesc list \<Rightarrow> taskstate \<Rightarrow> segdesc list \<times> taskstate" where
  "load_tss ts_adr kstack gdt ts =
     (gdt[SEG_TSS := (SEG16 STS_T32A ts_adr (sizeof_taskstate - 1) 0)\<lparr>sd_s := False\<rparr>],
      ts\<lparr>ts_ss0 := of_nat (SEG_KDATA * 8), ts_esp0 := kstack + KSTACKSIZE\<rparr>)"

section \<open>Gates\<close>

record gatedesc =
  off_15_0 :: "16 word"
  gd_cs :: "16 word"
  gd_args :: "5 word"
  gd_rsv1 :: "3 word"
  gd_type :: "4 word"
  gd_s :: bool
  gd_dpl :: "2 word"
  gd_p :: bool
  off_31_16 :: "16 word"

definition SETGATE :: "bool \<Rightarrow> nat \<Rightarrow> uint \<Rightarrow> 2 word \<Rightarrow> gatedesc" where
  "SETGATE istrap sel off d = \<lparr>off_15_0 = ucast (and off 0xffff), gd_cs = of_nat sel, gd_args = 0, gd_rsv1 = 0,
     gd_type = (if istrap then STS_TG32 else STS_IG32), gd_s = False, gd_dpl = d, gd_p = True, off_31_16 = ucast (drop_bit 16 off)\<rparr>"

definition tvinit :: "(nat \<Rightarrow> uint) \<Rightarrow> gatedesc list" where
  "tvinit vectors = (map (\<lambda>i. SETGATE False (SEG_KCODE * 8) (vectors i) 0) [0..<256])
     [unat T_SYSCALL := SETGATE True (SEG_KCODE * 8) (vectors (unat T_SYSCALL)) DPL_USER]"

text \<open>The three words that lgdt and lidt load: the limit and the address of the table.\<close>

definition pseudo_desc :: "uint \<Rightarrow> uint \<Rightarrow> ushort list" where
  "pseudo_desc p sz = [ucast (sz - 1), ucast p, ucast (drop_bit 16 p)]"

definition idtinit :: "uint \<Rightarrow> ushort list" where
  "idtinit idt = pseudo_desc idt (256 * 8)"

section \<open>What the processor reads\<close>

definition seg_base :: "segdesc \<Rightarrow> uint" where
  "seg_base d = or (or (ucast (base_15_0 d)) (push_bit 16 (ucast (base_23_16 d)))) (push_bit 24 (ucast (base_31_24 d)))"

definition seg_limit :: "segdesc \<Rightarrow> uint" where
  "seg_limit d = (let l = or (ucast (lim_15_0 d)) (push_bit 16 (ucast (lim_19_16 d)))
     in if sd_g d then or (push_bit 12 l) 0xfff else l)"

definition gate_off :: "gatedesc \<Rightarrow> uint" where
  "gate_off g = or (ucast (off_15_0 g)) (push_bit 16 (ucast (off_31_16 g)))"

text \<open>An int instruction at privilege level \<open>cpl\<close> may use a gate of that level or a less privileged one; an interrupt gate disables interrupts.\<close>

definition int_allowed :: "nat \<Rightarrow> gatedesc \<Rightarrow> bool" where
  "int_allowed cpl g \<longleftrightarrow> gd_p g \<and> cpl \<le> unat (gd_dpl g)"

definition clears_IF :: "gatedesc \<Rightarrow> bool" where
  "clears_IF g \<longleftrightarrow> gd_type g = STS_IG32"

lemma seg_base_SEG: "seg_base (SEG ty base lim dpl) = base" "seg_base (SEG16 ty base lim dpl) = base"
proof -
  have m: "(0xffff :: uint) = mask 16" "(0xff :: uint) = mask 8" by (simp_all add: mask_eq_exp_minus_1)
  have "seg_base (SEG ty base lim dpl) = base"
  proof (rule bit_word_eqI)
    fix n assume n: "n < LENGTH(32)"
    consider "n < 16" | "16 \<le> n" "n < 24" | "24 \<le> n" by linarith
    then show "bit (seg_base (SEG ty base lim dpl)) n = bit base n"
      using n unfolding seg_base_def SEG_def segdesc.simps m
      by cases (auto simp: bit_or_iff bit_push_bit_iff bit_and_iff bit_ucast_iff bit_drop_bit_eq bit_mask_iff less_diff_conv2)
  qed
  moreover have "seg_base (SEG16 ty base lim dpl) = seg_base (SEG ty base lim dpl)" by (simp add: seg_base_def SEG_def SEG16_def)
  ultimately show "seg_base (SEG ty base lim dpl) = base" "seg_base (SEG16 ty base lim dpl) = base" by simp_all
qed

lemma seg_limit_SEG: "seg_limit (SEG ty base lim dpl) = or lim 0xfff"
proof (rule bit_word_eqI)
  fix n assume n: "n < LENGTH(32)"
  have m: "(0xffff :: uint) = mask 16" "(0xfff :: uint) = mask 12" by (simp_all add: mask_eq_exp_minus_1)
  consider "n < 12" | "12 \<le> n" "n < 28" | "28 \<le> n" by linarith
  then show "bit (seg_limit (SEG ty base lim dpl)) n = bit (or lim 0xfff) n"
    using n unfolding seg_limit_def SEG_def segdesc.simps m Let_def
    by cases (auto simp: bit_or_iff bit_push_bit_iff bit_and_iff bit_ucast_iff bit_drop_bit_eq bit_mask_iff less_diff_conv2)
qed

lemma gate_off_SETGATE: "gate_off (SETGATE istrap sel off d) = off"
proof (rule bit_word_eqI)
  fix n assume n: "n < LENGTH(32)"
  have m: "(0xffff :: uint) = mask 16" by (simp add: mask_eq_exp_minus_1)
  consider "n < 16" | "16 \<le> n" by linarith
  then show "bit (gate_off (SETGATE istrap sel off d)) n = bit off n"
    using n unfolding gate_off_def SETGATE_def gatedesc.simps m
    by cases (auto simp: bit_or_iff bit_push_bit_iff bit_and_iff bit_ucast_iff bit_drop_bit_eq bit_mask_iff less_diff_conv2)
qed

text \<open>
  C18. The tables that the kernel sets up let a user program enter the kernel by the system call gate only: of the 256 gates, which all lead to their
  vector through the kernel's code segment, exactly the one of T_SYSCALL can be used by an int instruction at user level, and it is
  the only one that leaves interrupts enabled. The code segment it enters covers all addresses from 0 with kernel privilege.
\<close>

theorem users_enter_by_syscall_only:
  assumes "i < 256" and "length gdt = 7"
  shows "int_allowed 3 (tvinit vectors ! i) = (i = unat T_SYSCALL) \<and> clears_IF (tvinit vectors ! i) = (i \<noteq> unat T_SYSCALL) \<and>
    gate_off (tvinit vectors ! i) = vectors i \<and>
    (let cs = seginit c gdt ! (unat (gd_cs (tvinit vectors ! i)) div 8)
     in seg_base cs = 0 \<and> seg_limit cs = 0xffffffff \<and> sd_dpl cs = 0 \<and> sd_type cs = or STA_X STA_R)"
proof -
  have t: "unat T_SYSCALL = 64" by (simp add: T_SYSCALL_def)
  have g: "tvinit vectors ! i = SETGATE (i = 64) (SEG_KCODE * 8) (vectors i) (if i = 64 then DPL_USER else 0)"
    using assms(1) by (simp add: tvinit_def t nth_list_update)
  have "(STS_TG32 :: 4 word) \<noteq> STS_IG32" by (simp add: STS_TG32_def STS_IG32_def)
  moreover have "unat (gd_cs (tvinit vectors ! i)) div 8 = 1" unfolding g by (simp add: SETGATE_def SEG_KCODE_def)
  moreover have "seginit c gdt ! 1 = SEG (or STA_X STA_R) 0 0xffffffff 0"
    using assms(2) by (simp add: seginit_def SEG_KCODE_def SEG_KDATA_def SEG_UCODE_def SEG_UDATA_def SEG_KCPU_def)
  moreover have "or (0xffffffff :: uint) 0xfff = 0xffffffff" by simp
  ultimately show ?thesis
    unfolding t Let_def by (simp add: seg_base_SEG seg_limit_SEG) (simp add: g gate_off_SETGATE int_allowed_def clears_IF_def, simp add: SEG_def SETGATE_def DPL_USER_def)
qed

theorem users_enter_by_syscall_only_witness:
  "int_allowed 3 (tvinit (\<lambda>i. of_nat (0x80105000 + 10 * i)) ! 64) \<and> \<not> int_allowed 3 (tvinit (\<lambda>i. of_nat (0x80105000 + 10 * i)) ! 14)"
  using users_enter_by_syscall_only [of 64 "replicate 7 (SEG 0 0 0 0)" "\<lambda>i. of_nat (0x80105000 + 10 * i)" 0]
    users_enter_by_syscall_only [of 14 "replicate 7 (SEG 0 0 0 0)" "\<lambda>i. of_nat (0x80105000 + 10 * i)" 0]
  by (simp add: T_SYSCALL_def)

end
