(* ===== verification/Sh.thy ===== *)
theory Sh
  imports Prelude
begin

text \<open>
  The parser of the shell (sh.c). The command line is the list of characters before its NUL; pointers into it (\<open>s\<close>, \<open>q\<close>, \<open>eq\<close>) are
  positions, and \<open>es\<close> is its length. A parsed command holds the positions of its tokens, as argv and eargv do, and nulterminate stores
  a NUL after each token. malloc is taken to succeed. panic ends the shell, so it is an error value.
\<close>

section \<open>Characters\<close>

abbreviation NUL :: char where "NUL \<equiv> CHR 0x00"

primrec strchr :: "string \<Rightarrow> char \<Rightarrow> nat option" where
  "strchr [] c = None"
| "strchr (x # xs) c = (if x = c then Some 0 else map_option Suc (strchr xs c))"

definition whitespace :: string where
  "whitespace = [CHR 0x20, CHR 0x09, CHR 0x0D, CHR 0x0A, CHR 0x0B]"

definition symbols :: string where
  "symbols = ''<|>&;()''"

definition strlen :: "string \<Rightarrow> nat" where
  "strlen s = length (takeWhile (\<lambda>c. c \<noteq> NUL) s)"

text \<open>The character a pointer points to; the one behind the last is the NUL.\<close>

definition deref :: "string \<Rightarrow> nat \<Rightarrow> char" where
  "deref b i = (if i < length b then b ! i else NUL)"

section \<open>Tokens\<close>

function skipws :: "string \<Rightarrow> nat \<Rightarrow> nat" where
  "skipws b s = (if s < length b \<and> strchr whitespace (deref b s) \<noteq> None then skipws b (Suc s) else s)"
  by pat_completeness auto
termination by (relation "measure (\<lambda>(b, s). length b - s)") auto

function skipword :: "string \<Rightarrow> nat \<Rightarrow> nat" where
  "skipword b s =
     (if s < length b \<and> strchr whitespace (deref b s) = None \<and> strchr symbols (deref b s) = None
      then skipword b (Suc s) else s)"
  by pat_completeness auto
termination by (relation "measure (\<lambda>(b, s). length b - s)") auto

declare skipws.simps [simp del] skipword.simps [simp del]

text \<open>gettoken returns the kind of the token, its two ends and the new position.\<close>

definition gettoken :: "string \<Rightarrow> nat \<Rightarrow> char \<times> nat \<times> nat \<times> nat" where
  "gettoken b ps =
     (let q = skipws b ps;
          c = deref b q;
          (ret, eq) =
            (if c = NUL then (c, q)
             else if c = CHR ''|'' \<or> c = CHR ''('' \<or> c = CHR '')'' \<or> c = CHR '';'' \<or> c = CHR ''&'' \<or> c = CHR ''<'' then (c, q + 1)
             else if c = CHR ''>'' then
               (if deref b (q + 1) = CHR ''>'' then (CHR ''+'', q + 2) else (c, q + 1))
             else (CHR ''a'', skipword b q))
      in (ret, q, eq, skipws b eq))"

definition peek :: "string \<Rightarrow> nat \<Rightarrow> string \<Rightarrow> bool \<times> nat" where
  "peek b ps toks =
     (let s = skipws b ps in (deref b s \<noteq> NUL \<and> strchr toks (deref b s) \<noteq> None, s))"

section \<open>Commands\<close>

datatype 'a cmd =
    EXEC "'a list"
  | REDIR "'a cmd" 'a int int
  | PIPE "'a cmd" "'a cmd"
  | LIST "'a cmd" "'a cmd"
  | BACK "'a cmd"

definition MAXARGS :: nat where "MAXARGS = 10"

definition M_RDONLY :: int where "M_RDONLY = 0x000"

definition M_WRCREATE :: int where "M_WRCREATE = or 0x001 0x200"

datatype 'a pres = POk 'a nat | PErr string

text \<open>
  parseexec keeps a pointer to the execcmd that the redirections parsed so far are wrapped around, and stores the next argument
  there.
\<close>

primrec add_arg :: "'a \<Rightarrow> 'a cmd \<Rightarrow> 'a cmd" where
  "add_arg a (EXEC as) = EXEC (as @ [a])"
| "add_arg a (REDIR c f m d) = REDIR (add_arg a c) f m d"
| "add_arg a (PIPE l r) = PIPE l r"
| "add_arg a (LIST l r) = LIST l r"
| "add_arg a (BACK c) = BACK c"

section \<open>How far the scanner moves\<close>

lemma strchr_None [simp]: "strchr xs c = None \<longleftrightarrow> c \<notin> set xs"
  by (induction xs) auto

lemma skipws_ge: "s \<le> skipws b s"
proof (induction b s rule: skipws.induct)
  case (1 b s)
  then show ?case by (subst skipws.simps) (auto intro: Suc_leD)
qed

lemma skipws_le: "s \<le> length b \<Longrightarrow> skipws b s \<le> length b"
proof (induction b s rule: skipws.induct)
  case (1 b s)
  then show ?case by (subst skipws.simps) auto
qed

lemma skipws_stop: "skipws b s < length b \<Longrightarrow> deref b (skipws b s) \<notin> set whitespace"
proof (induction b s rule: skipws.induct)
  case (1 b s)
  then show ?case by (subst (asm) (2) skipws.simps, subst skipws.simps) (auto split: if_splits)
qed

lemma skipword_ge: "s \<le> skipword b s"
proof (induction b s rule: skipword.induct)
  case (1 b s)
  then show ?case by (subst skipword.simps) (auto intro: Suc_leD)
qed

lemma skipword_le: "s \<le> length b \<Longrightarrow> skipword b s \<le> length b"
proof (induction b s rule: skipword.induct)
  case (1 b s)
  then show ?case by (subst skipword.simps) auto
qed

lemma deref_NUL: "length b \<le> s \<Longrightarrow> deref b s = NUL"
  by (simp add: deref_def)

lemma gettoken_adv:
  assumes "gettoken b s = (t, q, eq, s')"
  shows "s \<le> q" "q \<le> eq" "eq \<le> s'" "deref b q \<noteq> NUL \<Longrightarrow> t \<noteq> NUL \<Longrightarrow> q < eq" "t \<noteq> NUL \<longleftrightarrow> deref b q \<noteq> NUL"
proof -
  show "t \<noteq> NUL \<longleftrightarrow> deref b q \<noteq> NUL"
    using assms by (auto simp: gettoken_def Let_def split: if_splits)
  have q: "q = skipws b s" "s' = skipws b eq" using assms by (auto simp: gettoken_def Let_def split: if_splits)
  show "s \<le> q" "eq \<le> s'" unfolding q by (rule skipws_ge)+
  have w: "q < skipword b q" if "deref b q \<noteq> NUL" "deref b q \<notin> set symbols"
  proof -
    have l: "q < length b" using that(1) deref_NUL by (metis not_le)
    then have "deref b q \<notin> set whitespace" using skipws_stop q by simp
    then have "skipword b q = skipword b (Suc q)" using l that(2) by (subst skipword.simps) simp
    then show ?thesis using skipword_ge [of "Suc q" b] by simp
  qed
  show "q \<le> eq" using assms w by (auto simp: gettoken_def Let_def skipword_ge split: if_splits)
  show "q < eq" if "deref b q \<noteq> NUL" "t \<noteq> NUL"
    using assms that w by (auto simp: gettoken_def Let_def symbols_def split: if_splits)
qed

lemma peek_adv: "peek b s toks = (r, s') \<Longrightarrow> s \<le> s'"
  by (auto simp: peek_def Let_def skipws_ge)

lemma peek_gettoken:
  assumes "peek b s toks = (True, s1)" "gettoken b s1 = (t, q, eq, s2)"
  shows "s1 < s2" "s1 < length b"
proof -
  have n: "deref b s1 \<noteq> NUL" "s1 = skipws b s" using assms(1) by (auto simp: peek_def Let_def)
  then show l: "s1 < length b" using deref_NUL by (metis not_le)
  have "s1 \<le> q" "eq \<le> s2" using gettoken_adv [OF assms(2)] by simp_all
  moreover have "q = s1"
  proof -
    have "q = skipws b s1" using assms(2) by (auto simp: gettoken_def Let_def split: if_splits)
    also have "\<dots> = s1" using skipws_stop [of b s] l n(2) by (subst skipws.simps) simp
    finally show ?thesis .
  qed
  ultimately show "s1 < s2" using gettoken_adv(4,5) [OF assms(2)] n by simp
qed

lemma redirs_step:
  assumes "(True, s) = peek b ps toks" "(tok, q1, e1, s1) = gettoken b s" "(t, q, eq, s2) = gettoken b s1"
  shows "length b - s2 < length b - ps"
proof -
  have "s < s1" "s < length b" using peek_gettoken [OF assms(1,2) [symmetric]] by simp_all
  moreover have "s1 \<le> s2" using gettoken_adv(1-3) [OF assms(3) [symmetric]] by linarith
  ultimately show ?thesis using peek_adv [OF assms(1) [symmetric]] by linarith
qed

section \<open>The parser\<close>

function parseredirs :: "string \<Rightarrow> (nat \<times> nat) cmd \<Rightarrow> nat \<Rightarrow> (nat \<times> nat) cmd pres" where
  "parseredirs b c ps =
     (case peek b ps ''<>'' of
        (False, s) \<Rightarrow> POk c s
      | (True, s) \<Rightarrow>
          (case gettoken b s of (tok, _, _, s1) \<Rightarrow>
          (case gettoken b s1 of (t, q, eq, s2) \<Rightarrow>
             if t \<noteq> CHR ''a'' then PErr ''missing file for redirection''
             else parseredirs b
                    (if tok = CHR ''<'' then REDIR c (q, eq) M_RDONLY 0
                     else if tok = CHR ''>'' then REDIR c (q, eq) M_WRCREATE 1
                     else if tok = CHR ''+'' then REDIR c (q, eq) M_WRCREATE 1
                     else c) s2)))"
  by pat_completeness auto
termination
  apply (relation "measure (\<lambda>(b, c, s). length b - s)")
   apply simp
  apply (clarsimp simp del: One_nat_def)
  apply (rule redirs_step, assumption+)
  done

declare parseredirs.simps [simp del]

lemma parseredirs_adv: "parseredirs b c s = POk c' s' \<Longrightarrow> s \<le> s'"
proof (induction b c s arbitrary: c' s' rule: parseredirs.induct)
  case (1 b c ps)
  obtain r s tok q1 e1 s1 t q eq s2 where
    d: "peek b ps ''<>'' = (r, s)" "gettoken b s = (tok, q1, e1, s1)" "gettoken b s1 = (t, q, eq, s2)"
    by (metis prod_cases4 surj_pair)
  have m: "ps \<le> s" "s \<le> s1" "s1 \<le> s2"
    using peek_adv [OF d(1)] gettoken_adv(1-3) [OF d(2)] gettoken_adv(1-3) [OF d(3)] by simp_all
  show ?case
  proof (cases "r \<and> t = CHR ''a''")
    case True
    then have "s2 \<le> s'" using "1.prems" d by (subst (asm) parseredirs.simps) (simp add: "1.IH")
    then show ?thesis using m by simp
  next
    case False
    then show ?thesis using "1.prems" d m by (subst (asm) parseredirs.simps) (auto split: bool.splits if_splits)
  qed
qed

function parseexec_loop :: "string \<Rightarrow> (nat \<times> nat) cmd \<Rightarrow> nat \<Rightarrow> nat \<Rightarrow> (nat \<times> nat) cmd pres" where
  "parseexec_loop b ret argc ps =
     (case peek b ps ''|)&;'' of
        (True, s) \<Rightarrow> POk ret s
      | (False, s) \<Rightarrow>
          (case gettoken b s of (tok, q, eq, s1) \<Rightarrow>
             if tok = NUL then POk ret s1
             else if tok \<noteq> CHR ''a'' then PErr ''syntax''
             else if argc + 1 \<ge> MAXARGS then PErr ''too many args''
             else (case parseredirs b (add_arg (q, eq) ret) s1 of
                     PErr e \<Rightarrow> PErr e
                   | POk ret1 s2 \<Rightarrow> parseexec_loop b ret1 (argc + 1) s2)))"
  by pat_completeness auto
termination by (relation "measure (\<lambda>(b, ret, argc, s). MAXARGS - argc)") auto

declare parseexec_loop.simps [simp del]

text \<open>The loop of parseline that wraps the command once for every ampersand.\<close>

function backs :: "string \<Rightarrow> (nat \<times> nat) cmd \<Rightarrow> nat \<Rightarrow> (nat \<times> nat) cmd \<times> nat" where
  "backs b c ps =
     (case peek b ps ''&'' of
        (False, s) \<Rightarrow> (c, s)
      | (True, s) \<Rightarrow> (case gettoken b s of (_, _, _, s1) \<Rightarrow> backs b (BACK c) s1))"
  by pat_completeness auto
termination
proof (relation "measure (\<lambda>(b, c, s). length b - s)", simp, clarsimp)
  fix b ps y x a aa ba
  assume "(True, y) = peek b ps ''&''" "(x, a, aa, ba) = gettoken b y"
  then have "y < ba" "y < length b" "ps \<le> y" using peek_gettoken peek_adv by metis+
  then show "length b - ba < length b - ps" by linarith
qed

declare backs.simps [simp del]

fun pbind :: "'a pres option \<Rightarrow> ('a \<Rightarrow> nat \<Rightarrow> 'b pres option) \<Rightarrow> 'b pres option" where
  "pbind None f = None"
| "pbind (Some (PErr e)) f = Some (PErr e)"
| "pbind (Some (POk a s)) f = f a s"

lemma pbind_cong [fundef_cong]:
  "r = r' \<Longrightarrow> (\<And>a s. r' = Some (POk a s) \<Longrightarrow> f a s = g a s) \<Longrightarrow> pbind r f = pbind r' g"
  by (cases "(r', f)" rule: pbind.cases) simp_all

text \<open>The recursive descent; the first argument bounds the depth of the calls, and \<open>None\<close> is the value of a descent that is deeper.\<close>

fun parseline :: "nat \<Rightarrow> string \<Rightarrow> nat \<Rightarrow> (nat \<times> nat) cmd pres option"
  and parsepipe :: "nat \<Rightarrow> string \<Rightarrow> nat \<Rightarrow> (nat \<times> nat) cmd pres option"
  and parseblock :: "nat \<Rightarrow> string \<Rightarrow> nat \<Rightarrow> (nat \<times> nat) cmd pres option"
  and parseexec :: "nat \<Rightarrow> string \<Rightarrow> nat \<Rightarrow> (nat \<times> nat) cmd pres option" where
  "parseline 0 b ps = None"
| "parseline (Suc n) b ps =
     pbind (parsepipe n b ps) (\<lambda>c s.
       (case backs b c s of (c1, s1) \<Rightarrow>
       (case peek b s1 '';'' of
          (False, s2) \<Rightarrow> Some (POk c1 s2)
        | (True, s2) \<Rightarrow>
            (case gettoken b s2 of (_, _, _, s3) \<Rightarrow>
               pbind (parseline n b s3) (\<lambda>c2 s4. Some (POk (LIST c1 c2) s4))))))"
| "parsepipe 0 b ps = None"
| "parsepipe (Suc n) b ps =
     pbind (parseexec n b ps) (\<lambda>c s.
       (case peek b s ''|'' of
          (False, s1) \<Rightarrow> Some (POk c s1)
        | (True, s1) \<Rightarrow>
            (case gettoken b s1 of (_, _, _, s2) \<Rightarrow>
               pbind (parsepipe n b s2) (\<lambda>c2 s3. Some (POk (PIPE c c2) s3)))))"
| "parseblock 0 b ps = None"
| "parseblock (Suc n) b ps =
     (case peek b ps ''('' of
        (False, _) \<Rightarrow> Some (PErr ''parseblock'')
      | (True, s) \<Rightarrow>
          (case gettoken b s of (_, _, _, s1) \<Rightarrow>
             pbind (parseline n b s1) (\<lambda>c s2.
               (case peek b s2 '')'' of
                  (False, _) \<Rightarrow> Some (PErr ''syntax - missing )'')
                | (True, s3) \<Rightarrow>
                    (case gettoken b s3 of (_, _, _, s4) \<Rightarrow> Some (parseredirs b c s4))))))"
| "parseexec 0 b ps = None"
| "parseexec (Suc n) b ps =
     (case peek b ps ''('' of
        (True, s) \<Rightarrow> parseblock n b s
      | (False, s) \<Rightarrow>
          (case parseredirs b (EXEC []) s of
             PErr e \<Rightarrow> Some (PErr e)
           | POk ret s1 \<Rightarrow> Some (parseexec_loop b ret 0 s1)))"

section \<open>NUL-terminating the tokens\<close>

primrec nulterminate :: "(nat \<times> nat) cmd \<Rightarrow> string \<Rightarrow> string" where
  "nulterminate (EXEC as) m = fold (\<lambda>(q, eq) m. m[eq := NUL]) as m"
| "nulterminate (REDIR c f mode fd) m = (nulterminate c m)[snd f := NUL]"
| "nulterminate (PIPE l r) m = nulterminate r (nulterminate l m)"
| "nulterminate (LIST l r) m = nulterminate r (nulterminate l m)"
| "nulterminate (BACK c) m = nulterminate c m"

text \<open>
  \<open>s\<close> is the memory from the pointer on. The result is the command and the memory in which its pointers point to strings. Every
  character of the line takes part in at most four nested calls.
\<close>

definition parsecmd :: "string \<Rightarrow> ((nat \<times> nat) cmd \<times> string) pres option" where
  "parsecmd s =
     (let es = strlen s;
          b = take es s
      in pbind (parseline (4 * es + 4) b 0) (\<lambda>c s1.
           (case peek b s1 [] of (_, s2) \<Rightarrow>
              if s2 \<noteq> es then Some (PErr ''syntax'')
              else Some (POk (c, nulterminate c s) s2))))"

text \<open>The string a pointer into memory points to, and the command with its strings.\<close>

definition str_at :: "string \<Rightarrow> nat \<Rightarrow> string" where
  "str_at m q = takeWhile (\<lambda>c. c \<noteq> NUL) (drop q m)"

definition cmd_text :: "string \<Rightarrow> (nat \<times> nat) cmd \<Rightarrow> string cmd" where
  "cmd_text m c = map_cmd (\<lambda>(q, eq). str_at m q) c"

section \<open>The descent ends\<close>

lemma pbind_eq_None [simp]: "pbind r f = None \<longleftrightarrow> r = None \<or> (\<exists>a s. r = Some (POk a s) \<and> f a s = None)"
  by (cases "(r, f)" rule: pbind.cases) auto

lemma pbind_eq_POk [simp]: "pbind r f = Some (POk x t) \<longleftrightarrow> (\<exists>a s. r = Some (POk a s) \<and> f a s = Some (POk x t))"
  by (cases "(r, f)" rule: pbind.cases) auto

lemma parseexec_loop_adv: "parseexec_loop b ret argc s = POk c s' \<Longrightarrow> s \<le> s'"
proof (induction b ret argc s arbitrary: c s' rule: parseexec_loop.induct)
  case (1 b ret argc ps)
  obtain r s tok q eq s1 where d: "peek b ps ''|)&;'' = (r, s)" "gettoken b s = (tok, q, eq, s1)"
    by (metis prod_cases4 surj_pair)
  have m: "ps \<le> s" "s \<le> s1" using peek_adv [OF d(1)] gettoken_adv(1-3) [OF d(2)] by simp_all
  note P = "1.prems" [unfolded parseexec_loop.simps [of b ret argc ps] d prod.case]
  show ?case
  proof (cases "parseredirs b (add_arg (q, eq) ret) s1")
    case (POk ret1 s2)
    then have "s1 \<le> s2" by (rule parseredirs_adv)
    moreover have "s2 \<le> s'" if "\<not> r" "tok = CHR ''a''" "argc + 1 < MAXARGS"
    proof -
      have "parseexec_loop b ret1 (argc + 1) s2 = POk c s'" using P POk that by simp
      then show ?thesis by (rule "1.IH" [rotated -1]) (use d POk that in auto)
    qed
    ultimately show ?thesis using P m by (force split: bool.splits if_splits)
  qed (use P m in \<open>auto split: bool.splits if_splits\<close>)
qed

lemma backs_adv: "backs b c s = (c', s') \<Longrightarrow> s \<le> s'"
proof (induction b c s arbitrary: c' s' rule: backs.induct)
  case (1 b c ps)
  obtain r s tok q eq s1 where d: "peek b ps ''&'' = (r, s)" "gettoken b s = (tok, q, eq, s1)"
    by (metis prod_cases4 surj_pair)
  have m: "ps \<le> s" "s \<le> s1" using peek_adv [OF d(1)] gettoken_adv(1-3) [OF d(2)] by simp_all
  show ?case
  proof (cases r)
    case True
    then have "backs b (BACK c) s1 = (c', s')" using "1.prems" d by (subst (asm) backs.simps) simp
    then have "s1 \<le> s'" by (rule "1.IH" [rotated -1]) (use d True in auto)
    then show ?thesis using m by simp
  next
    case False
    then show ?thesis using "1.prems" d m by (subst (asm) backs.simps) simp
  qed
qed

lemma tok_adv: "gettoken b s = (t, q, eq, s') \<Longrightarrow> s \<le> s'"
  using gettoken_adv(1-3) by (meson order_trans)

lemma parse_adv:
  "parseline n b s = Some (POk c s') \<Longrightarrow> s \<le> s'"
  "parsepipe n b s = Some (POk c s') \<Longrightarrow> s \<le> s'"
  "parseblock n b s = Some (POk c s') \<Longrightarrow> s \<le> s'"
  "parseexec n b s = Some (POk c s') \<Longrightarrow> s \<le> s'"
proof (induction n b s and n b s and n b s and n b s arbitrary: c s' and c s' and c s' and c s'
    rule: parseline_parsepipe_parseblock_parseexec.induct)
  case (2 n b ps)
  obtain p s where A: "parsepipe n b ps = Some (POk p s)" using "2.prems" by auto
  obtain c1 s1 r s2 t q eq s3 where B: "backs b p s = (c1, s1)" "peek b s1 '';'' = (r, s2)" "gettoken b s2 = (t, q, eq, s3)"
    by (metis prod_cases4 surj_pair)
  have m: "ps \<le> s" "s \<le> s1" "s1 \<le> s2" "s2 \<le> s3"
    using "2.IH"(1) [OF A] backs_adv [OF B(1)] peek_adv [OF B(2)] tok_adv [OF B(3)] by simp_all
  show ?case
  proof (cases r)
    case True
    then obtain c2 where "parseline n b s3 = Some (POk c2 s')" using "2.prems" A B by auto
    then have "s3 \<le> s'" by (rule "2.IH"(2) [rotated -1]) (use A B True in auto)
    then show ?thesis using m by simp
  qed (use "2.prems" A B m in auto)
next
  case (4 n b ps)
  obtain p s where A: "parseexec n b ps = Some (POk p s)" using "4.prems" by auto
  obtain r s1 t q eq s2 where B: "peek b s ''|'' = (r, s1)" "gettoken b s1 = (t, q, eq, s2)"
    by (metis prod_cases4 surj_pair)
  have m: "ps \<le> s" "s \<le> s1" "s1 \<le> s2" using "4.IH"(1) [OF A] peek_adv [OF B(1)] tok_adv [OF B(2)] by simp_all
  show ?case
  proof (cases r)
    case True
    then obtain c2 where "parsepipe n b s2 = Some (POk c2 s')" using "4.prems" A B by auto
    then have "s2 \<le> s'" by (rule "4.IH"(2) [rotated -1]) (use A B True in auto)
    then show ?thesis using m by simp
  qed (use "4.prems" A B m in auto)
next
  case (6 n b ps)
  obtain r s t q eq s1 where B: "peek b ps ''('' = (r, s)" "gettoken b s = (t, q, eq, s1)"
    by (metis prod_cases4 surj_pair)
  then have r: r using "6.prems" by (auto split: bool.splits)
  then obtain p s2 where A: "parseline n b s1 = Some (POk p s2)" using "6.prems" B by auto
  then have l: "s1 \<le> s2" by (rule "6.IH" [rotated -1]) (use B r in auto)
  obtain r2 s3 t q eq s4 where C: "peek b s2 '')'' = (r2, s3)" "gettoken b s3 = (t, q, eq, s4)"
    by (metis prod_cases4 surj_pair)
  then have "parseredirs b p s4 = POk c s'" using "6.prems" A B r by (auto split: bool.splits)
  from parseredirs_adv [OF this] show ?case
    using l peek_adv [OF B(1)] tok_adv [OF B(2)] peek_adv [OF C(1)] tok_adv [OF C(2)] by simp
next
  case (8 n b ps)
  obtain r s where B: "peek b ps ''('' = (r, s)" by (metis surj_pair)
  show ?case
  proof (cases r)
    case True
    then have "parseblock n b s = Some (POk c s')" using "8.prems" B by simp
    then have "s \<le> s'" by (rule "8.IH" [rotated -1]) (use B True in auto)
    then show ?thesis using peek_adv [OF B] by simp
  next
    case False
    then obtain p s1 where "parseredirs b (EXEC []) s = POk p s1" "parseexec_loop b p 0 s1 = POk c s'"
      using "8.prems" B by (auto split: pres.splits)
    from parseredirs_adv [OF this(1)] parseexec_loop_adv [OF this(2)] show ?thesis using peek_adv [OF B] by simp
  qed
qed simp_all

lemma parse_fuel:
  "4 * (length b - s) + 4 \<le> n \<Longrightarrow> parseline n b s \<noteq> None"
  "4 * (length b - s) + 3 \<le> n \<Longrightarrow> parsepipe n b s \<noteq> None"
  "4 * (length b - s) + 1 \<le> n \<Longrightarrow> parseblock n b s \<noteq> None"
  "4 * (length b - s) + 2 \<le> n \<Longrightarrow> parseexec n b s \<noteq> None"
proof (induction n b s and n b s and n b s and n b s rule: parseline_parsepipe_parseblock_parseexec.induct)
  case (2 n b ps)
  have "parseline n b s3 \<noteq> None"
    if a: "parsepipe n b ps = Some (POk c s)" "backs b c s = (c1, s1)" "peek b s1 '';'' = (True, s2)"
      "gettoken b s2 = (t, q, eq, s3)" for c s c1 s1 s2 t q eq s3
  proof -
    have "ps \<le> s" "s \<le> s1" "s1 \<le> s2" "s2 < s3" "s2 < length b"
      using parse_adv(2) [OF a(1)] backs_adv [OF a(2)] peek_adv [OF a(3)] peek_gettoken [OF a(3,4)] by simp_all
    then show ?thesis using 2 a by (intro "2.IH"(2) [OF a(1) a(2) [symmetric] a(3) [symmetric] refl a(4) [symmetric] refl refl]) auto
  qed
  moreover have "parsepipe n b ps \<noteq> None" by (rule "2.IH"(1)) (use "2.prems" in simp)
  ultimately show ?case by (auto split: prod.splits bool.splits simp del: not_None_eq)
next
  case (4 n b ps)
  have "parsepipe n b s2 \<noteq> None"
    if a: "parseexec n b ps = Some (POk c s)" "peek b s ''|'' = (True, s1)" "gettoken b s1 = (t, q, eq, s2)" for c s s1 t q eq s2
  proof -
    have "ps \<le> s" "s \<le> s1" "s1 < s2" "s1 < length b"
      using parse_adv(4) [OF a(1)] peek_adv [OF a(2)] peek_gettoken [OF a(2,3)] by simp_all
    then show ?thesis using 4 a by (intro "4.IH"(2) [OF a(1) a(2) [symmetric] refl a(3) [symmetric] refl refl]) auto
  qed
  moreover have "parseexec n b ps \<noteq> None" by (rule "4.IH"(1)) (use "4.prems" in simp)
  ultimately show ?case by (auto split: prod.splits bool.splits simp del: not_None_eq)
next
  case (6 n b ps)
  have "parseline n b s1 \<noteq> None" if a: "peek b ps ''('' = (True, s)" "gettoken b s = (t, q, eq, s1)" for s t q eq s1
  proof -
    have "ps \<le> s" "s < s1" "s < length b" using peek_adv [OF a(1)] peek_gettoken [OF a] by simp_all
    then show ?thesis using 6 a by (intro "6.IH" [OF a(1) [symmetric] refl a(2) [symmetric] refl refl]) auto
  qed
  then show ?case by (auto split: prod.splits bool.splits simp del: not_None_eq)
next
  case (8 n b ps)
  have "parseblock n b s \<noteq> None" if a: "peek b ps ''('' = (True, s)" for s
    using peek_adv [OF a] 8 a by (intro "8.IH" [OF a [symmetric] refl]) auto
  then show ?case by (auto split: prod.splits bool.splits pres.splits simp del: not_None_eq)
qed simp_all

text \<open>C23. The parser ends on every command line: it returns a command or reports an error, and the bound on the depth of its recursion is never reached.\<close>

theorem parsecmd_terminates: "parsecmd s \<noteq> None"
  using parse_fuel(1) [of "take (strlen s) s" 0 "4 * strlen s + 4"]
  by (auto simp: parsecmd_def Let_def split: prod.splits)

section \<open>What the parser returns\<close>

definition wordchar :: "char \<Rightarrow> bool" where
  "wordchar c \<longleftrightarrow> c \<notin> set whitespace \<and> c \<notin> set symbols \<and> c \<noteq> NUL"

definition word :: "string \<Rightarrow> bool" where
  "word w \<longleftrightarrow> w \<noteq> [] \<and> list_all wordchar w"

definition redir_ok :: "int \<Rightarrow> int \<Rightarrow> bool" where
  "redir_ok m d \<longleftrightarrow> (m, d) \<in> {(M_RDONLY, 0), (M_WRCREATE, 1)}"

text \<open>
  A well-formed command: fewer than \<open>MAXARGS\<close> arguments, redirections of standard input for reading or of standard
  output for writing, and tokens that satisfy \<open>P\<close>.
\<close>

primrec cmd_ok :: "('a \<Rightarrow> bool) \<Rightarrow> 'a cmd \<Rightarrow> bool" where
  "cmd_ok P (EXEC as) \<longleftrightarrow> length as < MAXARGS \<and> list_all P as"
| "cmd_ok P (REDIR c f m d) \<longleftrightarrow> cmd_ok P c \<and> P f \<and> redir_ok m d"
| "cmd_ok P (PIPE l r) \<longleftrightarrow> cmd_ok P l \<and> cmd_ok P r"
| "cmd_ok P (LIST l r) \<longleftrightarrow> cmd_ok P l \<and> cmd_ok P r"
| "cmd_ok P (BACK c) \<longleftrightarrow> cmd_ok P c"

text \<open>The characters between the ends of a token, and a token that is a maximal run of word characters.\<close>

definition slice :: "string \<Rightarrow> nat \<times> nat \<Rightarrow> string" where
  "slice b t = take (snd t - fst t) (drop (fst t) b)"

definition tok_ok :: "string \<Rightarrow> nat \<times> nat \<Rightarrow> bool" where
  "tok_ok b t \<longleftrightarrow> fst t < snd t \<and> snd t \<le> length b \<and> (\<forall>k. fst t \<le> k \<and> k < snd t \<longrightarrow> wordchar (b ! k)) \<and>
     (snd t < length b \<longrightarrow> \<not> wordchar (b ! snd t))"

lemma cmd_ok_map: "cmd_ok P (map_cmd g c) = cmd_ok (\<lambda>t. P (g t)) c"
  by (induction c) (simp_all add: list.pred_map comp_def)

lemma cmd_ok_mono: "cmd_ok P c \<Longrightarrow> (\<And>t. t \<in> set_cmd c \<Longrightarrow> P t \<Longrightarrow> Q t) \<Longrightarrow> cmd_ok Q c"
  by (induction c) (auto simp: list_all_iff)

lemma cmd_ok_set: "cmd_ok P c \<Longrightarrow> t \<in> set_cmd c \<Longrightarrow> P t"
  by (induction c) (auto simp: list_all_iff)

primrec nargs :: "'a cmd \<Rightarrow> nat" where
  "nargs (EXEC as) = length as"
| "nargs (REDIR c f m d) = nargs c"
| "nargs (PIPE l r) = 0"
| "nargs (LIST l r) = 0"
| "nargs (BACK c) = 0"

lemma add_arg_ok: "cmd_ok P c \<Longrightarrow> P a \<Longrightarrow> nargs c + 1 < MAXARGS \<Longrightarrow> cmd_ok P (add_arg a c)"
  by (induction c) simp_all

lemma nargs_add_arg: "nargs (add_arg a c) \<le> nargs c + 1"
  by (induction c) simp_all

lemma wordchar_deref:
  assumes "NUL \<notin> set b" "s < length b"
  shows "wordchar (b ! s) \<longleftrightarrow> strchr whitespace (deref b s) = None \<and> strchr symbols (deref b s) = None"
proof -
  have "b ! s \<noteq> NUL" using assms nth_mem [of s b] by metis
  then show ?thesis using assms(2) by (simp add: wordchar_def deref_def)
qed

lemma skipword_stop:
  assumes "NUL \<notin> set b" "s \<le> length b"
  shows "(\<forall>k. s \<le> k \<and> k < skipword b s \<longrightarrow> wordchar (b ! k)) \<and> (skipword b s < length b \<longrightarrow> \<not> wordchar (b ! skipword b s))"
  using assms
proof (induction b s rule: skipword.induct)
  case (1 b s)
  show ?case
  proof (cases "s < length b \<and> wordchar (b ! s)")
    case True
    then have e: "skipword b s = skipword b (Suc s)" using wordchar_deref [of b s] "1.prems" by (subst skipword.simps) simp
    have "(\<forall>k. Suc s \<le> k \<and> k < skipword b (Suc s) \<longrightarrow> wordchar (b ! k)) \<and>
        (skipword b (Suc s) < length b \<longrightarrow> \<not> wordchar (b ! skipword b (Suc s)))"
      using True wordchar_deref [of b s] "1.prems" by (intro "1.IH") auto
    then show ?thesis unfolding e using True by (metis Suc_leI le_neq_implies_less)
  next
    case False
    then have "skipword b s = s" using wordchar_deref [of b s] "1.prems" by (subst skipword.simps) auto
    then show ?thesis using False by auto
  qed
qed

lemma gettoken_tok_ok:
  assumes "gettoken b s = (CHR ''a'', q, eq, s')" "NUL \<notin> set b"
  shows "tok_ok b (q, eq)"
proof -
  have e: "eq = skipword b q" "deref b q \<noteq> NUL"
    using assms(1) by (auto simp: gettoken_def Let_def split: if_splits)
  then have q: "q < length b" using deref_NUL by (metis not_le)
  have "q < eq" using gettoken_adv(4) [OF assms(1)] e by simp
  then show ?thesis using skipword_stop [OF assms(2), of q] skipword_le [of q b] q by (simp add: tok_ok_def e)
qed

lemma parseredirs_ok:
  assumes "NUL \<notin> set b" "cmd_ok (tok_ok b) c" "parseredirs b c s = POk c' s'"
  shows "cmd_ok (tok_ok b) c' \<and> nargs c' = nargs c"
  using assms
proof (induction b c s arbitrary: c' s' rule: parseredirs.induct)
  case (1 b c ps)
  obtain r s tok q1 e1 s1 t q eq s2 where
    d: "peek b ps ''<>'' = (r, s)" "gettoken b s = (tok, q1, e1, s1)" "gettoken b s1 = (t, q, eq, s2)"
    by (metis prod_cases4 surj_pair)
  show ?case
  proof (cases r)
    case True
    let ?c = "if tok = CHR ''<'' then REDIR c (q, eq) M_RDONLY 0
      else if tok = CHR ''>'' then REDIR c (q, eq) M_WRCREATE 1
      else if tok = CHR ''+'' then REDIR c (q, eq) M_WRCREATE 1 else c"
    have t: "t = CHR ''a''" and p: "parseredirs b ?c s2 = POk c' s'"
      using "1.prems"(3) True d by (subst (asm) parseredirs.simps, simp split: if_splits)+
    have "tok_ok b (q, eq)" using gettoken_tok_ok d(3) t "1.prems"(1) by simp
    then have "cmd_ok (tok_ok b) ?c" using "1.prems"(2) by (simp add: redir_ok_def)
    then have "cmd_ok (tok_ok b) c' \<and> nargs c' = nargs ?c"
      using True t d p "1.prems"(1) by (intro "1.IH" [OF d(1) [symmetric] _ d(2) [symmetric] refl refl d(3) [symmetric] refl refl]) simp_all
    then show ?thesis by (simp split: if_splits)
  next
    case False
    then show ?thesis using "1.prems"(2,3) d parseredirs.simps [of b c ps] by simp
  qed
qed

lemma parseexec_loop_ok:
  assumes "NUL \<notin> set b" "cmd_ok (tok_ok b) ret" "nargs ret \<le> argc" "parseexec_loop b ret argc s = POk c s'"
  shows "cmd_ok (tok_ok b) c"
  using assms
proof (induction b ret argc s arbitrary: c s' rule: parseexec_loop.induct)
  case (1 b ret argc ps)
  obtain r s tok q eq s1 where d: "peek b ps ''|)&;'' = (r, s)" "gettoken b s = (tok, q, eq, s1)"
    by (metis prod_cases4 surj_pair)
  note P = "1.prems"(4) [unfolded parseexec_loop.simps [of b ret argc ps] d prod.case]
  show ?case
  proof (cases "\<not> r \<and> tok = CHR ''a'' \<and> argc + 1 < MAXARGS")
    case True
    then obtain ret1 s2 where R: "parseredirs b (add_arg (q, eq) ret) s1 = POk ret1 s2" "parseexec_loop b ret1 (argc + 1) s2 = POk c s'"
      using P by (auto split: pres.splits)
    have "tok_ok b (q, eq)" using gettoken_tok_ok d(2) True "1.prems"(1) by simp
    then have "cmd_ok (tok_ok b) (add_arg (q, eq) ret)" using "1.prems"(2,3) True by (intro add_arg_ok) simp_all
    then have k: "cmd_ok (tok_ok b) ret1" "nargs ret1 \<le> argc + 1"
      using parseredirs_ok [OF "1.prems"(1) _ R(1)] nargs_add_arg [of "(q, eq)" ret] "1.prems"(3) by simp_all
    show ?thesis by (rule "1.IH" [OF d(1) [symmetric] _ d(2) [symmetric] refl refl _ _ _ R(1) "1.prems"(1) k R(2)]) (use True in auto)
  qed (use P "1.prems" in \<open>auto split: bool.splits if_splits\<close>)
qed

lemma backs_ok: "backs b c s = (c', s') \<Longrightarrow> cmd_ok P c \<Longrightarrow> cmd_ok P c'"
proof (induction b c s arbitrary: c' s' rule: backs.induct)
  case (1 b c ps)
  obtain r s tok q eq s1 where d: "peek b ps ''&'' = (r, s)" "gettoken b s = (tok, q, eq, s1)"
    by (metis prod_cases4 surj_pair)
  show ?case
  proof (cases r)
    case True
    then have p: "backs b (BACK c) s1 = (c', s')" using "1.prems" d by (subst (asm) backs.simps) simp
    show ?thesis
      by (rule "1.IH" [OF d(1) [symmetric] eqTrueI [OF True] d(2) [symmetric] refl refl p]) (use "1.prems" in simp)
  next
    case False
    then show ?thesis using "1.prems" d by (subst (asm) backs.simps) simp
  qed
qed

lemma parse_ok:
  "NUL \<notin> set b \<Longrightarrow> parseline n b s = Some (POk c s') \<Longrightarrow> cmd_ok (tok_ok b) c"
  "NUL \<notin> set b \<Longrightarrow> parsepipe n b s = Some (POk c s') \<Longrightarrow> cmd_ok (tok_ok b) c"
  "NUL \<notin> set b \<Longrightarrow> parseblock n b s = Some (POk c s') \<Longrightarrow> cmd_ok (tok_ok b) c"
  "NUL \<notin> set b \<Longrightarrow> parseexec n b s = Some (POk c s') \<Longrightarrow> cmd_ok (tok_ok b) c"
proof (induction n b s and n b s and n b s and n b s arbitrary: c s' and c s' and c s' and c s'
    rule: parseline_parsepipe_parseblock_parseexec.induct)
  case (2 n b ps)
  obtain p s where A: "parsepipe n b ps = Some (POk p s)" using "2.prems" by auto
  obtain c1 s1 r s2 t q eq s3 where B: "backs b p s = (c1, s1)" "peek b s1 '';'' = (r, s2)" "gettoken b s2 = (t, q, eq, s3)"
    by (metis prod_cases4 surj_pair)
  have c1: "cmd_ok (tok_ok b) c1" using backs_ok [OF B(1)] "2.IH"(1) [OF "2.prems"(1) A] by blast
  show ?case
  proof (cases r)
    case True
    then obtain c2 where C: "parseline n b s3 = Some (POk c2 s')" "c = LIST c1 c2" using "2.prems" A B by auto
    then show ?thesis
      using c1 "2.IH"(2) [OF A B(1) [symmetric] B(2) [symmetric] eqTrueI [OF True] B(3) [symmetric] refl refl "2.prems"(1) C(1)] by simp
  qed (use "2.prems" A B c1 in auto)
next
  case (4 n b ps)
  obtain p s where A: "parseexec n b ps = Some (POk p s)" using "4.prems" by auto
  obtain r s1 t q eq s2 where B: "peek b s ''|'' = (r, s1)" "gettoken b s1 = (t, q, eq, s2)"
    by (metis prod_cases4 surj_pair)
  have p: "cmd_ok (tok_ok b) p" using "4.IH"(1) [OF "4.prems"(1) A] .
  show ?case
  proof (cases r)
    case True
    then obtain c2 where C: "parsepipe n b s2 = Some (POk c2 s')" "c = PIPE p c2" using "4.prems" A B by auto
    then show ?thesis using p "4.IH"(2) [OF A B(1) [symmetric] eqTrueI [OF True] B(2) [symmetric] refl refl "4.prems"(1) C(1)] by simp
  qed (use "4.prems" A B p in auto)
next
  case (6 n b ps)
  obtain r s t q eq s1 where B: "peek b ps ''('' = (r, s)" "gettoken b s = (t, q, eq, s1)"
    by (metis prod_cases4 surj_pair)
  then have r: r using "6.prems" by (auto split: bool.splits)
  then obtain p s2 where A: "parseline n b s1 = Some (POk p s2)" using "6.prems" B by auto
  have p: "cmd_ok (tok_ok b) p" using "6.IH" [OF B(1) [symmetric] eqTrueI [OF r] B(2) [symmetric] refl refl "6.prems"(1) A] .
  obtain r2 s3 t q eq s4 where C: "peek b s2 '')'' = (r2, s3)" "gettoken b s3 = (t, q, eq, s4)"
    by (metis prod_cases4 surj_pair)
  then have "parseredirs b p s4 = POk c s'" using "6.prems" A B r by (auto split: bool.splits)
  from parseredirs_ok [OF "6.prems"(1) p this] show ?case by simp
next
  case (8 n b ps)
  obtain r s where B: "peek b ps ''('' = (r, s)" by (metis surj_pair)
  show ?case
  proof (cases r)
    case True
    then have "parseblock n b s = Some (POk c s')" using "8.prems" B by simp
    then show ?thesis using "8.IH" [OF B [symmetric] eqTrueI [OF True] "8.prems"(1)] by simp
  next
    case False
    then obtain p s1 where R: "parseredirs b (EXEC []) s = POk p s1" "parseexec_loop b p 0 s1 = POk c s'"
      using "8.prems" B by (auto split: pres.splits)
    have "cmd_ok (tok_ok b) p" "nargs p = 0" using parseredirs_ok [OF "8.prems"(1) _ R(1)] by (simp_all add: MAXARGS_def)
    then show ?thesis using parseexec_loop_ok [OF "8.prems"(1) _ _ R(2)] by simp
  qed
qed simp_all

section \<open>The strings of a command\<close>

lemma nth_fold_nul: "fold (\<lambda>(q, eq) m. m[eq := NUL]) as m ! i = (if i \<in> snd ` set as \<and> i < length m then NUL else m ! i)"
  by (induction as arbitrary: m) (auto simp: nth_upd)

lemma length_fold_nul: "length (fold (\<lambda>(q, eq) m. m[eq := NUL]) as m) = length m"
  by (induction as arbitrary: m) auto

lemma nulterminate_length [simp]: "length (nulterminate c m) = length m"
  by (induction c arbitrary: m) (simp_all add: length_fold_nul)

lemma nth_nulterminate: "nulterminate c m ! i = (if i \<in> snd ` set_cmd c \<and> i < length m then NUL else m ! i)"
  by (induction c arbitrary: m) (auto simp: nth_fold_nul nth_upd)

text \<open>Storing the NULs leaves the characters of every token in place, because they go to places that no token has characters in.\<close>

lemma str_at_token:
  assumes ok: "\<forall>t \<in> set_cmd c. tok_ok b t" and t: "t \<in> set_cmd c" and b: "b = take (strlen m) m" "NUL \<notin> set b"
  shows "str_at (nulterminate c m) (fst t) = slice b t"
proof -
  have T: "tok_ok b t" using ok t by blast
  have bl: "length b = strlen m" "strlen m \<le> length m"
    unfolding b(1) by (simp_all add: strlen_def length_takeWhile_le)
  have tl: "fst t < snd t" "snd t \<le> length b" using T by (simp_all add: tok_ok_def)
  have keep: "nulterminate c m ! k = b ! k" if k: "fst t \<le> k" "k < snd t" for k
  proof -
    have w: "wordchar (b ! k)" "k < length b" using T k by (auto simp: tok_ok_def)
    then have "k \<notin> snd ` set_cmd c" using ok by (auto simp: tok_ok_def)
    then show ?thesis using w(2) by (simp add: nth_nulterminate b(1))
  qed
  have wc: "b ! k \<noteq> NUL" if "fst t \<le> k" "k < snd t" for k using T that by (auto simp: tok_ok_def wordchar_def)
  let ?r = "drop (fst t) (nulterminate c m)"
  have split: "?r = slice b t @ drop (snd t) (nulterminate c m)"
  proof (rule nth_equalityI)
    fix i assume i: "i < length ?r"
    show "?r ! i = (slice b t @ drop (snd t) (nulterminate c m)) ! i"
      using i tl bl keep [of "fst t + i"] by (auto simp: slice_def nth_append add.commute)
  qed (use tl bl in \<open>simp add: slice_def\<close>)
  have stop: "takeWhile (\<lambda>c. c \<noteq> NUL) (drop (snd t) (nulterminate c m)) = []"
  proof (cases "snd t < length m")
    case True
    then have "nulterminate c m ! snd t = NUL" using t by (simp add: nth_nulterminate)
    then show ?thesis using True by (simp add: Cons_nth_drop_Suc [symmetric])
  qed simp
  have "x \<noteq> NUL" if "x \<in> set (slice b t)" for x
  proof -
    obtain k where "k < snd t - fst t" "x = b ! (fst t + k)"
      using \<open>x \<in> set (slice b t)\<close> tl by (auto simp: slice_def in_set_conv_nth)
    then show ?thesis using wc [of "fst t + k"] by simp
  qed
  then show ?thesis unfolding str_at_def split by (simp add: takeWhile_append2 stop)
qed

lemma slice_word: "tok_ok b t \<Longrightarrow> word (slice b t)"
  by (auto simp: tok_ok_def word_def slice_def list_all_length)

lemma take_strlen: "NUL \<notin> set (take (strlen s) s)"
  by (metis set_takeWhileD strlen_def takeWhile_eq_take)

lemma parsecmd_strings:
  assumes "parsecmd s = Some (POk (c, m) e)"
  shows "cmd_ok (tok_ok (take (strlen s) s)) c" "cmd_text m c = map_cmd (slice (take (strlen s) s)) c"
proof -
  let ?b = "take (strlen s) s"
  obtain s1 where p: "parseline (4 * strlen s + 4) ?b 0 = Some (POk c s1)" and m: "m = nulterminate c s"
    using assms by (auto simp: parsecmd_def Let_def case_prod_unfold split: if_split_asm)
  show ok: "cmd_ok (tok_ok ?b) c" by (rule parse_ok(1) [OF take_strlen p])
  have "str_at m (fst t) = slice ?b t" if "t \<in> set_cmd c" for t
    unfolding m using cmd_ok_set [OF ok] that take_strlen by (intro str_at_token) auto
  then show "cmd_text m c = map_cmd (slice ?b) c" unfolding cmd_text_def by (intro cmd.map_cong) auto
qed

text \<open>
  C22. Every command the parser returns is well formed: each simple command has fewer than \<open>MAXARGS\<close> arguments, each redirection is of standard
  input for reading or of standard output for writing, and in the memory the parser leaves behind every argument and
  file name is the non-empty run of characters, none of them blank or a symbol, that stands in the command line.
\<close>

theorem parsecmd_well_formed:
  assumes "parsecmd s = Some (POk (c, m) e)"
  shows "cmd_ok word (cmd_text m c) \<and> cmd_text m c = map_cmd (slice (take (strlen s) s)) c"
  using cmd_ok_mono [OF parsecmd_strings(1) [OF assms]] slice_word
  by (simp add: parsecmd_strings(2) [OF assms] cmd_ok_map)

theorem parsecmd_well_formed_witness:
  "\<exists>c m e. parsecmd (''ls a|wc >f'' @ [NUL]) = Some (POk (c, m) e) \<and>
     cmd_text m c = PIPE (EXEC [''ls'', ''a'']) (REDIR (EXEC [''wc'']) ''f'' M_WRCREATE 1) \<and> cmd_ok word (cmd_text m c)"
proof -
  let ?s = "''ls a|wc >f'' @ [NUL]" and ?c = "PIPE (EXEC [(0, 2), (3, 4)]) (REDIR (EXEC [(5, 7)]) (9, 10) M_WRCREATE 1)"
  have p: "parsecmd ?s = Some (POk (?c, nulterminate ?c ?s) 10)" by code_simp
  note w = parsecmd_well_formed [OF p]
  have "map_cmd (slice (take (strlen ?s) ?s)) ?c = PIPE (EXEC [''ls'', ''a'']) (REDIR (EXEC [''wc'']) ''f'' M_WRCREATE 1)"
    by (simp add: slice_def strlen_def)
  with p w show ?thesis by metis
qed

section \<open>Printing commands\<close>

text \<open>
  A command line for a command: a blank after every word, and parentheses where the grammar needs them. The levels are
  those of the grammar: 0 a line, 1 a command that may be in the background, 2 a pipeline, 3 a simple command or a block.
\<close>

definition atext :: "string list \<Rightarrow> string" where
  "atext as = concat (map (\<lambda>a. a @ '' '') as)"

definition rtext :: "string \<times> int \<times> int \<Rightarrow> string" where
  "rtext r = (case r of (f, m, d) \<Rightarrow> (if m = M_RDONLY then ''<'' else ''>'') @ f @ '' '')"

definition par :: "bool \<Rightarrow> string \<Rightarrow> string" where
  "par p t = (if p then ''('' @ t @ '')'' else t)"

primrec up :: "string cmd \<Rightarrow> nat \<Rightarrow> string" where
  "up (EXEC as) k = atext as"
| "up (REDIR c f m d) k = up c 3 @ rtext (f, m, d)"
| "up (PIPE l r) k = par (2 < k) (up l 3 @ ''|'' @ up r 2)"
| "up (LIST l r) k = par (0 < k) (up l 1 @ '';'' @ up r 0)"
| "up (BACK c) k = par (1 < k) (up c 1 @ ''&'')"

definition unparse :: "string cmd \<Rightarrow> string" where
  "unparse c = up c 0"

section \<open>Scanning printed text\<close>

definition solid :: "string \<Rightarrow> bool" where
  "solid t \<longleftrightarrow> t = [] \<or> hd t \<notin> set whitespace"

lemma drop_ConsD:
  assumes "drop i b = x # xs"
  shows "deref b i = x" "i < length b" "drop (Suc i) b = xs" "b ! i = x"
proof -
  show i: "i < length b" using assms by (metis drop_eq_Nil2 list.discI not_le)
  then have "x # xs = b ! i # drop (Suc i) b" using assms by (metis Cons_nth_drop_Suc)
  then show "deref b i = x" "drop (Suc i) b = xs" "b ! i = x" using i by (simp_all add: deref_def)
qed

lemma skipws_solid: "solid (drop i b) \<Longrightarrow> skipws b i = i"
  by (cases "drop i b") (auto simp: solid_def skipws.simps [of b i] dest: drop_ConsD)

lemma skipws_blank: "drop i b = CHR '' '' # t \<Longrightarrow> solid t \<Longrightarrow> skipws b i = Suc i"
  using skipws_solid [of "Suc i" b] by (subst skipws.simps) (auto simp: drop_ConsD whitespace_def)

lemma skipword_text: "drop i b = w @ CHR '' '' # t \<Longrightarrow> list_all wordchar w \<Longrightarrow> skipword b i = i + length w"
proof (induction w arbitrary: i)
  case Nil
  then show ?case using drop_ConsD [of i b "CHR '' ''" t] by (subst skipword.simps) (auto simp: whitespace_def)
next
  case (Cons x w)
  then have d: "drop i b = x # (w @ CHR '' '' # t)" by simp
  note D = drop_ConsD [OF d]
  have "skipword b i = skipword b (Suc i)" using D Cons.prems(2) by (subst skipword.simps) (simp add: wordchar_def)
  then show ?case using Cons.IH [OF D(3)] Cons.prems(2) by simp
qed

lemma wordchar_facts:
  "wordchar c \<Longrightarrow> c \<notin> set whitespace" "wordchar c \<Longrightarrow> c \<noteq> NUL"
  "wordchar c \<Longrightarrow> c \<notin> set ''<>''" "wordchar c \<Longrightarrow> c \<notin> set ''|)&;''" "wordchar c \<Longrightarrow> c \<notin> set ''(''"
  by (auto simp: wordchar_def symbols_def)

lemma word_hd: "word w \<Longrightarrow> \<exists>x xs. w = x # xs \<and> wordchar x"
  by (cases w) (auto simp: word_def)

lemma gettoken_text:
  assumes "drop i b = w @ CHR '' '' # t" "word w" "solid t"
  shows "gettoken b i = (CHR ''a'', i, i + length w, i + length w + 1)" "slice b (i, i + length w) = w"
proof -
  obtain x xs where w: "w = x # xs" "wordchar x" using word_hd assms(2) by blast
  have d: "drop i b = x # (xs @ CHR '' '' # t)" using assms(1) w by simp
  note D = drop_ConsD [OF d]
  have s: "skipws b i = i" by (rule skipws_solid) (use d w wordchar_facts in \<open>auto simp: solid_def\<close>)
  have k: "skipword b i = i + length w" using skipword_text [OF assms(1)] assms(2) by (simp add: word_def)
  have "drop (i + length w) b = CHR '' '' # t"
  proof -
    have "drop (i + length w) b = drop (length w) (drop i b)" by (simp add: add.commute)
    then show ?thesis unfolding assms(1) by simp
  qed
  then have "skipws b (i + length w) = i + length w + 1" using skipws_blank assms(3) by simp
  moreover have "x \<notin> set symbols" "x \<noteq> NUL" using w(2) by (auto simp: wordchar_def)
  ultimately show "gettoken b i = (CHR ''a'', i, i + length w, i + length w + 1)"
    using D(1) by (auto simp: gettoken_def Let_def s k symbols_def)
  show "slice b (i, i + length w) = w" by (simp add: slice_def assms(1))
qed

lemma gettoken_sym:
  assumes "drop i b = c # t" "c \<in> set symbols" "solid t" "c = CHR ''>'' \<Longrightarrow> t \<noteq> [] \<and> hd t \<noteq> CHR ''>''"
  shows "gettoken b i = (c, i, i + 1, i + 1)"
proof -
  note D = drop_ConsD [OF assms(1)]
  have "c \<notin> set whitespace" using assms(2) by (auto simp: symbols_def whitespace_def)
  then have s: "skipws b i = i" "skipws b (Suc i) = Suc i" using assms(1,3) D(3) by (auto intro!: skipws_solid simp: solid_def)
  have "deref b (Suc i) \<noteq> CHR ''>''" if "c = CHR ''>''"
    using assms(4) [OF that] drop_ConsD(1) [of "Suc i" b "hd t" "tl t"] D(3) by simp
  then show ?thesis using assms(2) D(1) by (auto simp: gettoken_def Let_def s symbols_def)
qed

lemma peek_text:
  assumes "solid (drop i b)" "NUL \<notin> set b"
  shows "peek b i toks = (drop i b \<noteq> [] \<and> hd (drop i b) \<in> set toks, i)"
proof (cases "drop i b")
  case Nil
  then show ?thesis using assms(1) by (simp add: peek_def skipws_solid deref_def)
next
  case (Cons x xs)
  then have "x \<noteq> NUL" using assms(2) drop_ConsD [OF Cons] nth_mem by metis
  then show ?thesis using assms(1) Cons drop_ConsD [OF Cons] by (simp add: peek_def skipws_solid)
qed

section \<open>Parsing printed text\<close>

definition wrap :: "'a cmd \<Rightarrow> 'a \<times> int \<times> int \<Rightarrow> 'a cmd" where
  "wrap c r = (case r of (f, m, d) \<Rightarrow> REDIR c f m d)"

abbreviation ctext :: "string \<Rightarrow> (nat \<times> nat) cmd \<Rightarrow> string cmd" where
  "ctext b \<equiv> map_cmd (slice b)"

abbreviation rtexts :: "(string \<times> int \<times> int) list \<Rightarrow> string" where
  "rtexts rs \<equiv> concat (map rtext rs)"

definition rok :: "string \<times> int \<times> int \<Rightarrow> bool" where
  "rok r \<longleftrightarrow> (case r of (f, m, d) \<Rightarrow> word f \<and> redir_ok m d)"

lemma ctext_add_arg: "ctext b (add_arg t c) = add_arg (slice b t) (ctext b c)"
  by (induction c) simp_all

lemma rtext_hd: "rok r \<Longrightarrow> \<exists>x xs. rtext r = x # xs \<and> x \<in> set ''<>''"
  by (auto simp: rok_def rtext_def split: prod.splits)

lemma M_neq: "M_WRCREATE \<noteq> M_RDONLY"
  by (simp add: M_WRCREATE_def M_RDONLY_def)

lemma solid_rtexts: "list_all rok rs \<Longrightarrow> solid t \<Longrightarrow> solid (rtexts rs @ t)"
  by (cases rs) (use rtext_hd in \<open>fastforce simp: solid_def whitespace_def\<close>)+

text \<open>The text behind a simple command: its end, or one of the symbols that end it.\<close>

definition follow :: "string \<Rightarrow> bool" where
  "follow t \<longleftrightarrow> t = [] \<or> hd t \<in> set ''|)&;''"

lemma follow_solid: "follow t \<Longrightarrow> solid t"
  by (auto simp: follow_def solid_def whitespace_def)

lemma parseredirs_text:
  assumes "NUL \<notin> set b" "drop i b = rtexts rs @ t" "i \<le> length b" "list_all rok rs" "solid t" "t = [] \<or> hd t \<notin> set ''<>''"
  shows "\<exists>c1. parseredirs b c i = POk c1 (length b - length t) \<and> ctext b c1 = foldl wrap (ctext b c) rs"
  using assms(2,3,4)
proof (induction rs arbitrary: i c)
  case Nil
  then have "peek b i ''<>'' = (False, i)" using peek_text [of i b "''<>''"] assms(1,5,6) by auto
  moreover have "i = length b - length t" using Nil by (metis append_Nil concat.simps(1) diff_diff_cancel length_drop list.simps(8))
  ultimately show ?case by (subst parseredirs.simps) simp
next
  case (Cons r rs)
  obtain f m d where r: "r = (f, m, d)" by (metis prod_cases3)
  let ?x = "if m = M_RDONLY then CHR ''<'' else CHR ''>''"
  let ?t = "f @ CHR '' '' # (rtexts rs @ t)"
  have f: "word f" "redir_ok m d" using Cons.prems(3) r by (simp_all add: rok_def)
  obtain y ys where fy: "f = y # ys" "wordchar y" using word_hd f(1) by blast
  have d: "drop i b = ?x # ?t" using Cons.prems(1) r by (simp add: rtext_def [of "(f, m, d)"])
  note D = drop_ConsD [OF d]
  have so: "solid (rtexts rs @ t)" using solid_rtexts Cons.prems(3) assms(5) by simp
  have xs: "?x \<in> set symbols" "?x \<in> set ''<>''" by (simp_all add: symbols_def)
  have xw: "?x \<notin> set whitespace" by (simp add: whitespace_def)
  have p: "peek b i ''<>'' = (True, i)"
    using peek_text [of i b "''<>''"] xw assms(1) xs(2) by (simp add: solid_def d)
  have fs: "solid ?t" "?t \<noteq> []" "hd ?t \<noteq> CHR ''>''"
    using fy wordchar_facts(1,3) by (auto simp: solid_def)
  have g1: "gettoken b i = (?x, i, i + 1, i + 1)"
    using gettoken_sym [OF d xs(1) fs(1)] fs(2,3) by blast
  have g2: "gettoken b (i + 1) = (CHR ''a'', i + 1, i + 1 + length f, i + 1 + length f + 1)"
    "slice b (i + 1, i + 1 + length f) = f"
    using gettoken_text [of "i + 1" b f "rtexts rs @ t"] D(3) f(1) so by simp_all
  let ?j = "i + 1 + length f + 1" and ?c = "REDIR c (i + 1, i + 1 + length f) m d"
  have e: "parseredirs b c i = parseredirs b ?c ?j"
    using f(2) M_neq by (subst parseredirs.simps) (auto simp: p g1 g2(1) [simplified] redir_ok_def)
  have dj: "drop ?j b = rtexts rs @ t"
  proof -
    have "drop ?j b = drop (length f + 1) (drop (Suc i) b)" by (simp add: add.commute add.left_commute)
    then show ?thesis unfolding D(3) by simp
  qed
  have "length b - Suc i = length ?t" using D(3) by (metis length_drop)
  then have "?j \<le> length b" using D(2) by simp
  from Cons.IH [OF dj this, of ?c] Cons.prems(3) show ?case unfolding e by (simp add: g2(2) [simplified] wrap_def r)
qed

lemma drop_text: "drop i b = u @ t \<Longrightarrow> drop (i + length u) b = t"
  by (metis add.commute append_eq_conv_conj drop_drop)

lemma drop_end:
  assumes "drop j b = u @ t" "j \<le> length b"
  shows "drop (length b - length t) b = t"
proof -
  have "length b - j = length u + length t" using assms(1) by (metis length_append length_drop)
  then have "length b - length t = j + length u" using assms(2) by simp
  then show ?thesis using drop_text [OF assms(1)] by simp
qed

lemma pos_end: "drop i b = t \<Longrightarrow> i \<le> length b \<Longrightarrow> i = length b - length t"
  by auto

lemma solid_word: "word w \<Longrightarrow> solid (w @ t)"
  using word_hd wordchar_facts(1) by (fastforce simp: solid_def)

lemma parseexec_loop_end:
  assumes "NUL \<notin> set b" "follow t" "drop i b = t" "i \<le> length b"
  shows "parseexec_loop b ret argc i = POk ret (length b - length t)"
proof -
  have i: "i = length b - length t" using pos_end [OF assms(3,4)] .
  have p: "peek b i ''|)&;'' = (t \<noteq> [], i)"
    using peek_text [of i b "''|)&;''"] assms follow_solid by (auto simp: follow_def)
  show ?thesis
  proof (cases t)
    case Nil
    then have "deref b i = NUL" "skipws b i = i" using assms(3) skipws_solid [of i b] by (simp_all add: deref_def solid_def)
    then have "gettoken b i = (NUL, i, i, i)" by (simp add: gettoken_def Let_def)
    then show ?thesis using p Nil i by (subst parseexec_loop.simps) simp
  next
    case Cons
    then show ?thesis using p i by (subst parseexec_loop.simps) simp
  qed
qed

lemma parseexec_loop_text:
  assumes "NUL \<notin> set b" "list_all rok rs" "follow t"
    and "drop i b = atext as @ rtexts rs @ t" "i \<le> length b" "list_all word as" "as = [] \<Longrightarrow> rs = []" "argc + length as < MAXARGS"
  shows "\<exists>c1. parseexec_loop b ret argc i = POk c1 (length b - length t) \<and>
    ctext b c1 = foldl wrap (foldl (\<lambda>c a. add_arg a c) (ctext b ret) as) rs"
  using assms(4-8)
proof (induction as arbitrary: i ret argc)
  case Nil
  then show ?case using parseexec_loop_end [OF assms(1,3)] by (simp add: atext_def)
next
  case (Cons a as)
  have wa: "word a" "list_all word as" using Cons.prems(3) by simp_all
  obtain x xs where x: "a = x # xs" "wordchar x" using word_hd wa(1) by blast
  let ?t = "atext as @ rtexts rs @ t"
  have d: "drop i b = a @ CHR '' '' # ?t" using Cons.prems(1) by (simp add: atext_def)
  have so: "solid ?t"
  proof (cases as)
    case Nil
    then show ?thesis using solid_rtexts [OF assms(2)] follow_solid [OF assms(3)] by (simp add: atext_def)
  next
    case (Cons a' as')
    then show ?thesis using solid_word wa(2) by (simp add: atext_def)
  qed
  have p: "peek b i ''|)&;'' = (False, i)"
    using peek_text [of i b "''|)&;''"] d x assms(1) wordchar_facts by (auto simp: solid_def)
  note g = gettoken_text [OF d wa(1) so]
  let ?j = "i + length a + 1" and ?ret = "add_arg (i, i + length a) ret"
  have dj: "drop ?j b = ?t" using drop_text [of i b "a @ '' ''" ?t] d by simp
  have "length b - i = length (a @ CHR '' '' # ?t)" using d by (metis length_drop)
  then have jl: "?j \<le> length b" by simp
  have arg: "argc + 1 < MAXARGS" using Cons.prems(5) by simp
  let ?rs = "if as = [] then rs else []" and ?u = "if as = [] then t else ?t"
  have "\<exists>c1. parseredirs b ?ret ?j = POk c1 (length b - length ?u) \<and> ctext b c1 = foldl wrap (ctext b ?ret) ?rs"
  proof (rule parseredirs_text [OF assms(1) _ jl])
    show "drop ?j b = rtexts ?rs @ ?u" using dj by (simp add: atext_def)
    show "list_all rok ?rs" using assms(2) by simp
    show "solid ?u" using so follow_solid [OF assms(3)] by simp
    show "?u = [] \<or> hd ?u \<notin> set ''<>''"
    proof (cases as)
      case Nil
      then show ?thesis using assms(3) by (auto simp: follow_def)
    next
      case (Cons a' as')
      then obtain y ys where "a' = y # ys" "wordchar y" using word_hd [of a'] wa(2) by auto
      then show ?thesis using Cons wordchar_facts(3) by (simp add: atext_def)
    qed
  qed
  then obtain c1 where c1: "parseredirs b ?ret ?j = POk c1 (length b - length ?u)" "ctext b c1 = foldl wrap (ctext b ?ret) ?rs" by blast
  have e: "parseexec_loop b ret argc i = parseexec_loop b c1 (argc + 1) (length b - length ?u)"
    using arg by (subst parseexec_loop.simps) (simp add: p g(1) c1(1) [simplified])
  show ?case
  proof (cases as)
    case Nil
    have "drop (length b - length t) b = t" using drop_end [of ?j b "rtexts rs" t] dj jl Nil by (simp add: atext_def)
    then show ?thesis using parseexec_loop_end [OF assms(1,3)] Nil c1(2) g(2) by (simp add: e ctext_add_arg)
  next
    case (Cons a' as')
    then have "length b - length ?u = ?j" using pos_end [OF dj jl] by simp
    then have e': "parseexec_loop b ret argc i = parseexec_loop b c1 (argc + 1) ?j" using e by simp
    show ?thesis using Cons.IH [OF dj jl wa(2), of "argc + 1" c1] Cons.prems(5) c1(2) g(2) Cons
      unfolding e' by (simp add: ctext_add_arg)
  qed
qed

text \<open>The four levels of the parser on printed text, each with the text that may follow.\<close>

definition parses3 :: "string cmd \<Rightarrow> bool" where
  "parses3 c \<longleftrightarrow> (\<forall>b i n rs t. NUL \<notin> set b \<and> i \<le> length b \<and> 4 * (length b - i) + 2 \<le> n \<and> list_all rok rs \<and> follow t \<and>
     drop i b = up c 3 @ rtexts rs @ t \<longrightarrow>
     (\<exists>c1. parseexec n b i = Some (POk c1 (length b - length t)) \<and> ctext b c1 = foldl wrap c rs))"

definition parses2 :: "string cmd \<Rightarrow> bool" where
  "parses2 c \<longleftrightarrow> (\<forall>b i n t. NUL \<notin> set b \<and> i \<le> length b \<and> 4 * (length b - i) + 3 \<le> n \<and> follow t \<and> (t = [] \<or> hd t \<noteq> CHR ''|'') \<and>
     drop i b = up c 2 @ t \<longrightarrow>
     (\<exists>c1. parsepipe n b i = Some (POk c1 (length b - length t)) \<and> ctext b c1 = c))"

definition parses1 :: "string cmd \<Rightarrow> bool" where
  "parses1 c \<longleftrightarrow> (\<forall>b i n k t. NUL \<notin> set b \<and> i \<le> length b \<and> 4 * (length b - i) + 3 \<le> n \<and> follow t \<and> (t = [] \<or> hd t \<notin> set ''|&'') \<and>
     drop i b = up c 1 @ replicate k CHR ''&'' @ t \<longrightarrow>
     (\<exists>c1 s c2. parsepipe n b i = Some (POk c1 s) \<and> backs b c1 s = (c2, length b - length t) \<and> ctext b c2 = (BACK ^^ k) c))"

definition parses0 :: "string cmd \<Rightarrow> bool" where
  "parses0 c \<longleftrightarrow> (\<forall>b i n t. NUL \<notin> set b \<and> i \<le> length b \<and> 4 * (length b - i) + 4 \<le> n \<and> (t = [] \<or> hd t = CHR '')'') \<and>
     drop i b = up c 0 @ t \<longrightarrow>
     (\<exists>c1. parseline n b i = Some (POk c1 (length b - length t)) \<and> ctext b c1 = c))"

lemma solid_sym:
  "solid (CHR ''('' # t)" "solid (CHR ''|'' # t)" "solid (CHR '';'' # t)" "solid (CHR ''&'' # t)" "solid (CHR '')'' # t)"
  by (simp_all add: solid_def whitespace_def)

lemma solid_up: "cmd_ok word c \<Longrightarrow> solid t \<Longrightarrow> solid (up c k @ t)"
proof (induction c arbitrary: k t)
  case (EXEC as)
  then show ?case by (cases as) (simp_all add: atext_def solid_word)
next
  case (REDIR c f m d)
  then have "solid (rtext (f, m, d) @ t)" using solid_rtexts [of "[(f, m, d)]" t] by (simp add: rok_def)
  then show ?case using REDIR by simp
qed (simp_all add: par_def solid_sym)

lemma exec_parses3:
  assumes "cmd_ok word (EXEC as)"
  shows "parses3 (EXEC as)"
  unfolding parses3_def
proof (intro allI impI, elim conjE)
  fix b i n rs t
  assume nul: "NUL \<notin> set b" and i: "i \<le> length b" and n: "4 * (length b - i) + 2 \<le> n" and rs: "list_all rok rs" and t: "follow t"
    and d: "drop i b = up (EXEC as) 3 @ rtexts rs @ t"
  have as: "list_all word as" "length as < MAXARGS" using assms by simp_all
  obtain n' where n': "n = Suc n'" using n by (cases n) auto
  have d1: "drop i b = atext as @ rtexts rs @ t" using d by simp
  have so: "solid (drop i b)" unfolding d by (rule solid_up [OF assms solid_rtexts [OF rs follow_solid [OF t]]])
  have hd1: "drop i b \<noteq> [] \<Longrightarrow> hd (drop i b) \<notin> set ''(''"
  proof (cases as)
    case Nil
    then show "drop i b \<noteq> [] \<Longrightarrow> hd (drop i b) \<notin> set ''(''"
      using d1 rs t rtext_hd by (cases rs) (fastforce simp: atext_def follow_def)+
  next
    case (Cons a as')
    then obtain y ys where "a = y # ys" "wordchar y" using word_hd [of a] as(1) by auto
    then show "drop i b \<noteq> [] \<Longrightarrow> hd (drop i b) \<notin> set ''(''" using d1 Cons wordchar_facts(5) by (simp add: atext_def)
  qed
  then have p: "peek b i ''('' = (False, i)" using peek_text [OF so nul, of "''(''"] by auto
  let ?rs = "if as = [] then rs else []" and ?u = "if as = [] then t else drop i b"
  have "\<exists>c1. parseredirs b (EXEC []) i = POk c1 (length b - length ?u) \<and> ctext b c1 = foldl wrap (ctext b (EXEC [])) ?rs"
  proof (rule parseredirs_text [OF nul _ i])
    show "drop i b = rtexts ?rs @ ?u" using d1 by (simp add: atext_def)
    show "list_all rok ?rs" using rs by simp
    show "solid ?u" using so follow_solid [OF t] by simp
    show "?u = [] \<or> hd ?u \<notin> set ''<>''"
    proof (cases as)
      case Nil
      then show ?thesis using t by (auto simp: follow_def)
    next
      case (Cons a as')
      then obtain y ys where "a = y # ys" "wordchar y" using word_hd [of a] as(1) by auto
      then show ?thesis using Cons d1 wordchar_facts(3) by (simp add: atext_def)
    qed
  qed
  then obtain c1 where c1: "parseredirs b (EXEC []) i = POk c1 (length b - length ?u)"
      "ctext b c1 = foldl wrap (EXEC []) ?rs" by auto
  have e: "parseexec n b i = Some (parseexec_loop b c1 0 (length b - length ?u))" unfolding n' by (simp add: p c1(1))
  show "\<exists>c1. parseexec n b i = Some (POk c1 (length b - length t)) \<and> ctext b c1 = foldl wrap (EXEC as) rs"
  proof (cases "as = []")
    case True
    have "drop (length b - length t) b = t" using drop_end [of i b "rtexts rs" t] d1 i True by (simp add: atext_def)
    then show ?thesis using parseexec_loop_end [OF nul t] e c1(2) True by simp
  next
    case False
    have f: "foldl (\<lambda>c a. add_arg a c) (EXEC xs) as = EXEC (xs @ as)" for xs by (induction as arbitrary: xs) simp_all
    have "length b - length ?u = i" using False i by simp
    then show ?thesis
      using parseexec_loop_text [OF nul rs t d1 i as(1), of 0 c1] False as(2) c1(2) e f [of "[]"] by auto
  qed
qed

lemma redir_parses3: "parses3 c \<Longrightarrow> rok (f, m, d) \<Longrightarrow> parses3 (REDIR c f m d)"
  unfolding parses3_def
proof (intro allI impI, elim conjE)
  fix b i n rs t
  assume IH: "\<forall>b i n rs t. NUL \<notin> set b \<and> i \<le> length b \<and> 4 * (length b - i) + 2 \<le> n \<and> list_all rok rs \<and> follow t \<and>
     drop i b = up c 3 @ rtexts rs @ t \<longrightarrow>
     (\<exists>c1. parseexec n b i = Some (POk c1 (length b - length t)) \<and> ctext b c1 = foldl wrap c rs)"
    and r: "rok (f, m, d)" and h: "NUL \<notin> set b" "i \<le> length b" "4 * (length b - i) + 2 \<le> n" "list_all rok rs" "follow t"
    "drop i b = up (REDIR c f m d) 3 @ rtexts rs @ t"
  show "\<exists>c1. parseexec n b i = Some (POk c1 (length b - length t)) \<and> ctext b c1 = foldl wrap (REDIR c f m d) rs"
    using IH [rule_format, of b i n "(f, m, d) # rs" t] r h by (simp add: wrap_def)
qed

lemma parses3_2:
  assumes "parses3 c" "up c 2 = up c 3"
  shows "parses2 c"
  unfolding parses2_def
proof (intro allI impI, elim conjE)
  fix b i n t
  assume h: "NUL \<notin> set b" "i \<le> length b" "4 * (length b - i) + 3 \<le> n" "follow t" "t = [] \<or> hd t \<noteq> CHR ''|''" "drop i b = up c 2 @ t"
  obtain n' where n': "n = Suc n'" using h(3) by (cases n) auto
  obtain c1 where c1: "parseexec n' b i = Some (POk c1 (length b - length t))" "ctext b c1 = c"
    using assms(1) [unfolded parses3_def, rule_format, of b i n' "[]" t] h assms(2) n' by auto
  have "drop (length b - length t) b = t" using drop_end [OF h(6,2)] .
  then have "peek b (length b - length t) ''|'' = (False, length b - length t)"
    using peek_text [of "length b - length t" b "''|''"] h follow_solid by auto
  then show "\<exists>c1. parsepipe n b i = Some (POk c1 (length b - length t)) \<and> ctext b c1 = c" using c1 n' by simp
qed

text \<open>The loop over the ampersands.\<close>

lemma backs_text:
  assumes "NUL \<notin> set b" "follow t" "t = [] \<or> hd t \<notin> set ''|&''" "drop i b = replicate k CHR ''&'' @ t" "i \<le> length b"
  shows "\<exists>c2. backs b c i = (c2, length b - length t) \<and> ctext b c2 = (BACK ^^ k) (ctext b c)"
  using assms(4,5)
proof (induction k arbitrary: i c)
  case 0
  then have d: "drop i b = t" by simp
  have "peek b i ''&'' = (False, i)" using peek_text [of i b "''&''"] d assms(1-3) follow_solid by auto
  then show ?case using pos_end [OF d 0(2)] by (subst backs.simps) simp
next
  case (Suc k)
  let ?t = "replicate k CHR ''&'' @ t"
  have d: "drop i b = CHR ''&'' # ?t" using Suc.prems by simp
  note D = drop_ConsD [OF d]
  have so: "solid ?t" using follow_solid [OF assms(2)] by (cases k) (simp_all add: solid_def whitespace_def)
  have p: "peek b i ''&'' = (True, i)" using peek_text [of i b "''&''"] d assms(1) by (simp add: solid_def whitespace_def)
  have g: "gettoken b i = (CHR ''&'', i, i + 1, i + 1)" by (rule gettoken_sym [OF d _ so]) (simp_all add: symbols_def)
  have e: "backs b c i = backs b (BACK c) (Suc i)" by (subst backs.simps) (simp add: p g)
  show ?case using Suc.IH [OF D(3), of "BACK c"] D(2) unfolding e by (simp add: funpow_swap1)
qed

lemma parses2_1:
  assumes "parses2 c" "up c 1 = up c 2"
  shows "parses1 c"
  unfolding parses1_def
proof (intro allI impI, elim conjE)
  fix b i n k t
  assume h: "NUL \<notin> set b" "i \<le> length b" "4 * (length b - i) + 3 \<le> n" "follow t" "t = [] \<or> hd t \<notin> set ''|&''"
    "drop i b = up c 1 @ replicate k CHR ''&'' @ t"
  let ?t = "replicate k CHR ''&'' @ t"
  have f: "follow ?t" "?t = [] \<or> hd ?t \<noteq> CHR ''|''" using h(4,5) by (cases k; auto simp: follow_def)+
  obtain c1 where c1: "parsepipe n b i = Some (POk c1 (length b - length ?t))" "ctext b c1 = c"
    using assms(1) [unfolded parses2_def, rule_format, of b i n ?t] h assms(2) f by auto
  have "drop (length b - length ?t) b = ?t" using drop_end [OF h(6,2)] .
  from backs_text [OF h(1,4,5) this, of c1] c1
  show "\<exists>c1 s c2. parsepipe n b i = Some (POk c1 s) \<and> backs b c1 s = (c2, length b - length t) \<and> ctext b c2 = (BACK ^^ k) c"
    by fastforce
qed

lemma parses1_0:
  assumes "parses1 c" "up c 0 = up c 1"
  shows "parses0 c"
  unfolding parses0_def
proof (intro allI impI, elim conjE)
  fix b i n t
  assume h: "NUL \<notin> set b" "i \<le> length b" "4 * (length b - i) + 4 \<le> n" "t = [] \<or> hd t = CHR '')''" "drop i b = up c 0 @ t"
  obtain n' where n': "n = Suc n'" using h(3) by (cases n) auto
  have f: "follow t" "t = [] \<or> hd t \<notin> set ''|&''" using h(4) by (auto simp: follow_def)
  obtain c1 s c2 where c: "parsepipe n' b i = Some (POk c1 s)" "backs b c1 s = (c2, length b - length t)" "ctext b c2 = c"
    using assms(1) [unfolded parses1_def, rule_format, of b i n' t 0] h assms(2) n' f by auto
  have "drop (length b - length t) b = t" using drop_end [OF h(5,2)] .
  then have "peek b (length b - length t) '';'' = (False, length b - length t)"
    using peek_text [of "length b - length t" b "'';''"] h follow_solid [OF f(1)] by auto
  then show "\<exists>c1. parseline n b i = Some (POk c1 (length b - length t)) \<and> ctext b c1 = c" using c n' by simp
qed

lemma paren_parses3:
  assumes P: "parses0 c" and ok: "cmd_ok word c" and up: "up c 3 = ''('' @ up c 0 @ '')''"
  shows "parses3 c"
  unfolding parses3_def
proof (intro allI impI, elim conjE)
  fix b i n rs t
  assume nul: "NUL \<notin> set b" and i: "i \<le> length b" and n: "4 * (length b - i) + 2 \<le> n" and rs: "list_all rok rs" and t: "follow t"
    and d: "drop i b = up c 3 @ rtexts rs @ t"
  let ?r = "rtexts rs @ t"
  have so: "solid ?r" by (rule solid_rtexts [OF rs follow_solid [OF t]])
  have d1: "drop i b = CHR ''('' # (up c 0 @ CHR '')'' # ?r)" using d up by simp
  note D = drop_ConsD [OF d1]
  define n'' where "n'' = n - 2"
  have n': "n = Suc (Suc n'')" using n by (simp add: n''_def)
  have p: "peek b i ''('' = (True, i)" using peek_text [of i b "''(''"] nul by (simp add: d1 solid_sym)
  have g: "gettoken b i = (CHR ''('', i, i + 1, i + 1)"
    by (rule gettoken_sym [OF d1]) (simp_all add: symbols_def solid_up [OF ok] solid_sym)
  have "NUL \<notin> set b \<and> Suc i \<le> length b \<and> 4 * (length b - Suc i) + 4 \<le> n'' \<and>
      (CHR '')'' # ?r = [] \<or> hd (CHR '')'' # ?r) = CHR '')'') \<and> drop (Suc i) b = up c 0 @ CHR '')'' # ?r"
    using nul D n n' by auto
  then obtain c1 where c1: "parseline n'' b (Suc i) = Some (POk c1 (length b - length (CHR '')'' # ?r)))" "ctext b c1 = c"
    using P unfolding parses0_def by blast
  let ?k = "length b - length (CHR '')'' # ?r)"
  have dk: "drop ?k b = CHR '')'' # ?r" using drop_end [OF D(3)] D(2) by simp
  note K = drop_ConsD [OF dk]
  have p2: "peek b ?k '')'' = (True, ?k)" using peek_text [of ?k b "'')''"] nul unfolding dk by (simp add: solid_sym)
  have g2: "gettoken b ?k = (CHR '')'', ?k, ?k + 1, ?k + 1)" by (rule gettoken_sym [OF dk _ so]) (simp_all add: symbols_def)
  obtain c2 where c2: "parseredirs b c1 (Suc ?k) = POk c2 (length b - length t)" "ctext b c2 = foldl wrap (ctext b c1) rs"
    using parseredirs_text [OF nul K(3) _ rs follow_solid [OF t]] K(2) t by (fastforce simp: follow_def)
  have "parseexec n b i = Some (parseredirs b c1 (Suc ?k))"
    unfolding n' using p g c1(1) p2 g2 by simp
  then show "\<exists>c1. parseexec n b i = Some (POk c1 (length b - length t)) \<and> ctext b c1 = foldl wrap c rs" using c1 c2 by simp
qed

lemma pipe_parses2:
  assumes L: "parses3 l" and R: "parses2 r" and ok: "cmd_ok word r"
  shows "parses2 (PIPE l r)"
  unfolding parses2_def
proof (intro allI impI, elim conjE)
  fix b i n t
  assume nul: "NUL \<notin> set b" and i: "i \<le> length b" and n: "4 * (length b - i) + 3 \<le> n" and t: "follow t" "t = [] \<or> hd t \<noteq> CHR ''|''"
    and d: "drop i b = up (PIPE l r) 2 @ t"
  let ?r = "CHR ''|'' # (up r 2 @ t)"
  have so: "solid (up r 2 @ t)" by (rule solid_up [OF ok follow_solid [OF t(1)]])
  have d1: "drop i b = up l 3 @ ?r" using d by (simp add: par_def)
  obtain n' where n': "n = Suc n'" using n by (cases n) auto
  have "NUL \<notin> set b \<and> i \<le> length b \<and> 4 * (length b - i) + 2 \<le> n' \<and> list_all rok [] \<and> follow ?r \<and> drop i b = up l 3 @ rtexts [] @ ?r"
    using nul i n n' d1 by (simp add: follow_def)
  then obtain c1 where c1: "parseexec n' b i = Some (POk c1 (length b - length ?r))" "ctext b c1 = l"
    using L unfolding parses3_def by (metis foldl_Nil)
  let ?k = "length b - length ?r"
  have dk: "drop ?k b = ?r" using drop_end [OF d1 i] .
  note K = drop_ConsD [OF dk]
  have p2: "peek b ?k ''|'' = (True, ?k)" using peek_text [of ?k b "''|''"] nul unfolding dk by (simp add: solid_sym)
  have g2: "gettoken b ?k = (CHR ''|'', ?k, ?k + 1, ?k + 1)" by (rule gettoken_sym [OF dk _ so]) (simp_all add: symbols_def)
  have ik: "i \<le> ?k" using parse_adv(4) [OF c1(1)] .
  have "NUL \<notin> set b \<and> Suc ?k \<le> length b \<and> 4 * (length b - Suc ?k) + 3 \<le> n' \<and> follow t \<and> (t = [] \<or> hd t \<noteq> CHR ''|'') \<and>
      drop (Suc ?k) b = up r 2 @ t"
    using nul K(2,3) n n' ik t by auto
  then obtain c2 where c2: "parsepipe n' b (Suc ?k) = Some (POk c2 (length b - length t))" "ctext b c2 = r"
    using R unfolding parses2_def by blast
  have "parsepipe n b i = Some (POk (PIPE c1 c2) (length b - length t))" unfolding n' using c1(1) p2 g2 c2(1) by simp
  then show "\<exists>c1. parsepipe n b i = Some (POk c1 (length b - length t)) \<and> ctext b c1 = PIPE l r" using c1 c2 by simp
qed

lemma back_parses1:
  assumes "parses1 c"
  shows "parses1 (BACK c)"
  unfolding parses1_def
proof (intro allI impI, elim conjE)
  fix b i n k t
  assume h: "NUL \<notin> set b" "i \<le> length b" "4 * (length b - i) + 3 \<le> n" "follow t" "t = [] \<or> hd t \<notin> set ''|&''"
    "drop i b = up (BACK c) 1 @ replicate k CHR ''&'' @ t"
  have "drop i b = up c 1 @ replicate (Suc k) CHR ''&'' @ t" using h(6) by (simp add: par_def)
  then have "\<exists>c1 s c2. parsepipe n b i = Some (POk c1 s) \<and> backs b c1 s = (c2, length b - length t) \<and> ctext b c2 = (BACK ^^ Suc k) c"
    using assms h(1-5) unfolding parses1_def by blast
  then show "\<exists>c1 s c2. parsepipe n b i = Some (POk c1 s) \<and> backs b c1 s = (c2, length b - length t) \<and> ctext b c2 = (BACK ^^ k) (BACK c)"
    by (simp add: funpow_swap1)
qed

lemma list_parses0:
  assumes L: "parses1 l" and R: "parses0 r" and ok: "cmd_ok word r"
  shows "parses0 (LIST l r)"
  unfolding parses0_def
proof (intro allI impI, elim conjE)
  fix b i n t
  assume nul: "NUL \<notin> set b" and i: "i \<le> length b" and n: "4 * (length b - i) + 4 \<le> n" and t: "t = [] \<or> hd t = CHR '')''"
    and d: "drop i b = up (LIST l r) 0 @ t"
  let ?r = "CHR '';'' # (up r 0 @ t)"
  have ft: "follow t" using t by (auto simp: follow_def)
  have so: "solid (up r 0 @ t)" by (rule solid_up [OF ok follow_solid [OF ft]])
  have d1: "drop i b = up l 1 @ ?r" using d by (simp add: par_def)
  obtain n' where n': "n = Suc n'" using n by (cases n) auto
  have "NUL \<notin> set b \<and> i \<le> length b \<and> 4 * (length b - i) + 3 \<le> n' \<and> follow ?r \<and> (?r = [] \<or> hd ?r \<notin> set ''|&'') \<and>
      drop i b = up l 1 @ replicate 0 CHR ''&'' @ ?r"
    using nul i n n' d1 by (simp add: follow_def)
  then obtain c1 s c2 where c: "parsepipe n' b i = Some (POk c1 s)" "backs b c1 s = (c2, length b - length ?r)" "ctext b c2 = (BACK ^^ 0) l"
    using L unfolding parses1_def by blast
  let ?k = "length b - length ?r"
  have dk: "drop ?k b = ?r" using drop_end [OF d1 i] .
  note K = drop_ConsD [OF dk]
  have p2: "peek b ?k '';'' = (True, ?k)" using peek_text [of ?k b "'';''"] nul unfolding dk by (simp add: solid_sym)
  have g2: "gettoken b ?k = (CHR '';'', ?k, ?k + 1, ?k + 1)" by (rule gettoken_sym [OF dk _ so]) (simp_all add: symbols_def)
  have ik: "i \<le> ?k" using parse_adv(2) [OF c(1)] backs_adv [OF c(2)] by simp
  have "NUL \<notin> set b \<and> Suc ?k \<le> length b \<and> 4 * (length b - Suc ?k) + 4 \<le> n' \<and> (t = [] \<or> hd t = CHR '')'') \<and>
      drop (Suc ?k) b = up r 0 @ t"
    using nul K(2,3) n n' ik t by auto
  then obtain c3 where c3: "parseline n' b (Suc ?k) = Some (POk c3 (length b - length t))" "ctext b c3 = r"
    using R unfolding parses0_def by blast
  have "parseline n b i = Some (POk (LIST c2 c3) (length b - length t))" unfolding n' using c p2 g2 c3(1) by simp
  then show "\<exists>c1. parseline n b i = Some (POk c1 (length b - length t)) \<and> ctext b c1 = LIST l r" using c c3 by simp
qed

lemma parses_all: "cmd_ok word c \<Longrightarrow> parses0 c \<and> parses1 c \<and> parses2 c \<and> parses3 c"
proof (induction c)
  case (EXEC as)
  then have "parses3 (EXEC as)" by (rule exec_parses3)
  then show ?case using parses3_2 parses2_1 parses1_0 by (metis up.simps(1))
next
  case (REDIR c f m d)
  then have "parses3 (REDIR c f m d)" by (intro redir_parses3) (simp_all add: rok_def)
  then show ?case using parses3_2 parses2_1 parses1_0 by (metis up.simps(2))
next
  case (PIPE l r)
  then have "parses2 (PIPE l r)" by (intro pipe_parses2) simp_all
  moreover from this have "parses1 (PIPE l r)" by (rule parses2_1) (simp add: par_def)
  moreover from this have "parses0 (PIPE l r)" by (rule parses1_0) (simp add: par_def)
  moreover from this have "parses3 (PIPE l r)" by (rule paren_parses3 [OF _ PIPE.prems]) (simp add: par_def)
  ultimately show ?case by simp
next
  case (LIST l r)
  then have "parses0 (LIST l r)" by (intro list_parses0) simp_all
  moreover from this have "parses3 (LIST l r)" by (rule paren_parses3 [OF _ LIST.prems]) (simp add: par_def)
  moreover from this have "parses2 (LIST l r)" by (rule parses3_2) (simp add: par_def)
  moreover from this have "parses1 (LIST l r)" by (rule parses2_1) (simp add: par_def)
  ultimately show ?case by simp
next
  case (BACK c)
  then have "parses1 (BACK c)" by (intro back_parses1) simp_all
  moreover from this have "parses0 (BACK c)" by (rule parses1_0) (simp add: par_def)
  moreover from this have "parses3 (BACK c)" by (rule paren_parses3 [OF _ BACK.prems]) (simp add: par_def)
  moreover from this have "parses2 (BACK c)" by (rule parses3_2) (simp add: par_def)
  ultimately show ?case by simp
qed

lemma symbols_not_NUL: "NUL \<notin> set (rtext (f, m, d)) \<longleftrightarrow> NUL \<notin> set f"
  by (simp add: rtext_def)

lemma word_not_NUL: "word w \<Longrightarrow> NUL \<notin> set w"
  by (auto simp: word_def list_all_iff wordchar_def)

lemma up_not_NUL: "cmd_ok word c \<Longrightarrow> NUL \<notin> set (up c k)"
  by (induction c arbitrary: k) (auto simp: atext_def list_all_iff par_def symbols_not_NUL word_not_NUL dest: word_not_NUL)

text \<open>
  C21. Parsing undoes printing: for every well-formed command, the parser applied to the command line that the printer
  writes for it, parentheses only where the precedence of \<open>|\<close>, \<open>&\<close> and \<open>;\<close> needs them, returns a command whose strings in the
  memory left behind are those of the given command.
\<close>

theorem parsecmd_unparse:
  assumes "cmd_ok word c"
  shows "\<exists>c1 m e. parsecmd (unparse c @ [NUL]) = Some (POk (c1, m) e) \<and> cmd_text m c1 = c"
proof -
  let ?b = "unparse c" and ?s = "unparse c @ [NUL]"
  have nul: "NUL \<notin> set ?b" using up_not_NUL assms by (simp add: unparse_def)
  then have "takeWhile (\<lambda>c. c \<noteq> NUL) ?s = ?b @ takeWhile (\<lambda>c. c \<noteq> NUL) [NUL]" by (intro takeWhile_append2) metis
  then have len: "strlen ?s = length ?b" by (simp add: strlen_def)
  have "NUL \<notin> set ?b \<and> 0 \<le> length ?b \<and> 4 * (length ?b - 0) + 4 \<le> 4 * length ?b + 4 \<and> ([] = [] \<or> hd [] = CHR '')'') \<and>
      drop 0 ?b = up c 0 @ []"
    using nul by (simp add: unparse_def)
  then obtain c1 where c1: "parseline (4 * length ?b + 4) ?b 0 = Some (POk c1 (length ?b - length ([] :: string)))" "map_cmd (slice ?b) c1 = c"
    using parses_all [OF assms] unfolding parses0_def by blast
  have "skipws ?b (length ?b) = length ?b" by (subst skipws.simps) simp
  then have "parsecmd ?s = Some (POk (c1, nulterminate c1 ?s) (length ?b))"
    using c1(1) by (simp add: parsecmd_def Let_def len peek_def)
  from this parsecmd_strings(2) [OF this] show ?thesis using c1(2) len by auto
qed

theorem parsecmd_unparse_witness:
  "\<exists>c1 m e. parsecmd (''a b |(c >f ;d )&;(e &)|g '' @ [NUL]) = Some (POk (c1, m) e) \<and>
     cmd_text m c1 = LIST (BACK (PIPE (EXEC [''a'', ''b'']) (LIST (REDIR (EXEC [''c'']) ''f'' M_WRCREATE 1) (EXEC [''d'']))))
       (PIPE (BACK (EXEC [''e''])) (EXEC [''g'']))"
proof -
  let ?c = "LIST (BACK (PIPE (EXEC [''a'', ''b'']) (LIST (REDIR (EXEC [''c'']) ''f'' M_WRCREATE 1) (EXEC [''d'']))))
       (PIPE (BACK (EXEC [''e''])) (EXEC [''g'']))"
  have "cmd_ok word ?c" by (simp add: word_def wordchar_def whitespace_def symbols_def redir_ok_def MAXARGS_def)
  moreover have "unparse ?c = ''a b |(c >f ;d )&;(e &)|g ''"
    using M_neq by (simp add: unparse_def atext_def rtext_def par_def)
  ultimately show ?thesis using parsecmd_unparse [of ?c] by simp
qed

end
