(* ===== verification/Shell.thy ===== *)
theory Shell
  imports Sh Links
begin

text \<open>
  The rest of the shell (sh.c, jobs.h): running a parsed command, the list of jobs, and one turn of the main loop. A program is the tree of the system
  calls it makes, with a continuation for every answer; the answers the main loop gets are its argument. The list of
  jobs is the linked structure of the code, with job addresses as numbers and 0 for the null pointer; \<open>cmd\<close> of \<open>struct job\<close> is never used.
\<close>

section \<open>Running a command\<close>

datatype uprog =
    UExit int
  | UExec string "string list" uprog
  | UPrintf int string uprog
  | UClose int uprog
  | UOpen string int "int \<Rightarrow> uprog"
  | UDup int uprog
  | UPipe "(int \<times> int) option \<Rightarrow> uprog"
  | UFork uprog "int \<Rightarrow> uprog"
  | UWait uprog

text \<open>\<open>UExec\<close> continues only when exec fails; \<open>UFork\<close> has the program of the child and that of the parent for each answer.\<close>

definition nl :: string where "nl = [CHR 0x0A]"

definition sh_panic :: "string \<Rightarrow> uprog" where
  "sh_panic s = UPrintf 2 (s @ nl) (UExit 0)"

definition fork1 :: "uprog \<Rightarrow> uprog \<Rightarrow> uprog" where
  "fork1 child parent = UFork child (\<lambda>pid. if pid = -1 then sh_panic ''fork'' else parent)"

primrec runcmd :: "string cmd \<Rightarrow> uprog" where
  "runcmd (EXEC argv) =
     (case argv of
        [] \<Rightarrow> UExit 0
      | a # _ \<Rightarrow> UExec a argv (UPrintf 2 (''exec '' @ a @ '' failed'' @ nl) (UExit (-1))))"
| "runcmd (REDIR c f mode fd) =
     UClose fd (UOpen f mode (\<lambda>r. if r < 0 then UPrintf 2 (''open '' @ f @ '' failed'' @ nl) (UExit (-1)) else runcmd c))"
| "runcmd (LIST l r) = fork1 (runcmd l) (UWait (runcmd r))"
| "runcmd (PIPE l r) =
     UPipe (\<lambda>p. case p of
        None \<Rightarrow> sh_panic ''pipe''
      | Some (p0, p1) \<Rightarrow>
          fork1 (UClose 1 (UDup p1 (UClose p0 (UClose p1 (runcmd l)))))
            (fork1 (UClose 0 (UDup p0 (UClose p0 (UClose p1 (runcmd r)))))
               (UClose p0 (UClose p1 (UWait (UWait (UExit 0)))))))"
| "runcmd (BACK c) = runcmd c"

section \<open>The list of jobs\<close>

record job =
  jid :: int
  jfd :: int
  jnext :: nat
  jprev :: nat

record shell =
  jmem :: "nat \<Rightarrow> job"
  jfirst :: nat
  jlast :: nat
  fgJob :: nat
  jobcntr :: int
  bPrintDollar :: bool

definition upd_job :: "nat \<Rightarrow> (job \<Rightarrow> job) \<Rightarrow> shell \<Rightarrow> shell" where
  "upd_job j f s = s\<lparr>jmem := (jmem s)(j := f (jmem s j))\<rparr>"

definition addJobToList :: "nat \<Rightarrow> shell \<Rightarrow> shell" where
  "addJobToList j s =
     (if jfirst s = 0 then s\<lparr>jfirst := j, jlast := j\<rparr>
      else let s1 = upd_job j (\<lambda>q. q\<lparr>jprev := jlast s\<rparr>) s;
               s2 = upd_job (jlast s1) (\<lambda>q. q\<lparr>jnext := j\<rparr>) s1
           in s2\<lparr>jlast := j\<rparr>)"

definition removeJobFromList :: "nat \<Rightarrow> shell \<Rightarrow> shell" where
  "removeJobFromList j s =
     (let s1 = (if fgJob s = j then s\<lparr>fgJob := 0\<rparr> else s);
          s2 = (if jfirst s1 = j \<and> jlast s1 = j then s1\<lparr>jfirst := 0\<rparr> else s1);
          s3 = (if jfirst s2 = j then s2\<lparr>jfirst := jnext (jmem s2 j)\<rparr> else s2);
          s4 = (if jlast s3 = j then s3\<lparr>jlast := jprev (jmem s3 j)\<rparr> else s3);
          s5 = (if jprev (jmem s4 j) \<noteq> 0 then upd_job (jprev (jmem s4 j)) (\<lambda>q. q\<lparr>jnext := jnext (jmem s4 j)\<rparr>) s4 else s4)
      in if jnext (jmem s5 j) \<noteq> 0 then upd_job (jnext (jmem s5 j)) (\<lambda>q. q\<lparr>jprev := jprev (jmem s5 j)\<rparr>) s5 else s5)"

text \<open>
  clearFinishedJobs with the answers of isJobEmpty; \<open>fds\<close> are the descriptors closed so far. free leaves the contents of the
  job in place, which the code goes on to read. The loop ends when the links are those of a list.
\<close>

partial_function (option) clearFinishedJobs_loop :: "(int \<Rightarrow> int) \<Rightarrow> nat \<Rightarrow> int list \<Rightarrow> shell \<Rightarrow> (int list \<times> shell) option" where
  "clearFinishedJobs_loop isJobEmpty j fds s =
     (if j = 0 then Some (fds, s)
      else if isJobEmpty (jid (jmem s j)) = 1 then
        (let s1 = removeJobFromList j s
         in clearFinishedJobs_loop isJobEmpty (jnext (jmem s1 j)) (fds @ [jfd (jmem s j)]) s1)
      else clearFinishedJobs_loop isJobEmpty (jnext (jmem s j)) fds s)"

definition clearFinishedJobs :: "(int \<Rightarrow> int) \<Rightarrow> shell \<Rightarrow> (int list \<times> shell) option" where
  "clearFinishedJobs isJobEmpty s = clearFinishedJobs_loop isJobEmpty (jfirst s) [] s"

text \<open>The jobs from one on, and the job that fg looks for: the null pointer, read as the first word of the program, ends the search in any case.\<close>

partial_function (option) jobs_from :: "nat list \<Rightarrow> nat \<Rightarrow> shell \<Rightarrow> nat list option" where
  "jobs_from js j s = (if j = 0 then Some js else jobs_from (js @ [j]) (jnext (jmem s j)) s)"

partial_function (option) find_job :: "int \<Rightarrow> nat \<Rightarrow> shell \<Rightarrow> nat option" where
  "find_job n j s = (if j = 0 then Some 0 else if jid (jmem s j) = n then Some j else find_job n (jnext (jmem s j)) s)"

section \<open>The main loop\<close>

text \<open>What the shell itself does during a turn, and the answers it gets from the kernel and from malloc.\<close>

datatype act =
    APrintf int string
  | AClose int
  | AWrite int string
  | AChdir string
  | APrintjob int
  | AFork uprog
  | AAttachjob int nat
  | AWait
  | AExit int

record answers =
  a_isJobEmpty :: "int \<Rightarrow> int"
  a_chdir :: int
  a_pipe :: "(int \<times> int) option"
  a_malloc :: nat
  a_fork :: int

datatype turn = Next shell "act list" | Exited "act list"

primrec atoi_loop :: "int \<Rightarrow> string \<Rightarrow> int" where
  "atoi_loop n [] = n"
| "atoi_loop n (c # cs) =
     (if 48 \<le> (of_char c :: int) \<and> (of_char c :: int) \<le> 57 then atoi_loop (s32 (n * 10 + of_char c - 48)) cs else n)"

definition atoi :: "string \<Rightarrow> int" where
  "atoi s = atoi_loop 0 s"

text \<open>\<open>line\<close> is the string that gets left in the buffer.\<close>

definition getcmd :: "string \<Rightarrow> shell \<Rightarrow> int \<times> act list \<times> shell" where
  "getcmd line s =
     (let pr = (if bPrintDollar s then [APrintf 2 ''$ ''] else [])
      in if line = [] \<and> fgJob s \<noteq> 0 then (0, pr @ [AClose (jfd (jmem s (fgJob s)))], s\<lparr>fgJob := 0\<rparr>)
         else if line = [] then (-1, pr, s)
         else (int (length line), pr, s))"

text \<open>The process between the shell and the command: it reads from the job's pipe.\<close>

definition job_prog :: "int \<Rightarrow> int \<Rightarrow> string cmd \<Rightarrow> uprog" where
  "job_prog p0 p1 c = UClose 0 (UDup p0 (UClose p1 (fork1 (runcmd c) (UExit 0))))"

definition is_BACK :: "'a cmd \<Rightarrow> bool" where
  "is_BACK c = (case c of BACK _ \<Rightarrow> True | _ \<Rightarrow> False)"

definition start_job :: "answers \<Rightarrow> string \<Rightarrow> act list \<Rightarrow> shell \<Rightarrow> turn" where
  "start_job ans line acts s =
     (case a_pipe ans of
        None \<Rightarrow> Exited (acts @ [APrintf 2 (''pipe'' @ nl), AExit 0])
      | Some (p0, p1) \<Rightarrow>
          (let j = a_malloc ans;
               s1 = s\<lparr>jobcntr := jobcntr s + 1,
                       jmem := (jmem s)(j := \<lparr>jid = jobcntr s + 1, jfd = p1, jnext = 0, jprev = 0\<rparr>)\<rparr>
           in case parsecmd (line @ [NUL]) of
                Some (POk (c, m) _) \<Rightarrow>
                  (let cmd = cmd_text m c;
                       acts1 = acts @ [AFork (job_prog p0 p1 cmd)]
                   in if a_fork ans = -1 then Exited (acts1 @ [APrintf 2 (''fork'' @ nl), AExit 0])
                      else let s2 = (if is_BACK cmd then s1 else s1\<lparr>fgJob := j, bPrintDollar := False\<rparr>)
                           in Next (addJobToList j s2) (acts1 @ [AClose p0, AAttachjob (a_fork ans) j, AWait]))
              | Some (PErr e) \<Rightarrow> Exited (acts @ [APrintf 2 (e @ nl), AExit 0])
              | None \<Rightarrow> Exited acts))"

definition starts :: "string \<Rightarrow> string \<Rightarrow> bool" where
  "starts w line \<longleftrightarrow> (\<forall>i < length w. deref line i = w ! i)"

definition main_turn :: "answers \<Rightarrow> string \<Rightarrow> shell \<Rightarrow> turn option" where
  "main_turn ans line s =
     (case getcmd line s of (cmdLen, acts, s0) \<Rightarrow>
        if cmdLen < 0 then Some (Exited (acts @ [AExit 0]))
        else (case clearFinishedJobs (a_isJobEmpty ans) s0 of
                None \<Rightarrow> None
              | Some (fds, s1) \<Rightarrow>
                  (let acts1 = acts @ map AClose fds
                   in if fgJob s1 \<noteq> 0 then
                        Some (Next (s1\<lparr>bPrintDollar := False\<rparr>) (acts1 @ [AWrite (jfd (jmem s1 (fgJob s1))) (take (nat cmdLen) line)]))
                      else
                        let s2 = s1\<lparr>bPrintDollar := True\<rparr>
                        in if starts ''cd '' line then
                             (let path = drop 3 (butlast line)
                              in Some (Next s2 (acts1 @ AChdir path #
                                   (if a_chdir ans < 0 then [APrintf 2 (''cannot cd '' @ path @ nl)] else []))))
                           else if starts ''jobs'' line \<and> (deref line 4 = CHR 0x0A \<or> deref line 4 = CHR '' '') then
                             (case jobs_from [] (jfirst s2) s2 of
                                None \<Rightarrow> None
                              | Some js \<Rightarrow>
                                  Some (Next s2 (acts1 @ map (\<lambda>j. APrintjob (jid (jmem s2 j))) js @
                                    (if jfirst s2 = 0 then [APrintf 1 (''There are no jobs.'' @ nl)] else []))))
                           else if starts ''fg'' line \<and> (deref line 2 = CHR 0x0A \<or> deref line 2 = CHR '' '') then
                             (case find_job (atoi (drop 3 line)) (jfirst s2) s2 of
                                None \<Rightarrow> None
                              | Some j \<Rightarrow> Some (Next (s2\<lparr>fgJob := j\<rparr>) acts1))
                           else if deref line 0 \<noteq> CHR 0x0A then Some (start_job ans line acts1 s2)
                           else Some (Next s2 acts1))))"

section \<open>The list of jobs as a list\<close>

definition nxt :: "shell \<Rightarrow> nat \<Rightarrow> nat" where
  "nxt s a = (if a = 0 then jfirst s else jnext (jmem s a))"

definition prv :: "shell \<Rightarrow> nat \<Rightarrow> nat" where
  "prv s a = (if a = 0 then jlast s else jprev (jmem s a))"

text \<open>The jobs \<open>xs\<close>, first to last, as the links have them; the null pointer plays the part of the head.\<close>

definition joblist :: "shell \<Rightarrow> nat list \<Rightarrow> bool" where
  "joblist s xs \<longleftrightarrow> links (nxt s) (prv s) 0 xs"

lemma joblist_first: "joblist s xs \<Longrightarrow> jfirst s = hd (xs @ [0])"
  by (cases xs) (auto simp: joblist_def links_def nxt_def)

text \<open>What a job keeps when links change.\<close>

definition job_data :: "shell \<Rightarrow> nat \<Rightarrow> int \<times> int" where
  "job_data s j = (jid (jmem s j), jfd (jmem s j))"

lemma addJobToList_appends:
  assumes l: "joblist s xs" and j: "j \<noteq> 0" "j \<notin> set xs" "jnext (jmem s j) = 0" "jprev (jmem s j) = 0"
  shows "joblist (addJobToList j s) (xs @ [j])" "job_data (addJobToList j s) = job_data s"
    "fgJob (addJobToList j s) = fgJob s"
proof -
  let ?t = "addJobToList j s"
  show "job_data ?t = job_data s" "fgJob ?t = fgJob s"
    by (auto simp: addJobToList_def Let_def upd_job_def job_data_def)
  have e: "jfirst s = 0 \<longleftrightarrow> xs = []" using joblist_first [OF l] l by (cases xs) (auto simp: joblist_def links_def)
  have la: "jlast s = (if xs = [] then 0 else last xs)"
    using l seg_append [of "0 # xs" "[0]" "nxt s" "prv s"] by (simp add: joblist_def links_def prv_def)
  have lj: "jlast s \<noteq> j" using la j last_in_set [of xs] by auto
  have z: "xs \<noteq> [] \<Longrightarrow> jlast s \<noteq> 0" using la l last_in_set [of xs] by (metis distinct.simps(2) joblist_def links_def)
  have "nxt ?t = (nxt s)(prv s 0 := j, j := 0)"
    using e la lj z j by (auto simp: fun_eq_iff nxt_def prv_def addJobToList_def Let_def upd_job_def)
  moreover have "prv ?t = (prv s)(0 := j, j := prv s 0)"
    using e la lj z j by (auto simp: fun_eq_iff prv_def addJobToList_def Let_def upd_job_def)
  ultimately show "joblist ?t (xs @ [j])"
    using links_append [of "nxt s" "prv s" 0 xs j] l j by (simp add: joblist_def)
qed

definition unlinked :: "nat \<Rightarrow> (nat \<Rightarrow> job) \<Rightarrow> nat \<Rightarrow> job" where
  "unlinked j m =
     (let m1 = (if jprev (m j) \<noteq> 0 then m(jprev (m j) := (m (jprev (m j)))\<lparr>jnext := jnext (m j)\<rparr>) else m)
      in if jnext (m1 j) \<noteq> 0 then m1(jnext (m1 j) := (m1 (jnext (m1 j)))\<lparr>jprev := jprev (m1 j)\<rparr>) else m1)"

lemma removeJobFromList_sel:
  assumes "j \<noteq> 0"
  shows "jmem (removeJobFromList j s) = unlinked j (jmem s)"
    "jfirst (removeJobFromList j s) = (if jfirst s = j then if jlast s = j then 0 else jnext (jmem s j) else jfirst s)"
    "jlast (removeJobFromList j s) = (if jlast s = j then jprev (jmem s j) else jlast s)"
    "fgJob (removeJobFromList j s) = (if fgJob s = j then 0 else fgJob s)"
proof -
  let ?s2 = "\<lambda>s1. if jfirst s1 = j \<and> jlast s1 = j then s1\<lparr>jfirst := 0\<rparr> else s1"
  let ?s1 = "if fgJob s = j then s\<lparr>fgJob := 0\<rparr> else s"
  let ?s3 = "\<lambda>s2. if jfirst s2 = j then s2\<lparr>jfirst := jnext (jmem s2 j)\<rparr> else s2"
  let ?s4 = "\<lambda>s3. if jlast s3 = j then s3\<lparr>jlast := jprev (jmem s3 j)\<rparr> else s3"
  let ?a = "?s4 (?s3 (?s2 ?s1))"
  have a: "jmem ?a = jmem s" "fgJob ?a = (if fgJob s = j then 0 else fgJob s)"
    "jfirst ?a = (if jfirst s = j then if jlast s = j then 0 else jnext (jmem s j) else jfirst s)"
    "jlast ?a = (if jlast s = j then jprev (jmem s j) else jlast s)"
    using assms by simp_all
  let ?s5 = "\<lambda>s4. if jprev (jmem s4 j) \<noteq> 0 then upd_job (jprev (jmem s4 j)) (\<lambda>q. q\<lparr>jnext := jnext (jmem s4 j)\<rparr>) s4 else s4"
  let ?s6 = "\<lambda>s5. if jnext (jmem s5 j) \<noteq> 0 then upd_job (jnext (jmem s5 j)) (\<lambda>q. q\<lparr>jprev := jprev (jmem s5 j)\<rparr>) s5 else s5"
  have r: "removeJobFromList j s = ?s6 (?s5 ?a)" unfolding removeJobFromList_def Let_def ..
  have k: "jmem (?s6 (?s5 u)) = unlinked j (jmem u)" "jfirst (?s6 (?s5 u)) = jfirst u" "jlast (?s6 (?s5 u)) = jlast u"
    "fgJob (?s6 (?s5 u)) = fgJob u" for u
    by (simp_all add: unlinked_def Let_def upd_job_def)
  show "jmem (removeJobFromList j s) = unlinked j (jmem s)"
    by (rule trans [OF arg_cong [OF r, of jmem] trans [OF k(1) [of ?a] arg_cong [OF a(1), of "unlinked j"]]])
  show "jfirst (removeJobFromList j s) = (if jfirst s = j then if jlast s = j then 0 else jnext (jmem s j) else jfirst s)"
    by (rule trans [OF arg_cong [OF r, of jfirst] trans [OF k(2) [of ?a] a(3)]])
  show "jlast (removeJobFromList j s) = (if jlast s = j then jprev (jmem s j) else jlast s)"
    by (rule trans [OF arg_cong [OF r, of jlast] trans [OF k(3) [of ?a] a(4)]])
  show "fgJob (removeJobFromList j s) = (if fgJob s = j then 0 else fgJob s)"
    by (rule trans [OF arg_cong [OF r, of fgJob] trans [OF k(4) [of ?a] a(2)]])
qed

lemma unlinked_sel:
  assumes "jprev (m j) \<noteq> j" "jnext (m j) \<noteq> j"
  shows "jid (unlinked j m a) = jid (m a)" "jfd (unlinked j m a) = jfd (m a)"
    "jnext (unlinked j m a) = (if a = jprev (m j) \<and> a \<noteq> 0 then jnext (m j) else jnext (m a))"
    "jprev (unlinked j m a) = (if a = jnext (m j) \<and> a \<noteq> 0 then jprev (m j) else jprev (m a))"
  using assms by (simp_all add: unlinked_def Let_def)

lemma removeJobFromList_removes:
  assumes l: "joblist s xs" and j: "j \<in> set xs"
  shows "joblist (removeJobFromList j s) (remove1 j xs)" "job_data (removeJobFromList j s) = job_data s"
    "fgJob (removeJobFromList j s) = (if fgJob s = j then 0 else fgJob s)"
    "jnext (jmem (removeJobFromList j s) j) = jnext (jmem s j)"
proof -
  let ?t = "removeJobFromList j s"
  have L: "links (nxt s) (prv s) 0 xs" using l by (simp add: joblist_def)
  have j0: "j \<noteq> 0" using L j by (metis distinct.simps(2) links_def)
  have inv: "nxt s (prv s j) = j" "prv s (nxt s j) = j" using links_inverse [OF L] j by simp_all
  have nj: "jnext (jmem s j) \<noteq> j" "jprev (jmem s j) \<noteq> j" 
    using links_irrefl [OF L j] j0 by (simp_all add: nxt_def prv_def)
  have f: "jfirst s = j \<longleftrightarrow> jprev (jmem s j) = 0" "jlast s = j \<longleftrightarrow> jnext (jmem s j) = 0"
    using inv links_inverse [OF L, of 0] j0 by (auto simp: nxt_def prv_def split: if_splits)
  note R = removeJobFromList_sel [OF j0, of s] and U = unlinked_sel [of "jmem s" j, OF nj(2,1)]
  show "job_data ?t = job_data s" by (simp add: fun_eq_iff job_data_def R U)
  show "fgJob ?t = (if fgJob s = j then 0 else fgJob s)" by (rule R(4))
  show "jnext (jmem ?t j) = jnext (jmem s j)" using nj by (simp add: R U)
  have "nxt ?t = (nxt s)(prv s j := nxt s j)"
    using f j0 by (auto simp: fun_eq_iff nxt_def prv_def R U)
  moreover have "prv ?t = (prv s)(nxt s j := prv s j)"
    using f j0 by (auto simp: fun_eq_iff nxt_def prv_def R U)
  ultimately show "joblist ?t (remove1 j xs)" using links_remove [OF L j] by (simp add: joblist_def)
qed

lemma joblist_next:
  assumes "joblist s (as @ j # bs)"
  shows "jnext (jmem s j) = hd (bs @ [0])" "j \<noteq> 0" "j \<notin> set as" "j \<notin> set bs" "0 \<notin> set bs"
proof -
  have "seg (nxt s) (prv s) ((0 # as) @ (j # bs @ [0]))" "distinct (0 # as @ j # bs)" using assms by (simp_all add: joblist_def links_def)
  then show "j \<noteq> 0" "j \<notin> set as" "j \<notin> set bs" "0 \<notin> set bs" by auto
  have "nxt s j = hd (bs @ [0])"
    using \<open>seg (nxt s) (prv s) ((0 # as) @ (j # bs @ [0]))\<close> seg_append [of "0 # as" "j # bs @ [0]" "nxt s" "prv s"]
      seg_Cons [of "bs @ [0]" "nxt s" "prv s" j] by simp
  then show "jnext (jmem s j) = hd (bs @ [0])" using \<open>j \<noteq> 0\<close> by (simp add: nxt_def)
qed

lemma clearFinishedJobs_loop_filters:
  fixes E :: "int \<Rightarrow> int" and D :: "nat \<Rightarrow> int \<times> int"
  defines "fin \<equiv> \<lambda>j. E (fst (D j)) = 1"
  assumes "joblist s (as @ ys)" "job_data s = D"
  shows "\<exists>t. clearFinishedJobs_loop E (hd (ys @ [0])) fds s = Some (fds @ map (\<lambda>j. snd (D j)) (filter fin ys), t) \<and>
    joblist t (as @ filter (\<lambda>j. \<not> fin j) ys) \<and> job_data t = D \<and>
    fgJob t = (if fgJob s \<in> set ys \<and> fin (fgJob s) then 0 else fgJob s)"
  using assms(2,3)
proof (induction ys arbitrary: as s fds)
  case Nil
  then show ?case by (subst clearFinishedJobs_loop.simps) simp
next
  case (Cons j ys)
  have fin: "fin j \<longleftrightarrow> E (jid (jmem s j)) = 1" and D: "snd (D j) = jfd (jmem s j)"
    using Cons.prems(2) by (auto simp: fin_def job_data_def)
  note J = joblist_next [OF Cons.prems(1)]
  show ?case
  proof (cases "fin j")
    case True
    let ?s = "removeJobFromList j s"
    note R = removeJobFromList_removes [OF Cons.prems(1), of j]
    have d: "job_data ?s = D" "jnext (jmem ?s j) = hd (ys @ [0])" using R(2,4) J(1) Cons.prems(2) by simp_all
    have "joblist ?s (as @ ys)" using R(1) J(3) by (simp add: remove1_append)
    from Cons.IH [OF this d(1), of "fds @ [jfd (jmem s j)]"] obtain t where
      t: "clearFinishedJobs_loop E (hd (ys @ [0])) (fds @ [jfd (jmem s j)]) ?s =
          Some ((fds @ [jfd (jmem s j)]) @ map (\<lambda>j. snd (D j)) (filter fin ys), t)"
      "joblist t (as @ filter (\<lambda>j. \<not> fin j) ys)" "job_data t = D"
      "fgJob t = (if fgJob ?s \<in> set ys \<and> fin (fgJob ?s) then 0 else fgJob ?s)"
      by blast
    have e: "clearFinishedJobs_loop E j fds s = clearFinishedJobs_loop E (hd (ys @ [0])) (fds @ [jfd (jmem s j)]) ?s"
      using True J(2) d(2) fin by (subst clearFinishedJobs_loop.simps) (simp add: Let_def)
    have "fgJob t = (if fgJob s \<in> set (j # ys) \<and> fin (fgJob s) then 0 else fgJob s)"
      unfolding t(4) using R(3) J(4,5) True by auto
    then show ?thesis using t(1-3) True e D by simp
  next
    case False
    from Cons.IH [of s "as @ [j]" fds] Cons.prems obtain t where
      t: "clearFinishedJobs_loop E (hd (ys @ [0])) fds s = Some (fds @ map (\<lambda>j. snd (D j)) (filter fin ys), t)"
      "joblist t ((as @ [j]) @ filter (\<lambda>j. \<not> fin j) ys)" "job_data t = D"
      "fgJob t = (if fgJob s \<in> set ys \<and> fin (fgJob s) then 0 else fgJob s)"
      by auto
    have "clearFinishedJobs_loop E j fds s = clearFinishedJobs_loop E (hd (ys @ [0])) fds s"
      using False J(1,2) fin by (subst clearFinishedJobs_loop.simps) simp
    then show ?thesis using t False by auto
  qed
qed

text \<open>
  C25. The shell's linked list of jobs behaves as a list: a job whose links are null is appended by addJobToList, and clearFinishedJobs
  always ends, closes the pipes of exactly the finished jobs, in order, and leaves exactly the others, in order, with their numbers and
  descriptors; the foreground job is forgotten exactly when it is one of the finished ones.
\<close>

theorem jobs_refine_list:
  assumes "joblist s xs"
  shows "(j \<noteq> 0 \<and> j \<notin> set xs \<and> jnext (jmem s j) = 0 \<and> jprev (jmem s j) = 0 \<longrightarrow>
      joblist (addJobToList j s) (xs @ [j]) \<and> job_data (addJobToList j s) = job_data s) \<and>
    (\<exists>t. clearFinishedJobs E s = Some (map (\<lambda>j. snd (job_data s j)) (filter (\<lambda>j. E (fst (job_data s j)) = 1) xs), t) \<and>
      joblist t (filter (\<lambda>j. E (fst (job_data s j)) \<noteq> 1) xs) \<and> job_data t = job_data s \<and>
      fgJob t = (if fgJob s \<in> set xs \<and> E (fst (job_data s (fgJob s))) = 1 then 0 else fgJob s))"
  using addJobToList_appends [OF assms, of j] clearFinishedJobs_loop_filters [of s "[]" xs "job_data s" E "[]"] assms joblist_first [OF assms]
  by (simp add: clearFinishedJobs_def)

text \<open>The list after three jobs have been added to the empty one.\<close>

definition jobs_empty :: shell where
  "jobs_empty = \<lparr>jmem = (\<lambda>j. \<lparr>jid = int j, jfd = int j + 10, jnext = 0, jprev = 0\<rparr>), jfirst = 0, jlast = 0, fgJob = 2,
     jobcntr = 3, bPrintDollar = True\<rparr>"

definition jobs_sample :: shell where
  "jobs_sample = addJobToList 3 (addJobToList 2 (addJobToList 1 jobs_empty))"

lemma jobs_sample_list: "joblist jobs_sample [1, 2, 3]"
  by (simp add: joblist_def links_def nxt_def prv_def jobs_sample_def jobs_empty_def addJobToList_def upd_job_def Let_def)

theorem jobs_refine_list_witness:
  "\<exists>t. clearFinishedJobs (\<lambda>n. if n = 2 then 1 else 0) jobs_sample = Some ([12], t) \<and> joblist t [1, 3] \<and> fgJob t = 0"
proof -
  have d: "job_data jobs_sample = (\<lambda>j. (int j, int j + 10))" "fgJob jobs_sample = 2"
    by (auto simp: fun_eq_iff job_data_def jobs_sample_def jobs_empty_def addJobToList_def upd_job_def Let_def)
  show ?thesis using jobs_refine_list [OF jobs_sample_list, of 0 "\<lambda>n. if n = 2 then 1 else 0"] d by auto
qed

section \<open>What a command executes\<close>

text \<open>
  The descriptors of a process name what they are open on. \<open>run\<close> executes a program tree when every system call succeeds that can: the
  lowest free descriptor is taken, as fdalloc of sysfile.c does, files can be opened and exec finds its program. The result is the list of
  the programs executed with their descriptors, and the number of the next pipe.
\<close>

datatype fdobj = FInherited nat | FFile string int | FPipeR nat | FPipeW nat

type_synonym fds = "int \<Rightarrow> fdobj option"

definition lowest_fd :: "fds \<Rightarrow> int option" where
  "lowest_fd fds = map_option int (find_idx (\<lambda>d. fds (int d) = None) [0..<16])"

primrec run :: "uprog \<Rightarrow> fds \<Rightarrow> nat \<Rightarrow> (string list \<times> fds) list \<times> nat" where
  "run (UExit n) fds k = ([], k)"
| "run (UExec f argv p) fds k = ([(argv, fds)], k)"
| "run (UPrintf d t p) fds k = run p fds k"
| "run (UClose d p) fds k = run p (fds(d := None)) k"
| "run (UOpen f m c) fds k =
     (case lowest_fd fds of None \<Rightarrow> run (c (-1)) fds k | Some d \<Rightarrow> run (c d) (fds(d \<mapsto> FFile f m)) k)"
| "run (UDup d p) fds k =
     (case lowest_fd fds of None \<Rightarrow> run p fds k | Some e \<Rightarrow> run p (if fds d = None then fds else fds(e := fds d)) k)"
| "run (UPipe c) fds k =
     (case lowest_fd fds of
        None \<Rightarrow> run (c None) fds k
      | Some p0 \<Rightarrow>
          (case lowest_fd (fds(p0 \<mapsto> FPipeR k)) of
             None \<Rightarrow> run (c None) fds k
           | Some p1 \<Rightarrow> run (c (Some (p0, p1))) (fds(p0 \<mapsto> FPipeR k, p1 \<mapsto> FPipeW k)) (Suc k)))"
| "run (UFork c p) fds k =
     (case run c fds k of (xs, k1) \<Rightarrow> (case run (p 1) fds k1 of (ys, k2) \<Rightarrow> (xs @ ys, k2)))"
| "run (UWait p) fds k = run p fds k"

text \<open>What the command means: each of its programs, with the redirections and pipes around it in place and otherwise the descriptors it was started with.\<close>

primrec wires :: "string cmd \<Rightarrow> fds \<Rightarrow> nat \<Rightarrow> (string list \<times> fds) list \<times> nat" where
  "wires (EXEC argv) fds k = (if argv = [] then [] else [(argv, fds)], k)"
| "wires (REDIR c f m d) fds k = wires c (fds(d \<mapsto> FFile f m)) k"
| "wires (PIPE l r) fds k =
     (case wires l (fds(1 \<mapsto> FPipeW k)) (Suc k) of (xs, k1) \<Rightarrow>
     (case wires r (fds(0 \<mapsto> FPipeR k)) k1 of (ys, k2) \<Rightarrow> (xs @ ys, k2)))"
| "wires (LIST l r) fds k =
     (case wires l fds k of (xs, k1) \<Rightarrow> (case wires r fds k1 of (ys, k2) \<Rightarrow> (xs @ ys, k2)))"
| "wires (BACK c) fds k = wires c fds k"

lemma lowest_fd_eq: "d < 16 \<Longrightarrow> fds (int d) = None \<Longrightarrow> (\<And>e. e < d \<Longrightarrow> fds (int e) \<noteq> None) \<Longrightarrow> lowest_fd fds = Some (int d)"
proof -
  assume a: "d < 16" "fds (int d) = None" "\<And>e. e < d \<Longrightarrow> fds (int e) \<noteq> None"
  have "find_idx (\<lambda>d. fds (int d) = None) [0..<16] = Some d" unfolding find_idx_Some using a by simp
  then show ?thesis by (simp add: lowest_fd_def)
qed

text \<open>
  The standard descriptors are open and two others are free. What else is open does not matter: the processes of a job start with
  the read end of the job's pipe and the write ends of the pipes of earlier jobs.
\<close>

definition job_fds :: "fds \<Rightarrow> bool" where
  "job_fds fds \<longleftrightarrow> fds 0 \<noteq> None \<and> fds 1 \<noteq> None \<and> fds 2 \<noteq> None \<and> (\<exists>a < 16. \<exists>b < 16. a \<noteq> b \<and> fds (int a) = None \<and> fds (int b) = None)"

lemma job_fdsD:
  assumes "job_fds fds"
  shows "fds 0 \<noteq> None" "fds 1 \<noteq> None" "fds 2 \<noteq> None"
  using assms by (simp_all add: job_fds_def)

lemma job_fds_upd: "job_fds fds \<Longrightarrow> d \<in> {0, 1} \<Longrightarrow> job_fds (fds(d \<mapsto> x))"
proof -
  assume j: "job_fds fds" and d: "d \<in> {0, 1}"
  then obtain a b where ab: "a < 16" "b < 16" "a \<noteq> b" "fds (int a) = None" "fds (int b) = None" by (auto simp: job_fds_def)
  have "int a \<noteq> d" "int b \<noteq> d" using job_fdsD [OF j] d ab(4,5) by (metis insert_iff singletonD)+
  then have "\<exists>a < 16. \<exists>b < 16. a \<noteq> b \<and> (fds(d \<mapsto> x)) (int a) = None \<and> (fds(d \<mapsto> x)) (int b) = None"
    using ab by (intro exI [of _ a] exI [of _ b] conjI) simp_all
  then show ?thesis using job_fdsD [OF j] unfolding job_fds_def by (auto simp del: fun_upd_apply) (simp_all split: if_splits)
qed

lemma lowest_fd_SomeD: "lowest_fd fds = Some d \<Longrightarrow> fds d = None"
  by (auto simp: lowest_fd_def find_idx_Some)

lemma lowest_fd_free:
  assumes "a < 16" "fds (int a) = None"
  obtains d where "lowest_fd fds = Some d" "fds d = None"
proof -
  obtain i where i: "find_idx (\<lambda>d. fds (int d) = None) [0..<16] = Some i"
    using find_idx_ex [of "[0..<16]" "\<lambda>d. fds (int d) = None"] bexI [of "\<lambda>d. fds (int d) = None" a "set [0..<16]"] assms by auto
  then have "lowest_fd fds = Some (int i)" by (simp add: lowest_fd_def)
  then show ?thesis using that lowest_fd_SomeD by blast
qed

lemma lowest_fd_closed:
  "lowest_fd (fds(0 := None)) = Some 0" "fds 0 \<noteq> None \<Longrightarrow> lowest_fd (fds(1 := None)) = Some 1"
  using lowest_fd_eq [of 0 "fds(0 := None)"] lowest_fd_eq [of 1 "fds(1 := None)"] by simp_all

text \<open>The two descriptors that pipe returns.\<close>

lemma pipe_fds:
  assumes "job_fds fds"
  obtains p0 p1 where "lowest_fd fds = Some p0" "lowest_fd (fds(p0 \<mapsto> x)) = Some p1" "fds p0 = None" "fds p1 = None" "p0 \<noteq> p1"
    "p0 \<noteq> 0" "p0 \<noteq> 1" "p1 \<noteq> 0" "p1 \<noteq> 1"
proof -
  obtain a b where ab: "a < 16" "b < 16" "a \<noteq> b" "fds (int a) = None" "fds (int b) = None" using assms by (auto simp: job_fds_def)
  obtain p0 where p0: "lowest_fd fds = Some p0" "fds p0 = None" by (rule lowest_fd_free [where fds = fds, OF ab(1,4)])
  have "(fds(p0 \<mapsto> x)) (int a) = None \<or> (fds(p0 \<mapsto> x)) (int b) = None" using ab by (cases "int a = p0") auto
  then obtain p1 where p1: "lowest_fd (fds(p0 \<mapsto> x)) = Some p1" "(fds(p0 \<mapsto> x)) p1 = None"
    using lowest_fd_free [where fds = "fds(p0 \<mapsto> x)", OF ab(1)] lowest_fd_free [where fds = "fds(p0 \<mapsto> x)", OF ab(2)] by metis
  then have "p1 \<noteq> p0" "fds p1 = None" by (auto split: if_splits)
  then show ?thesis using that [OF p0(1) p1(1) p0(2)] job_fdsD [OF assms] p0(2) by metis
qed

lemma run_runcmd:
  assumes "cmd_ok P c" "job_fds fds"
  shows "run (runcmd c) fds k = wires c fds k"
  using assms
proof (induction c arbitrary: fds k)
  case (EXEC argv)
  then show ?case by (cases argv) simp_all
next
  case (REDIR c f m d)
  then have d: "d \<in> {0, 1}" by (auto simp: redir_ok_def)
  then have "lowest_fd (fds(d := None)) = Some d" using lowest_fd_closed [of fds] job_fdsD(1) [OF REDIR.prems(2)] by auto
  then show ?case using REDIR d job_fds_upd by auto
next
  case (PIPE l r)
  obtain p0 p1 where p: "lowest_fd fds = Some p0" "lowest_fd (fds(p0 \<mapsto> FPipeR k)) = Some p1" "fds p0 = None" "fds p1 = None" "p0 \<noteq> p1"
    "p0 \<noteq> 0" "p0 \<noteq> 1" "p1 \<noteq> 0" "p1 \<noteq> 1" by (rule pipe_fds [OF PIPE.prems(2)])
  let ?f = "fds(p0 \<mapsto> FPipeR k, p1 \<mapsto> FPipeW k)"
  have "?f 0 \<noteq> None" using p job_fdsD(1) [OF PIPE.prems(2)] by auto
  note L = lowest_fd_closed(1) [of ?f] lowest_fd_closed(2) [where fds = ?f, OF this]
  have "(?f(1 := None, 1 \<mapsto> FPipeW k, p0 := None, p1 := None)) = fds(1 \<mapsto> FPipeW k)"
    "(?f(0 := None, 0 \<mapsto> FPipeR k, p0 := None, p1 := None)) = fds(0 \<mapsto> FPipeR k)" using p by (auto simp: fun_eq_iff)
  then show ?case
    using PIPE job_fds_upd [OF PIPE.prems(2)] L p by (simp add: fork1_def split: prod.splits)
next
  case (LIST l r)
  then show ?case by (simp add: fork1_def split: prod.splits)
qed simp

text \<open>
  C24. A parsed command runs the programs it names with the descriptors it asks for: whatever else is open, runcmd executes exactly
  the simple commands of the command, in order; a redirection replaces standard input or output by its file, the two sides of a pipe
  get its two ends as standard output and input, and no process is left with a further descriptor of such a pipe. When the shell starts the command as a job, with
  the descriptors \<open>g\<close> of its own and a new pipe, the programs read from that pipe; they keep its read end \<open>p0\<close> and
  everything else that the shell had open.
\<close>

theorem runcmd_wires:
  assumes "cmd_ok P c" "job_fds fds"
  shows "run (runcmd c) fds k = wires c fds k \<and>
    (g 0 \<noteq> None \<and> lowest_fd g = Some p0 \<and> lowest_fd (g(p0 \<mapsto> FPipeR k)) = Some p1 \<and> job_fds (g(p0 \<mapsto> FPipeR k)) \<longrightarrow>
      run (job_prog p0 p1 c) (g(p0 \<mapsto> FPipeR k, p1 \<mapsto> FPipeW k)) (Suc k) = wires c (g(0 \<mapsto> FPipeR k, p0 \<mapsto> FPipeR k)) (Suc k))"
proof (intro conjI impI)
  show "run (runcmd c) fds k = wires c fds k" by (rule run_runcmd [OF assms])
  assume a: "g 0 \<noteq> None \<and> lowest_fd g = Some p0 \<and> lowest_fd (g(p0 \<mapsto> FPipeR k)) = Some p1 \<and> job_fds (g(p0 \<mapsto> FPipeR k))"
  let ?f = "g(p0 \<mapsto> FPipeR k, p1 \<mapsto> FPipeW k)"
  have f: "g p0 = None" "(g(p0 \<mapsto> FPipeR k)) p1 = None" using a by (auto dest!: lowest_fd_SomeD)
  have n: "p0 \<noteq> 0" "p1 \<noteq> 0" "p0 \<noteq> p1" using f a by (auto split: if_splits)
  have e: "?f(0 := None, 0 \<mapsto> FPipeR k, p1 := None) = g(0 \<mapsto> FPipeR k, p0 \<mapsto> FPipeR k)" using f n by (auto simp: fun_eq_iff)
  have "g(p0 \<mapsto> FPipeR k, 0 \<mapsto> FPipeR k) = g(0 \<mapsto> FPipeR k, p0 \<mapsto> FPipeR k)" by (auto simp: fun_eq_iff)
  then have j: "job_fds (g(0 \<mapsto> FPipeR k, p0 \<mapsto> FPipeR k))" using job_fds_upd [of "g(p0 \<mapsto> FPipeR k)" 0 "FPipeR k"] a by simp
  show "run (job_prog p0 p1 c) ?f (Suc k) = wires c (g(0 \<mapsto> FPipeR k, p0 \<mapsto> FPipeR k)) (Suc k)"
    using n e run_runcmd [OF assms(1) j, of "Suc k"] lowest_fd_closed(1) [of ?f]
    by (simp add: job_prog_def fork1_def split: prod.splits)
qed

theorem runcmd_wires_witness:
  "run (job_prog 4 5 (PIPE (EXEC [''ls'']) (REDIR (EXEC [''wc'']) ''f'' M_WRCREATE 1)))
     [0 \<mapsto> FInherited 0, 1 \<mapsto> FInherited 1, 2 \<mapsto> FInherited 2, 3 \<mapsto> FPipeW 0, 4 \<mapsto> FPipeR 1, 5 \<mapsto> FPipeW 1] 2 =
    ([([''ls''], [0 \<mapsto> FPipeR 1, 1 \<mapsto> FPipeW 2, 2 \<mapsto> FInherited 2, 3 \<mapsto> FPipeW 0, 4 \<mapsto> FPipeR 1]),
      ([''wc''], [0 \<mapsto> FPipeR 2, 1 \<mapsto> FFile ''f'' M_WRCREATE, 2 \<mapsto> FInherited 2, 3 \<mapsto> FPipeW 0, 4 \<mapsto> FPipeR 1])], 3)"
proof -
  let ?c = "PIPE (EXEC [''ls'']) (REDIR (EXEC [''wc'']) ''f'' M_WRCREATE 1)"
  let ?g = "[0 \<mapsto> FInherited 0, 1 \<mapsto> FInherited 1, 2 \<mapsto> FInherited 2, 3 \<mapsto> FPipeW 0] :: fds"
  have c: "cmd_ok (\<lambda>_. True) ?c" by (simp add: redir_ok_def MAXARGS_def)
  have g: "job_fds ?g" "job_fds (?g(4 \<mapsto> FPipeR 1))"
    by (simp_all add: job_fds_def) (rule exI [of _ 6], simp, rule exI [of _ 7], simp)+
  have l: "lowest_fd ?g = Some 4" "lowest_fd (?g(4 \<mapsto> FPipeR 1)) = Some 5"
    by (simp_all add: lowest_fd_def upt_rec)
  have "run (job_prog 4 5 ?c) (?g(4 \<mapsto> FPipeR 1, 5 \<mapsto> FPipeW 1)) (Suc 1) = wires ?c (?g(0 \<mapsto> FPipeR 1, 4 \<mapsto> FPipeR 1)) (Suc 1)"
    using runcmd_wires [OF c g(1), of 1 ?g 4 5] g(2) l by simp
  also have "wires ?c (?g(0 \<mapsto> FPipeR 1, 4 \<mapsto> FPipeR 1)) (Suc 1) =
     ([([''ls''], [0 \<mapsto> FPipeR 1, 1 \<mapsto> FPipeW 2, 2 \<mapsto> FInherited 2, 3 \<mapsto> FPipeW 0, 4 \<mapsto> FPipeR 1]),
      ([''wc''], [0 \<mapsto> FPipeR 2, 1 \<mapsto> FFile ''f'' M_WRCREATE, 2 \<mapsto> FInherited 2, 3 \<mapsto> FPipeW 0, 4 \<mapsto> FPipeR 1])], 3)"
    by (auto simp: fun_eq_iff)
  finally show ?thesis unfolding Suc_1 .
qed

section \<open>End of input in the foreground\<close>

lemma parsecmd_empty: "parsecmd [NUL] = Some (POk (EXEC [], [NUL]) 0)"
  by code_simp

lemma joblist_cong:
  "joblist s xs \<Longrightarrow> jmem t = jmem s \<Longrightarrow> jfirst t = jfirst s \<Longrightarrow> jlast t = jlast s \<Longrightarrow> joblist t xs"
  by (simp add: joblist_def nxt_def [abs_def] prv_def [abs_def] cong: if_cong)

text \<open>
  An end of input closes the pipe of the foreground job, as intended; the same turn then goes on with the empty line and starts a job
  for the empty command, which becomes the foreground job.
\<close>

lemma eof_starts_empty_job:
  assumes "joblist s xs" "fgJob s \<noteq> 0" "a_pipe ans = Some (p0, p1)" "a_fork ans \<noteq> -1"
  shows "\<exists>t acts. main_turn ans [] s = Some (Next t acts) \<and> AClose (jfd (jmem s (fgJob s))) \<in> set acts \<and>
    AFork (job_prog p0 p1 (EXEC [])) \<in> set acts \<and> fgJob t = a_malloc ans"
proof -
  let ?s = "s\<lparr>fgJob := 0\<rparr>"
  have l: "joblist ?s xs" by (rule joblist_cong [OF assms(1)]) simp_all
  have z: "0 \<notin> set xs" using assms(1) by (metis distinct.simps(2) joblist_def links_def)
  obtain fds t where t: "clearFinishedJobs (a_isJobEmpty ans) ?s = Some (fds, t)" "fgJob t = 0"
    using clearFinishedJobs_loop_filters [of ?s "[]" xs "job_data ?s" "a_isJobEmpty ans" "[]"] l z joblist_first [OF l]
    by (auto simp: clearFinishedJobs_def)
  have st: "\<not> starts ''cd '' []" "\<not> starts ''jobs'' []" "\<not> starts ''fg'' []"
    by (auto simp: starts_def deref_def intro!: exI [of _ 0])
  have "cmd_text [NUL] (EXEC []) = EXEC []" by (simp add: cmd_text_def)
  then show ?thesis
    using t st assms(2-4)
    by (simp add: main_turn_def getcmd_def start_job_def parsecmd_empty deref_def Let_def is_BACK_def addJobToList_def upd_job_def)
qed

text \<open>A line that does not parse ends the shell, because it is parsed before the fork.\<close>

lemma syntax_error_exits:
  assumes "parsecmd (line @ [NUL]) = Some (PErr e)" "a_pipe ans = Some (p0, p1)"
  shows "start_job ans line acts s = Exited (acts @ [APrintf 2 (e @ nl), AExit 0])"
  using assms by (simp add: start_job_def Let_def)

end
