(* ===== verification/Ulib.thy ===== *)
theory Ulib
  imports Shell Digits Kstring
begin

text \<open>
  The user library (ulib.c, printf.c). A user program sees the kernel through its system calls: \<open>kernel\<close> is the kernel's answer to a call, given the calls made
  before, and a program extends the list of its calls. C strings are the characters before the NUL. The result of printf is what
  it writes, one character per call of write.
\<close>

section \<open>System calls\<close>

record ustat =
  us_type :: int
  us_ino :: int
  us_size :: int

record uprocstat =
  up_name :: string
  up_sz :: int
  up_nofile :: int
  up_state :: int

datatype ucall =
    SRead int nat
  | SWrite int string
  | SOpen string int
  | SClose int
  | SFstat int
  | SPstat int
  | SKill int
  | SLink string string
  | SUnlink string
  | SMkdir string
  | SMknod string int int
  | SDup int
  | SFork
  | SWait
  | SExec string "string list"
  | SSleep int
  | SExit int

text \<open>An answer: the value returned, and what the call stored where the program told it to.\<close>

record uans =
  u_ret :: int
  u_bytes :: string
  u_stat :: ustat
  u_pstat :: uprocstat

type_synonym hist = "ucall list"
type_synonym kernel = "hist \<Rightarrow> ucall \<Rightarrow> uans"

text \<open>A piece of a program returns, or ends the program by exit.\<close>

datatype 'a ures = URet 'a hist | UEnd hist

fun ubind :: "'a ures \<Rightarrow> ('a \<Rightarrow> hist \<Rightarrow> 'b ures) \<Rightarrow> 'b ures" where
  "ubind (URet a h) f = f a h"
| "ubind (UEnd h) f = UEnd h"

definition uexit :: "int \<Rightarrow> hist \<Rightarrow> 'a ures" where
  "uexit n h = UEnd (h @ [SExit n])"

section \<open>printf\<close>

datatype uarg = AInt int | AStr "string option"

definition udigits :: string where "udigits = ''0123456789ABCDEF''"

definition uprintint :: "int \<Rightarrow> nat \<Rightarrow> bool \<Rightarrow> string" where
  "uprintint xx base sg =
     rev (map (\<lambda>d. udigits ! d) (print_digits base (print_magnitude xx sg)) @ (if sg \<and> xx < 0 then ''-'' else []))"

text \<open>The loop over the format, in state 0 or '%'. A conversion that meets the other kind of argument, or none, reads memory that is not modelled.\<close>

fun printf_loop :: "bool \<Rightarrow> string \<Rightarrow> uarg list \<Rightarrow> string option" where
  "printf_loop st [] args = Some []"
| "printf_loop False (c # fmt) args =
     (if c = CHR ''%'' then printf_loop True fmt args else map_option (\<lambda>r. c # r) (printf_loop False fmt args))"
| "printf_loop True (c # fmt) args =
     (if c = CHR ''d'' then
        (case args of AInt n # args1 \<Rightarrow> map_option (\<lambda>r. uprintint n 10 True @ r) (printf_loop False fmt args1) | _ \<Rightarrow> None)
      else if c = CHR ''x'' \<or> c = CHR ''p'' then
        (case args of AInt n # args1 \<Rightarrow> map_option (\<lambda>r. uprintint n 16 False @ r) (printf_loop False fmt args1) | _ \<Rightarrow> None)
      else if c = CHR ''s'' then
        (case args of AStr t # args1 \<Rightarrow>
             map_option (\<lambda>r. (case t of None \<Rightarrow> ''(null)'' | Some s \<Rightarrow> s) @ r) (printf_loop False fmt args1) | _ \<Rightarrow> None)
      else if c = CHR ''c'' then
        (case args of AInt n # args1 \<Rightarrow> map_option (\<lambda>r. char_of (nat (n mod 256)) # r) (printf_loop False fmt args1) | _ \<Rightarrow> None)
      else if c = CHR ''%'' then map_option (\<lambda>r. c # r) (printf_loop False fmt args)
      else map_option (\<lambda>r. CHR ''%'' # c # r) (printf_loop False fmt args))"

definition putcs :: "int \<Rightarrow> string \<Rightarrow> hist" where
  "putcs fd s = map (\<lambda>c. SWrite fd [c]) s"

definition printf :: "int \<Rightarrow> string \<Rightarrow> uarg list \<Rightarrow> hist \<Rightarrow> hist" where
  "printf fd fmt args h = (case printf_loop False fmt args of Some s \<Rightarrow> h @ putcs fd s | None \<Rightarrow> h)"

section \<open>ulib\<close>

fun strcpy_loop :: "string \<Rightarrow> string \<Rightarrow> string" where
  "strcpy_loop (d # ds) (c # cs) = (if c = NUL then c # ds else c # strcpy_loop ds cs)"
| "strcpy_loop ds cs = ds"

text \<open>strcpy into the array \<open>dst\<close>, which must have room for the string and its NUL.\<close>

definition strcpy :: "string \<Rightarrow> string \<Rightarrow> string" where
  "strcpy dst src = strcpy_loop dst (src @ [NUL])"

fun strcmp :: "string \<Rightarrow> string \<Rightarrow> int" where
  "strcmp (p # ps) (q # qs) = (if p = q then strcmp ps qs else of_char p - of_char q)"
| "strcmp (p # ps) [] = of_char p"
| "strcmp [] (q # qs) = - of_char q"
| "strcmp [] [] = 0"

definition umemset :: "uint \<Rightarrow> int \<Rightarrow> uint \<Rightarrow> mem \<Rightarrow> mem" where
  "umemset dst c n m = stosb (unat n) dst (of_int c) m"

definition umemmove :: "uint \<Rightarrow> uint \<Rightarrow> int \<Rightarrow> mem \<Rightarrow> mem" where
  "umemmove vdst vsrc n m = copy_up (nat n) vdst vsrc m"

text \<open>gets reads at most \<open>max - 1\<close> characters, one call of read for each; the first argument of the loop is the room left.\<close>

primrec gets_loop :: "nat \<Rightarrow> kernel \<Rightarrow> hist \<Rightarrow> string \<times> hist" where
  "gets_loop 0 k h = ([], h)"
| "gets_loop (Suc n) k h =
     (let a = k h (SRead 0 1); h1 = h @ [SRead 0 1]
      in if u_ret a < 1 then ([], h1)
         else let c = hd (u_bytes a)
              in if c = CHR 0x0A \<or> c = CHR 0x0D then ([c], h1)
                 else let (s, h2) = gets_loop n k h1 in (c # s, h2))"

definition gets :: "int \<Rightarrow> kernel \<Rightarrow> hist \<Rightarrow> string \<times> hist" where
  "gets mx k h = gets_loop (nat (mx - 1)) k h"

definition ustat_call :: "string \<Rightarrow> kernel \<Rightarrow> hist \<Rightarrow> (int \<times> ustat) \<times> hist" where
  "ustat_call n k h =
     (let a = k h (SOpen n 0); h1 = h @ [SOpen n 0]; fd = u_ret a
      in if fd < 0 then ((-1, u_stat a), h1)
         else let b = k h1 (SFstat fd) in ((u_ret b, u_stat b), h1 @ [SFstat fd, SClose fd]))"

section \<open>Numbers\<close>

lemma udigits_code: "d < 10 \<Longrightarrow> (of_char (udigits ! d) :: int) = 48 + int d"
proof -
  assume "d < 10"
  moreover have "\<forall>d \<in> set [0..<10]. (of_char (udigits ! d) :: int) = 48 + int d" by code_simp
  ultimately show ?thesis by simp
qed

lemma atoi_digits:
  assumes "\<forall>d \<in> set ds. d < 10" "digits_val 10 ds < 2 ^ 31"
  shows "atoi_loop 0 (map (\<lambda>d. udigits ! d) (rev ds) @ ys) = atoi_loop (int (digits_val 10 ds)) ys"
  using assms
proof (induction ds arbitrary: ys)
  case (Cons d ds)
  have "atoi_loop 0 (map (\<lambda>d. udigits ! d) (rev ds) @ udigits ! d # ys) = atoi_loop (int (digits_val 10 ds)) (udigits ! d # ys)"
    using Cons by simp
  moreover have "s32 (int (digits_val 10 ds) * 10 + int d) = int (digits_val 10 (d # ds))"
    using Cons.prems(2) by (subst s32_id) simp_all
  ultimately show ?case using Cons.prems(1) by (simp add: udigits_code algebra_simps)
qed simp

text \<open>
  C27. atoi reads back what printf prints with %d: for every non-negative int, converting it to decimal digits and the digits to a number gives it again.
\<close>

theorem printf_atoi_roundtrip:
  assumes "0 \<le> n" and "n < 2 ^ 31"
  shows "\<exists>s. printf_loop False ''%d'' [AInt n] = Some s \<and> atoi s = n"
proof -
  let ?x = "print_magnitude n True"
  have x: "int ?x = n" using print_magnitude_signed [of n] assms by simp
  have v: "digits_val 10 (print_digits 10 ?x) = ?x" by (rule digits_val_print) simp
  have "\<forall>d \<in> set (print_digits 10 ?x). d < 10" using print_digits_less [of 10 _ ?x] by simp
  moreover have "digits_val 10 (print_digits 10 ?x) < 2 ^ 31" 
  proof -
    have "int ?x < int (2 ^ 31)" using x assms(2) by simp
    then show ?thesis unfolding v by (simp only: of_nat_less_iff)
  qed
  ultimately have "atoi_loop 0 (map (\<lambda>d. udigits ! d) (rev (print_digits 10 ?x)) @ []) = n"
    using atoi_digits [of "print_digits 10 ?x" "[]"] unfolding v x by simp
  then show ?thesis using assms(1) by (simp add: atoi_def uprintint_def rev_map)
qed

theorem printf_atoi_roundtrip_witness:
  "\<exists>s. printf_loop False ''%d'' [AInt 2147483647] = Some s \<and> atoi s = 2147483647"
  using printf_atoi_roundtrip [of 2147483647] by simp

section \<open>Strings\<close>

lemma strcmp_eq_0: "NUL \<notin> set p \<Longrightarrow> NUL \<notin> set q \<Longrightarrow> strcmp p q = 0 \<longleftrightarrow> p = q"
proof (induction p q rule: strcmp.induct)
  case (1 p ps q qs)
  then show ?case by simp
next
  case (2 p ps)
  have "(of_char p :: int) \<noteq> of_char NUL" using 2 by (simp only: of_char_eq_iff) auto
  then show ?case by simp
next
  case (3 q qs)
  have "(of_char q :: int) \<noteq> of_char NUL" using 3 by (simp only: of_char_eq_iff) auto
  then show ?case by simp
qed simp

lemma strcpy_copies: "NUL \<notin> set src \<Longrightarrow> length src < length dst \<Longrightarrow> strcpy dst src = src @ NUL # drop (Suc (length src)) dst"
proof -
  have "NUL \<notin> set src \<Longrightarrow> length src < length dst \<Longrightarrow> strcpy_loop dst (src @ [NUL]) = src @ NUL # drop (Suc (length src)) dst" for src dst
  proof (induction src arbitrary: dst)
    case Nil
    then show ?case by (cases dst) auto
  next
    case (Cons c cs)
    then show ?case by (cases dst) auto
  qed
  then show "NUL \<notin> set src \<Longrightarrow> length src < length dst \<Longrightarrow> strcpy dst src = src @ NUL # drop (Suc (length src)) dst" by (simp add: strcpy_def)
qed

text \<open>gets never stores more than \<open>max - 1\<close> characters, and a newline only as the last one.\<close>

lemma gets_fits: "0 < mx \<Longrightarrow> int (length (fst (gets mx k h))) < mx"
proof -
  have "length (fst (gets_loop n k h)) \<le> n" for n
    by (induction n arbitrary: h) (auto simp: Let_def split: prod.splits, metis fst_conv)
  then have "length (fst (gets mx k h)) \<le> nat (mx - 1)" by (simp add: gets_def)
  then show "0 < mx \<Longrightarrow> int (length (fst (gets mx k h))) < mx" by linarith
qed

text \<open>memmove of the user library copies forward, so it is right only where the destination does not start inside the source.\<close>

lemma umemmove_correct:
  assumes "0 \<le> n" "n < 2 ^ 32" "\<And>i j. j < i \<Longrightarrow> i < nat n \<Longrightarrow> vsrc + of_nat i \<noteq> vdst + of_nat j"
  shows "umemmove vdst vsrc n m = (\<lambda>a. if unat (a - vdst) < nat n then m (vsrc + (a - vdst)) else m a)"
  unfolding umemmove_def using assms by (intro copy_up_eq) auto

end
