(* ===== verification/User.thy ===== *)
theory User
  imports Ulib
begin

text \<open>
  The user programs cat, echo, forktest, init, kill, ln, ls, mkdir, rm, stressfs, wc and zombie. Each is a function from its arguments, the kernel and
  the calls made so far to all the calls it makes. A loop that only the kernel's answers can end is a \<open>partial_function\<close>, so
  that \<open>None\<close> means that it goes on for ever.
\<close>

section \<open>Programs without a loop over input\<close>

primrec echo_loop :: "string list \<Rightarrow> hist \<Rightarrow> hist" where
  "echo_loop [] h = h"
| "echo_loop (a # as) h = echo_loop as (printf 1 ''%s%s'' [AStr (Some a), AStr (Some (if as \<noteq> [] then '' '' else nl))] h)"

definition echo_main :: "string list \<Rightarrow> kernel \<Rightarrow> hist \<Rightarrow> unit ures" where
  "echo_main argv k h = uexit 0 (echo_loop (tl argv) h)"

primrec kill_loop :: "string list \<Rightarrow> hist \<Rightarrow> hist" where
  "kill_loop [] h = h"
| "kill_loop (a # as) h = kill_loop as (h @ [SKill (atoi a)])"

definition kill_main :: "string list \<Rightarrow> kernel \<Rightarrow> hist \<Rightarrow> unit ures" where
  "kill_main argv k h =
     (if length argv < 1 then uexit 0 (printf 2 (''usage: kill pid...'' @ nl) [] h)
      else uexit 0 (kill_loop (tl argv) h))"

definition ln_main :: "string list \<Rightarrow> kernel \<Rightarrow> hist \<Rightarrow> unit ures" where
  "ln_main argv k h =
     (if length argv \<noteq> 3 then uexit 0 (printf 2 (''Usage: ln old new'' @ nl) [] h)
      else let c = SLink (argv ! 1) (argv ! 2); h1 = h @ [c]
           in uexit (-1) (if u_ret (k h c) < 0
                then printf 2 (''link %s %s: failed'' @ nl) [AStr (Some (argv ! 1)), AStr (Some (argv ! 2))] h1 else h1))"

primrec mkdir_loop :: "string list \<Rightarrow> kernel \<Rightarrow> hist \<Rightarrow> unit ures" where
  "mkdir_loop [] k h = URet () h"
| "mkdir_loop (a # as) k h =
     (let h1 = h @ [SMkdir a]
      in if u_ret (k h (SMkdir a)) < 0 then uexit (-1) (printf 2 (''mkdir: %s failed to create'' @ nl) [AStr (Some a)] h1)
         else mkdir_loop as k h1)"

definition mkdir_main :: "string list \<Rightarrow> kernel \<Rightarrow> hist \<Rightarrow> unit ures" where
  "mkdir_main argv k h =
     (if length argv < 2 then uexit 0 (printf 2 (''Usage: mkdir files...'' @ nl) [] h)
      else ubind (mkdir_loop (tl argv) k h) (\<lambda>_. uexit 0))"

primrec rm_loop :: "string list \<Rightarrow> kernel \<Rightarrow> hist \<Rightarrow> unit ures" where
  "rm_loop [] k h = URet () h"
| "rm_loop (a # as) k h =
     (let h1 = h @ [SUnlink a]
      in if u_ret (k h (SUnlink a)) < 0 then uexit (-1) (printf 2 (''rm: %s failed to delete'' @ nl) [AStr (Some a)] h1)
         else rm_loop as k h1)"

definition rm_main :: "string list \<Rightarrow> kernel \<Rightarrow> hist \<Rightarrow> unit ures" where
  "rm_main argv k h =
     (if length argv < 2 then uexit 0 (printf 2 (''Usage: rm files...'' @ nl) [] h)
      else ubind (rm_loop (tl argv) k h) (\<lambda>_. uexit 0))"

definition zombie_main :: "kernel \<Rightarrow> hist \<Rightarrow> unit ures" where
  "zombie_main k h = uexit 0 (if u_ret (k h SFork) > 0 then h @ [SFork, SSleep 5] else h @ [SFork])"

section \<open>cat and wc\<close>

text \<open>The read loops return the last answer of read.\<close>

partial_function (option) cat_loop :: "int \<Rightarrow> kernel \<Rightarrow> hist \<Rightarrow> (int \<times> hist) option" where
  "cat_loop fd k h =
     (let a = k h (SRead fd 512); h1 = h @ [SRead fd 512]
      in if u_ret a > 0 then cat_loop fd k (h1 @ [SWrite 1 (take (nat (u_ret a)) (u_bytes a))])
         else Some (u_ret a, h1))"

definition cat :: "int \<Rightarrow> kernel \<Rightarrow> hist \<Rightarrow> unit ures option" where
  "cat fd k h = map_option (\<lambda>(n, h1). if n < 0 then uexit (-1) (printf 1 (''cat: read error'' @ nl) [] h1) else URet () h1) (cat_loop fd k h)"

primrec cat_files :: "string list \<Rightarrow> kernel \<Rightarrow> hist \<Rightarrow> unit ures option" where
  "cat_files [] k h = Some (URet () h)"
| "cat_files (f # fs) k h =
     (let fd = u_ret (k h (SOpen f 0)); h1 = h @ [SOpen f 0]
      in if fd < 0 then Some (uexit (-1) (printf 1 (''cat: cannot open %s'' @ nl) [AStr (Some f)] h1))
         else case cat fd k h1 of
                None \<Rightarrow> None
              | Some (UEnd h2) \<Rightarrow> Some (UEnd h2)
              | Some (URet _ h2) \<Rightarrow> cat_files fs k (h2 @ [SClose fd]))"

definition cat_main :: "string list \<Rightarrow> kernel \<Rightarrow> hist \<Rightarrow> unit ures option" where
  "cat_main argv k h =
     (if length argv \<le> 1 then map_option (\<lambda>r. ubind r (\<lambda>_. uexit 0)) (cat 0 k h)
      else map_option (\<lambda>r. ubind r (\<lambda>_ h1.
        let a = k h1 (SPstat 3); p = u_pstat a; h2 = h1 @ [SPstat 3]
        in uexit 0 (printf 1 ('' %d'' @ nl @ '' '') [AInt (up_nofile p)] (printf 1 ''nofile: '' [] (printf 1 ''%d '' [AInt (up_sz p)]
             (printf 1 ''sz: '' [] (printf 1 ''%d '' [AInt (up_state p)] (printf 1 ''state: '' [] (printf 1 ''%s '' [AStr (Some (up_name p))]
             (printf 1 ''name: '' [] (printf 1 ''log:: pstat- isWork-> %d; '' [AInt (u_ret a)] h2)))))))))))
        (cat_files (tl argv) k h))"

record counts =
  c_lines :: int
  c_words :: int
  c_chars :: int
  inword :: bool

definition wc_space :: string where "wc_space = [CHR 0x20, CHR 0x0D, CHR 0x09, CHR 0x0A, CHR 0x0B]"

definition wc_char :: "char \<Rightarrow> counts \<Rightarrow> counts" where
  "wc_char b c =
     (let c1 = c\<lparr>c_chars := s32 (c_chars c + 1)\<rparr>;
          c2 = (if b = CHR 0x0A then c1\<lparr>c_lines := s32 (c_lines c1 + 1)\<rparr> else c1)
      in if strchr wc_space b \<noteq> None then c2\<lparr>inword := False\<rparr>
         else if \<not> inword c2 then c2\<lparr>c_words := s32 (c_words c2 + 1), inword := True\<rparr>
         else c2)"

partial_function (option) wc_loop :: "int \<Rightarrow> kernel \<Rightarrow> counts \<Rightarrow> hist \<Rightarrow> (int \<times> counts \<times> hist) option" where
  "wc_loop fd k c h =
     (let a = k h (SRead fd 512); h1 = h @ [SRead fd 512]
      in if u_ret a > 0 then wc_loop fd k (fold wc_char (take (nat (u_ret a)) (u_bytes a)) c) h1
         else Some (u_ret a, c, h1))"

definition wc :: "int \<Rightarrow> string \<Rightarrow> kernel \<Rightarrow> hist \<Rightarrow> unit ures option" where
  "wc fd name k h =
     map_option (\<lambda>(n, c, h1).
        if n < 0 then uexit (-1) (printf 1 (''wc: read error'' @ nl) [] h1)
        else URet () (printf 1 (''%d %d %d %s'' @ nl) [AInt (c_lines c), AInt (c_words c), AInt (c_chars c), AStr (Some name)] h1))
       (wc_loop fd k \<lparr>c_lines = 0, c_words = 0, c_chars = 0, inword = False\<rparr> h)"

primrec wc_files :: "string list \<Rightarrow> kernel \<Rightarrow> hist \<Rightarrow> unit ures option" where
  "wc_files [] k h = Some (URet () h)"
| "wc_files (f # fs) k h =
     (let fd = u_ret (k h (SOpen f 0)); h1 = h @ [SOpen f 0]
      in if fd < 0 then Some (uexit (-1) (printf 1 (''wc: cannot open %s'' @ nl) [AStr (Some f)] h1))
         else case wc fd f k h1 of
                None \<Rightarrow> None
              | Some (UEnd h2) \<Rightarrow> Some (UEnd h2)
              | Some (URet _ h2) \<Rightarrow> wc_files fs k (h2 @ [SClose fd]))"

definition wc_main :: "string list \<Rightarrow> kernel \<Rightarrow> hist \<Rightarrow> unit ures option" where
  "wc_main argv k h =
     map_option (\<lambda>r. ubind r (\<lambda>_. uexit 0)) (if length argv \<le> 1 then wc 0 [] k h else wc_files (tl argv) k h)"

section \<open>ls\<close>

definition fmtname :: "string \<Rightarrow> string" where
  "fmtname path =
     (let p = rev (takeWhile (\<lambda>c. c \<noteq> CHR ''/'') (rev path))
      in if length p \<ge> 14 then p else p @ replicate (14 - length p) (CHR '' ''))"

definition ls_line :: "string \<Rightarrow> ustat \<Rightarrow> hist \<Rightarrow> hist" where
  "ls_line path st h =
     printf 1 (''%s %d %d %d'' @ nl) [AStr (Some (fmtname path)), AInt (us_type st), AInt (s32 (us_ino st)), AInt (s32 (us_size st))] h"

text \<open>One entry of a directory: 2 bytes of inode number and 14 of name.\<close>

definition ls_entry :: "string \<Rightarrow> string \<Rightarrow> kernel \<Rightarrow> hist \<Rightarrow> hist" where
  "ls_entry path de k h =
     (if de ! 0 = NUL \<and> de ! 1 = NUL then h
      else let buf = path @ ''/'' @ takeWhile (\<lambda>c. c \<noteq> NUL) (take 14 (drop 2 de));
               ((r, st), h1) = ustat_call buf k h
           in if r < 0 then printf 1 (''ls: cannot stat %s'' @ nl) [AStr (Some buf)] h1 else ls_line buf st h1)"

partial_function (option) ls_loop :: "string \<Rightarrow> int \<Rightarrow> kernel \<Rightarrow> hist \<Rightarrow> hist option" where
  "ls_loop path fd k h =
     (let a = k h (SRead fd 16); h1 = h @ [SRead fd 16]
      in if u_ret a = 16 then ls_loop path fd k (ls_entry path (u_bytes a) k h1) else Some h1)"

definition ls :: "string \<Rightarrow> kernel \<Rightarrow> hist \<Rightarrow> hist option" where
  "ls path k h =
     (let fd = u_ret (k h (SOpen path 0)); h1 = h @ [SOpen path 0]
      in if fd < 0 then Some (printf 2 (''ls: cannot open %s'' @ nl) [AStr (Some path)] h1)
         else let a = k h1 (SFstat fd); st = u_stat a; h2 = h1 @ [SFstat fd]
              in if u_ret a < 0 then Some (printf 2 (''ls: cannot stat %s'' @ nl) [AStr (Some path)] h2 @ [SClose fd])
                 else map_option (\<lambda>h3. h3 @ [SClose fd])
                   (if us_type st = 2 then Some (ls_line path st h2)
                    else if us_type st = 1 then
                      (if length path + 1 + 14 + 1 > 512 then Some (printf 1 (''ls: path too long'' @ nl) [] h2)
                       else ls_loop path fd k h2)
                    else Some h2))"

primrec ls_all :: "string list \<Rightarrow> kernel \<Rightarrow> hist \<Rightarrow> hist option" where
  "ls_all [] k h = Some h"
| "ls_all (p # ps) k h = Option.bind (ls p k h) (ls_all ps k)"

definition ls_main :: "string list \<Rightarrow> kernel \<Rightarrow> hist \<Rightarrow> unit ures option" where
  "ls_main argv k h = map_option (uexit 0) (if length argv < 2 then ls ''.'' k h else ls_all (tl argv) k h)"

section \<open>init\<close>

text \<open>\<open>init_start\<close> opens the console; \<open>init_turn\<close> is one round of the endless loop, which starts a shell and waits until it exits.\<close>

definition init_start :: "kernel \<Rightarrow> hist \<Rightarrow> hist" where
  "init_start k h =
     (let h1 = h @ [SOpen ''console'' 2]
      in (if u_ret (k h (SOpen ''console'' 2)) < 0 then h1 @ [SMknod ''console'' 1 1, SOpen ''console'' 2] else h1) @ [SDup 0, SDup 0])"

partial_function (option) init_wait :: "int \<Rightarrow> kernel \<Rightarrow> hist \<Rightarrow> hist option" where
  "init_wait pid k h =
     (let wpid = u_ret (k h SWait); h1 = h @ [SWait]
      in if wpid \<ge> 0 \<and> wpid \<noteq> pid then init_wait pid k (printf 1 (''zombie! is %d'' @ nl) [AInt wpid] h1) else Some h1)"

definition init_turn :: "kernel \<Rightarrow> hist \<Rightarrow> unit ures option" where
  "init_turn k h =
     (let h1 = printf 1 (''init: starting sh'' @ nl) [] h; pid = u_ret (k h1 SFork); h2 = h1 @ [SFork]
      in if pid < 0 then Some (uexit (-1) (printf 1 (''init: fork failed'' @ nl) [] h2))
         else if pid = 0 then Some (uexit (-1) (printf 1 (''init: exec sh failed'' @ nl) [] (h2 @ [SExec ''sh'' [''sh'']])))
         else map_option (URet ()) (init_wait pid k h2))"

section \<open>The tests\<close>

definition ft_printf :: "int \<Rightarrow> string \<Rightarrow> hist \<Rightarrow> hist" where
  "ft_printf fd s h = h @ [SWrite fd s]"

text \<open>The fork loop returns how many forks worked; a child ends at once. The first argument counts down from 1000.\<close>

primrec forktest_fork :: "nat \<Rightarrow> nat \<Rightarrow> kernel \<Rightarrow> hist \<Rightarrow> nat ures" where
  "forktest_fork 0 n k h = URet n h"
| "forktest_fork (Suc m) n k h =
     (let pid = u_ret (k h SFork); h1 = h @ [SFork]
      in if pid < 0 then URet n h1 else if pid = 0 then uexit 0 h1 else forktest_fork m (Suc n) k h1)"

primrec forktest_wait :: "nat \<Rightarrow> kernel \<Rightarrow> hist \<Rightarrow> unit ures" where
  "forktest_wait 0 k h = URet () h"
| "forktest_wait (Suc n) k h =
     (if u_ret (k h SWait) < 0 then uexit (-1) (ft_printf 1 (''wait stopped early'' @ nl) (h @ [SWait]))
      else forktest_wait n k (h @ [SWait]))"

definition forktest :: "kernel \<Rightarrow> hist \<Rightarrow> unit ures" where
  "forktest k h =
     ubind (forktest_fork 1000 0 k (ft_printf 1 (''fork test'' @ nl) h)) (\<lambda>n h1.
       if n = 1000 then uexit 0 (ft_printf 1 (''fork claimed to work N times!'' @ nl) h1)
       else ubind (forktest_wait n k h1) (\<lambda>_ h2.
         if u_ret (k h2 SWait) \<noteq> -1 then uexit (-1) (ft_printf 1 (''wait got too many'' @ nl) (h2 @ [SWait]))
         else URet () (ft_printf 1 (''fork test OK'' @ nl) (h2 @ [SWait]))))"

definition forktest_main :: "kernel \<Rightarrow> hist \<Rightarrow> unit ures" where
  "forktest_main k h = ubind (forktest k h) (\<lambda>_. uexit 0)"

primrec stress_fork :: "nat \<Rightarrow> nat \<Rightarrow> kernel \<Rightarrow> hist \<Rightarrow> nat \<times> hist" where
  "stress_fork 0 i k h = (i, h)"
| "stress_fork (Suc m) i k h = (if u_ret (k h SFork) > 0 then (i, h @ [SFork]) else stress_fork m (Suc i) k (h @ [SFork]))"

definition stressfs_main :: "kernel \<Rightarrow> hist \<Rightarrow> unit ures" where
  "stressfs_main k h =
     (let (i, h1) = stress_fork 4 0 k (printf 1 (''stressfs starting'' @ nl) [] h);
          h2 = printf 1 (''write %d'' @ nl) [AInt (int i)] h1;
          path = ''stressfs'' @ [char_of (48 + i)];
          fd = u_ret (k h2 (SOpen path 0x202));
          h3 = h2 @ [SOpen path 0x202] @ replicate 20 (SWrite fd (replicate 512 (CHR ''a''))) @ [SClose fd];
          h4 = printf 1 (''read'' @ nl) [] h3;
          fd2 = u_ret (k h4 (SOpen path 0))
      in uexit 0 (h4 @ [SOpen path 0] @ replicate 20 (SRead fd2 512) @ [SClose fd2, SWait]))"

section \<open>What wc prints\<close>

text \<open>The characters that separate words: space, tab, newline, vertical tab and carriage return.\<close>

definition is_space :: "char \<Rightarrow> bool" where
  "is_space c \<longleftrightarrow> c = CHR '' '' \<or> c = CHR 0x09 \<or> c = CHR 0x0A \<or> c = CHR 0x0B \<or> c = CHR 0x0D"

text \<open>The positions where a word starts.\<close>

definition word_starts :: "string \<Rightarrow> nat set" where
  "word_starts s = {i. i < length s \<and> \<not> is_space (s ! i) \<and> (i = 0 \<or> is_space (s ! (i - 1)))}"

lemma word_starts_filter:
  "word_starts s = set (filter (\<lambda>i. \<not> is_space (s ! i) \<and> (i = 0 \<or> is_space (s ! (i - 1)))) [0..<length s])"
  by (auto simp: word_starts_def)

lemma strchr_set: "strchr xs c = None \<longleftrightarrow> c \<notin> set xs"
  by (induction xs) auto

lemma word_starts_snoc:
  "word_starts (s @ [c]) = (if \<not> is_space c \<and> (s = [] \<or> is_space (last s)) then insert (length s) (word_starts s) else word_starts s)"
proof -
  have "i \<in> word_starts (s @ [c]) \<longleftrightarrow> i \<in> word_starts s \<or> i = length s \<and> \<not> is_space c \<and> (s = [] \<or> is_space (last s))" for i
  proof (cases "i < length s")
    case True
    then show ?thesis by (auto simp: word_starts_def nth_append)
  next
    case False
    show ?thesis
    proof (cases "i = length s")
      case True
      then show ?thesis by (cases "s = []") (simp_all add: word_starts_def nth_append last_conv_nth)
    next
      case ne: False
      then show ?thesis using False by (simp add: word_starts_def)
    qed
  qed
  then show ?thesis by auto
qed

lemma word_starts_card: "finite (word_starts s)" "length s \<notin> word_starts s" "card (word_starts s) \<le> length s"
proof -
  have "word_starts s \<subseteq> {..<length s}" by (auto simp: word_starts_def)
  from card_mono [OF _ this] finite_subset [OF this] show "finite (word_starts s)" "card (word_starts s) \<le> length s" by simp_all
  show "length s \<notin> word_starts s" by (simp add: word_starts_def)
qed

lemma wc_fold:
  assumes "length s < 2 ^ 31"
  shows "fold wc_char s \<lparr>c_lines = 0, c_words = 0, c_chars = 0, inword = False\<rparr> =
    \<lparr>c_lines = int (count_list s (CHR 0x0A)), c_words = int (card (word_starts s)), c_chars = int (length s),
     inword = (s \<noteq> [] \<and> \<not> is_space (last s))\<rparr>"
  using assms
proof (induction s rule: rev_induct)
  case Nil
  then show ?case by (simp add: word_starts_def)
next
  case (snoc c s)
  have n: "count_list s (CHR 0x0A) \<le> length s" by (rule count_le_length)
  have "strchr wc_space c \<noteq> None \<longleftrightarrow> is_space c" by (auto simp: strchr_set is_space_def wc_space_def simp del: not_None_eq)
  then have w: "wc_char c x = (let c1 = x\<lparr>c_chars := s32 (c_chars x + 1)\<rparr>; c2 = (if c = CHR 0x0A then c1\<lparr>c_lines := s32 (c_lines c1 + 1)\<rparr> else c1)
      in if is_space c then c2\<lparr>inword := False\<rparr>
         else if \<not> inword c2 then c2\<lparr>c_words := s32 (c_words c2 + 1), inword := True\<rparr> else c2)" for x
    by (simp only: wc_char_def)
  have b: "int (count_list s (CHR 0x0A)) + 1 < 2 ^ 31" "int (length s) + 1 < 2 ^ 31" "int (card (word_starts s)) + 1 < 2 ^ 31"
    using snoc.prems n word_starts_card(3) [of s] by simp_all
  have ih: "fold wc_char (s @ [c]) \<lparr>c_lines = 0, c_words = 0, c_chars = 0, inword = False\<rparr> =
      wc_char c \<lparr>c_lines = int (count_list s (CHR 0x0A)), c_words = int (card (word_starts s)), c_chars = int (length s),
        inword = (s \<noteq> [] \<and> \<not> is_space (last s))\<rparr>"
    using snoc by simp
  show ?case unfolding ih w Let_def using b word_starts_card(1,2) [of s]
    by (cases "c = CHR 0x0A"; cases "is_space c"; cases "s \<noteq> [] \<and> \<not> is_space (last s)") (simp_all add: word_starts_snoc)
qed

text \<open>\<open>feeds k fd h cs\<close>: the kernel answers reads of \<open>fd\<close> with the pieces \<open>cs\<close> and then with end of file.\<close>

definition feeds :: "kernel \<Rightarrow> int \<Rightarrow> hist \<Rightarrow> string list \<Rightarrow> bool" where
  "feeds k fd h cs \<longleftrightarrow>
     (\<forall>i < length cs. cs ! i \<noteq> [] \<and> u_ret (k (h @ replicate i (SRead fd 512)) (SRead fd 512)) = int (length (cs ! i)) \<and>
        u_bytes (k (h @ replicate i (SRead fd 512)) (SRead fd 512)) = cs ! i) \<and>
     u_ret (k (h @ replicate (length cs) (SRead fd 512)) (SRead fd 512)) = 0"

lemma feeds_Cons:
  "feeds k fd h (c # cs) \<longleftrightarrow> c \<noteq> [] \<and> u_ret (k h (SRead fd 512)) = int (length c) \<and> u_bytes (k h (SRead fd 512)) = c \<and>
     feeds k fd (h @ [SRead fd 512]) cs"
  unfolding feeds_def by (simp add: All_less_Suc2)

lemma wc_loop_feeds:
  assumes "feeds k fd h cs"
  shows "wc_loop fd k c h = Some (0, fold wc_char (concat cs) c, h @ replicate (Suc (length cs)) (SRead fd 512))"
  using assms
proof (induction cs arbitrary: h c)
  case Nil
  then show ?case by (subst wc_loop.simps) (simp add: feeds_def)
next
  case (Cons x cs)
  then show ?case by (subst wc_loop.simps) (simp add: feeds_Cons)
qed

text \<open>
  C26. However the kernel cuts a file into pieces, wc reads all of it and prints the number of its newlines, of its words (maximal runs of characters that are
  not white space) and of its characters.
\<close>

theorem wc_counts:
  assumes "feeds k fd h cs" and "concat cs = s" and "length s < 2 ^ 31"
  shows "wc fd name k h = Some (URet () (printf 1 (''%d %d %d %s'' @ nl)
    [AInt (int (count_list s (CHR 0x0A))), AInt (int (card (word_starts s))), AInt (int (length s)), AStr (Some name)]
    (h @ replicate (Suc (length cs)) (SRead fd 512))))"
  using wc_fold [OF assms(3)] by (simp add: wc_def wc_loop_feeds [OF assms(1)] assms(2))

text \<open>A kernel that has the file in two pieces, the second cut inside a word.\<close>

definition kernel_sample :: kernel where
  "kernel_sample h c = \<lparr>u_ret = (if length h = 0 then 4 else if length h = 1 then 3 else 0),
     u_bytes = (if length h = 0 then ''a bc'' else ''d'' @ nl @ ''e''), u_stat = \<lparr>us_type = 0, us_ino = 0, us_size = 0\<rparr>,
     u_pstat = \<lparr>up_name = [], up_sz = 0, up_nofile = 0, up_state = 0\<rparr>\<rparr>"

theorem wc_counts_witness:
  "wc 0 ''f'' kernel_sample [] = Some (URet () (SRead 0 512 # SRead 0 512 # SRead 0 512 # putcs 1 (''1 3 7 f'' @ nl)))"
proof -
  have f: "feeds kernel_sample 0 [] [''a bc'', ''d'' @ nl @ ''e'']"
    by (simp add: feeds_def kernel_sample_def nl_def All_less_Suc2 numeral_2_eq_2)
  have w: "word_starts (''a bcd'' @ nl @ ''e'') = {0, 2, 6}"
  proof -
    have "filter (\<lambda>i. \<not> is_space ((''a bcd'' @ nl @ ''e'') ! i) \<and> (i = 0 \<or> is_space ((''a bcd'' @ nl @ ''e'') ! (i - 1)))) [0..<length (''a bcd'' @ nl @ ''e'')] = [0, 2, 6]"
      by code_simp
    then show ?thesis by (simp only: word_starts_filter list.set)
  qed
  have d: "print_digits 10 (Suc 0) = [1]" "print_digits 10 3 = [3]" "print_digits 10 7 = [7]" by (simp_all add: print_digits.simps)
  have m: "print_magnitude n True = nat n" if "0 \<le> n" "n < 2 ^ 31" for n
    using print_magnitude_signed [of n] that by simp
  have "concat [''a bc'', ''d'' @ nl @ ''e''] = ''a bcd'' @ nl @ ''e''" by simp
  from wc_counts [OF f this, of "''f''"] show ?thesis
    unfolding w by (simp add: nl_def printf_def uprintint_def m d udigits_def)
qed

section \<open>What cat copies\<close>

text \<open>
  cat writes every piece to its output in the order in which it reads them; \<open>cat_calls\<close> are the calls it makes then.
\<close>

primrec cat_calls :: "int \<Rightarrow> string list \<Rightarrow> hist" where
  "cat_calls fd [] = [SRead fd 512]"
| "cat_calls fd (c # cs) = SRead fd 512 # SWrite 1 c # cat_calls fd cs"

primrec cat_feeds :: "kernel \<Rightarrow> int \<Rightarrow> hist \<Rightarrow> string list \<Rightarrow> bool" where
  "cat_feeds k fd h [] \<longleftrightarrow> u_ret (k h (SRead fd 512)) = 0"
| "cat_feeds k fd h (c # cs) \<longleftrightarrow> c \<noteq> [] \<and> u_ret (k h (SRead fd 512)) = int (length c) \<and> u_bytes (k h (SRead fd 512)) = c \<and>
     cat_feeds k fd (h @ [SRead fd 512, SWrite 1 c]) cs"

lemma cat_copies: "cat_feeds k fd h cs \<Longrightarrow> cat fd k h = Some (URet () (h @ cat_calls fd cs))"
proof -
  have "cat_loop fd k h = Some (0, h @ cat_calls fd cs)" if "cat_feeds k fd h cs"
    using that by (induction cs arbitrary: h) (subst cat_loop.simps, simp)+
  then show "cat_feeds k fd h cs \<Longrightarrow> cat fd k h = Some (URet () (h @ cat_calls fd cs))" by (simp add: cat_def)
qed

text \<open>echo writes its arguments with a blank between them and a newline at the end.\<close>

definition echo_text :: "string list \<Rightarrow> string" where
  "echo_text as = concat (map (\<lambda>a. a @ '' '') (butlast as)) @ (if as = [] then [] else last as @ nl)"

lemma printf_ss: "printf fd ''%s%s'' [AStr (Some a), AStr (Some b)] h = h @ putcs fd (a @ b)"
  by (simp add: printf_def)

lemma echo_writes: "echo_main argv k h = UEnd (h @ putcs 1 (echo_text (tl argv)) @ [SExit 0])"
proof -
  have "echo_loop as h = h @ putcs 1 (echo_text as)" for as h
    by (induction as arbitrary: h) (auto simp: echo_text_def printf_ss putcs_def)
  then show ?thesis by (simp add: echo_main_def uexit_def)
qed

text \<open>Whatever the kernel answers, ln ends with status -1, also when the link was made.\<close>

lemma ln_status: "length argv = 3 \<Longrightarrow> \<exists>h1. ln_main argv k h = UEnd (h1 @ [SExit (-1)])"
  by (auto simp: ln_main_def uexit_def Let_def)

text \<open>kill without arguments ends silently: the test of argc for the usage message never succeeds, as argv always has the name of the program.\<close>

lemma kill_no_usage: "kill_main [name] k h = UEnd (h @ [SExit 0])"
  by (simp add: kill_main_def uexit_def)

end
