(* ===== verification/Spec2Isabelle.thy ===== *)
theory Spec2Isabelle
  imports Balloc Bio Blk Console Digits Exec File Fs Grep Ide Irq Kalloc Kstring Links Log Mp Pagemap Pipe Prelude Proc Ptable Ring Seg Sh Shell Spinlock Syscall Sysfile Trap Ulib User Vm
begin

text \<open>
  A verification of a small operating system derived from xv6: the kernel, its shell and some of its user programs, written in C for a
  32-bit x86 machine. Compared with xv6 the system has exit statuses, waitpid, pstat, signal, and jobs (groups of processes that the
  shell runs in the foreground or in the background).

  \<^bold>\<open>The parts and how they interact.\<close> A trap enters the kernel (trap.c); a system call goes through the table of syscall.c to
  sysproc.c or sysfile.c. Processes live in a table (proc.c) that is protected by spin locks (spinlock.c); their memory is a page table
  (vm.c) of pages that kalloc.c hands out, and exec.c fills it with a program. Open files (file.c) are pipes (pipe.c), devices (console.c with kbd.c and
  uart.c) or inodes; inodes, directories and paths are in fs.c, which changes blocks only through the write-ahead log (log.c) over the
  buffer cache (bio.c) over a disk, either in memory (memide.c) or behind a controller (ide.c). Interrupts arrive through the controllers of picirq.c, ioapic.c
  and lapic.c, which mp.c finds. The shell (sh.c), grep (grep.c) and the small programs (cat.c, wc.c, ls.c and others) with their library (ulib.c, printf.c) run on top of
  the system calls.

  \<^bold>\<open>How the code is translated.\<close> The state of the kernel is one record that grows with the components: memory and free list, process table,
  pipes, buffer cache, log, inode cache, file table, console. Every operation is a function of the same name from its arguments and
  the state. Its outcome (\<open>kres\<close> in \<open>Prelude\<close>) is \<open>Done\<close> with a value and a state, \<open>Panic\<close>, or \<open>Sleep\<close> with the channel on
  which the process waits; the code that runs after a wakeup is the operation again, or a \<open>_return\<close> or \<open>_loop\<close> function of its own where the
  code does not start anew. Machine integers are 32-bit, 16-bit or 8-bit words where they can wrap; pointers into arrays of
  structures are indices, with \<open>None\<close> for the null pointer; pages are ranges of the byte memory. A lock serialises the operations, so an operation
  is atomic between the points where it sleeps; the locks themselves are verified in \<open>Spinlock\<close>, for several processors. The process
  table has one current process: it is the table of a machine with one processor, which is the default of the Makefile. Loops are structural recursion, recursion with a termination proof, or
  \<open>partial_function\<close> where the data may be cyclic. The parser of the shell has a fuel argument, which stands for the depth of the C stack, and returns \<open>None\<close> when it is used up; four
  times the length of the line plus four is enough (\<open>parsecmd_terminates\<close>). A user program is a function of a kernel, an arbitrary function from the history of
  its system calls to the answer of the next one; loops that only an answer of the kernel ends are \<open>partial_function\<close>.

  \<^bold>\<open>The theories.\<close>
  \<^item> \<open>Prelude\<close>: machine types (types.h), outcomes, the scan of a table, lemmas on lists, words and byte memories. \<open>Links\<close>: doubly
    linked lists. \<open>Ring\<close>: ring buffers with free-running counters, a locale that \<open>Pipe\<close> and \<open>Console\<close> interpret. \<open>Digits\<close>: numbers to
    digits. \<open>Blk\<close>: structures inside a disk block.
  \<^item> \<open>Kstring\<close> (string.c, x86.h): memmove is correct for overlapping ranges, memset for every alignment, safestrcpy always terminates.
  \<^item> \<open>Kalloc\<close> (kalloc.c): the free list never hands out a page twice; kfree and kalloc are inverse; kinit1 frees the whole pages of the
    range. Its contract is the locale that the proofs of the clients use.
  \<^item> \<open>Spinlock\<close> (spinlock.c): mutual exclusion of any interleaving of processors; nesting of pushcli and popcli.
  \<^item> \<open>Vm\<close> (vm.c): the page table operations, and that they leave the rest of the kernel state alone. \<open>Pagemap\<close>: what a page table means, as a map from
    pages to entries; mappages maps exactly the pages of its range, and copyuvm gives the child the same bytes at the same addresses in pages of its own.
  \<^item> \<open>Seg\<close> (mmu.h, seginit of vm.c, tvinit of trap.c): descriptors and gates with the width of every field; user code enters the kernel through the gate of
    system calls only. \<open>Irq\<close> (picirq.c, ioapic.c, lapic.c, timer.c): which interrupts the controllers let through after each call, and the clock of the
    machine read until it is steady. \<open>Mp\<close> (mp.c): the walk over the table of processors that the firmware leaves in memory.
  \<^item> \<open>Ptable\<close> (proc.c, proc.h): the invariant of the process table, which every operation keeps; the life cycle of a slot; exit,
    waitpid, kill and wakeup on every branch; the scheduler runs every process that stays runnable.
  \<^item> \<open>Pipe\<close> (pipe.c): writes append and reads take a prefix, so the bytes of any history of writes, reads and closing are a stream, and a
    reader sees its end when everything was read and the write end is closed.
  \<^item> \<open>Bio\<close> (bio.c, memide.c): the cache is coherent with the disk as long as no client releases a buffer that it changed and neither marked dirty nor wrote, bread returns the current contents, the least recently used buffer is
    recycled. \<open>Log\<close> (log.c): a crash at any sector write of a commit leaves all of a transaction or nothing of it after recovery; end_op
    makes it durable. \<open>Ide\<close> (ide.c): the queue of requests is served in order, and the processes that sleep on a buffer are woken when its transfer is complete.
  \<^item> \<open>Fs\<close> (fs.c) and \<open>Balloc\<close>: inodes, directories and paths; the block allocator takes the first free block, and bfree undoes it. mkfs.c leaves the blocks of the log
    free in the bitmap, so the first free block can be one of them; the lemmas say what then no longer holds.
  \<^item> \<open>File\<close> (file.c), \<open>Proc\<close> (fork, exit, userinit of proc.c), \<open>Syscall\<close> (syscall.c, sysproc.c), \<open>Exec\<close> (exec.c), \<open>Sysfile\<close> (sysfile.c).
  \<^item> \<open>Console\<close> (console.c, kbd.c, uart.c): line editing refines a list of available characters and an edited line; a typed line is what a reader gets.
  \<^item> \<open>Trap\<close> (trap.c, syscall.c): a killed process never returns to user space; unknown calls fail with a message.
  \<^item> \<open>Sh\<close> (the parser of sh.c): it terminates, builds well-formed commands, and parses what unparse prints. \<open>Shell\<close> (the rest of sh.c): the
    list of jobs, and the file descriptors of the programs of a job. \<open>Grep\<close> (grep.c): the matcher agrees with the meaning of patterns.
    \<open>Ulib\<close> (ulib.c, printf.c): the user library; atoi reads back what printf prints. \<open>User\<close>: the small programs; wc counts the bytes, words and lines of
    its input however the reads divide it, and cat copies its input.

  \<^bold>\<open>Not modelled.\<close> Code in assembly (swtch.S, trapasm.S, usys.S, entry.S, bootasm.S, initcode.S), whose effect on the
  process table is part of the operations that use it; the boot loader and main.c; the host program mkfs.c; the memory allocator umalloc.c, whose calls are taken to succeed.
\<close>

end
